(* ===== verification/Prelude.thy ===== *)
theory Prelude
  imports Main "HOL-Library.Word"
begin

text \<open>
  Shared vocabulary of the development: the names of the program's basic types, the
  reading of Go's slices and maps as lists and partial functions, and the generic lemmas
  about them that more than one component uses.

  A Go \<open>string\<close> is a list of bytes (\<open>string\<close>), a slice that is only read, appended to or
  cut is a \<open>list\<close>, a map with value semantics is a partial function. A Go function with the
  results \<open>(T, error)\<close> returns \<open>error + T\<close>, one with the result \<open>error\<close> returns
  \<open>error option\<close> with \<open>None\<close> for \<open>nil\<close>.
\<close>

section \<open>Lemma collections\<close>

named_theorems go_defs "definitions of the model that component proofs unfold"
named_theorems frame "what an operation of the model leaves unchanged"

section \<open>Basic types\<close>

type_synonym ToolName = string
type_synonym TokenValue = string
type_synonym SessionID = string
type_synonym EventType = string
type_synonym EventID = string

section \<open>Slices\<close>

text \<open>The index found by \<open>for i, x := range xs { if P(x) { ... i ... } }\<close>, counted from \<open>i\<close>.\<close>

fun find_from :: "('a \<Rightarrow> bool) \<Rightarrow> nat \<Rightarrow> 'a list \<Rightarrow> nat option" where
  "find_from P i [] = None"
| "find_from P i (x # xs) = (if P x then Some i else find_from P (Suc i) xs)"

text \<open>The value of \<open>append(xs[:i], xs[i+1:]...)\<close>.\<close>

definition cut_at :: "nat \<Rightarrow> 'a list \<Rightarrow> 'a list" where
  "cut_at i xs = take i xs @ drop (Suc i) xs"

text \<open>The reference for both: drop the first element that satisfies the predicate.\<close>

fun remove_first :: "('a \<Rightarrow> bool) \<Rightarrow> 'a list \<Rightarrow> 'a list" where
  "remove_first P [] = []"
| "remove_first P (x # xs) = (if P x then xs else x # remove_first P xs)"

lemma find_from_shift: "find_from P (k + i) xs = map_option ((+) k) (find_from P i xs)"
proof (induction xs arbitrary: i)
  case Nil
  then show ?case by simp
next
  case (Cons x xs)
  from Cons.IH[of "Suc i"] show ?case by simp
qed

lemma find_from_Suc: "find_from P (Suc i) xs = map_option Suc (find_from P i xs)"
  using find_from_shift[of P 1 i xs] by (simp add: option.map_comp fun_eq_iff cong: option.map_cong)

lemma find_from_None_iff: "find_from P i xs = None \<longleftrightarrow> (\<forall>x\<in>set xs. \<not> P x)"
  by (induction xs arbitrary: i) auto

lemma find_from_cut: "find_from P 0 xs = Some i \<Longrightarrow> cut_at i xs = remove_first P xs"
proof (induction xs arbitrary: i)
  case Nil
  then show ?case by simp
next
  case (Cons x xs)
  then show ?case by (auto simp: cut_at_def find_from_Suc split: if_splits)
qed

lemma remove_first_none [simp]: "\<forall>x\<in>set xs. \<not> P x \<Longrightarrow> remove_first P xs = xs"
  by (induction xs) auto

lemma remove_first_eq_remove1: "remove_first (\<lambda>x. x = y) xs = remove1 y xs"
  by (induction xs) auto

lemma length_remove_first:
  "length (remove_first P xs) = (if \<exists>x\<in>set xs. P x then length xs - 1 else length xs)"
  by (induction xs) (auto simp: Suc_diff_le length_greater_0_conv dest: length_pos_if_in_set)

lemma set_remove_first_subset: "set (remove_first P xs) \<subseteq> set xs"
  by (induction xs) auto

lemma remove_first_append:
  "remove_first P (xs @ ys) =
     (if \<exists>x\<in>set xs. P x then remove_first P xs @ ys else xs @ remove_first P ys)"
  by (induction xs) auto

lemma last_filter_split:
  assumes "filter P xs \<noteq> []"
  obtains ys zs where "xs = ys @ last (filter P xs) # zs" "P (last (filter P xs))" "\<forall>z\<in>set zs. \<not> P z"
proof -
  from assms have "\<exists>x\<in>set xs. P x" by (auto simp: filter_empty_conv)
  then obtain ys x zs where *: "xs = ys @ x # zs" "P x" "\<forall>z\<in>set zs. \<not> P z"
    using split_list_last_prop[of xs P] by blast
  then have "last (filter P xs) = x" by (simp add: filter_False)
  with * have "xs = ys @ last (filter P xs) # zs" "P (last (filter P xs))" by simp_all
  with *(3) show thesis by (rule that[rotated -1])
qed

section \<open>Maps\<close>

text \<open>Reading a missing key of a \<open>map[K][]V\<close> gives the nil slice.\<close>

definition get_list :: "('k \<rightharpoonup> 'v list) \<Rightarrow> 'k \<Rightarrow> 'v list" where
  "get_list m k = (case m k of None \<Rightarrow> [] | Some xs \<Rightarrow> xs)"

text \<open>\<open>m[k] = append(m[k], x)\<close>.\<close>

definition push_list :: "'k \<Rightarrow> 'v \<Rightarrow> ('k \<rightharpoonup> 'v list) \<Rightarrow> ('k \<rightharpoonup> 'v list)" where
  "push_list k x m = m(k \<mapsto> get_list m k @ [x])"

text \<open>\<open>m[k]++\<close> on a map of counters, a missing key counting as 0.\<close>

definition bump :: "'k \<Rightarrow> ('k \<rightharpoonup> nat) \<Rightarrow> ('k \<rightharpoonup> nat)" where
  "bump k m = m(k \<mapsto> (case m k of None \<Rightarrow> 0 | Some n \<Rightarrow> n) + 1)"

lemma get_list_empty [simp]: "get_list Map.empty k = []"
  by (simp add: get_list_def)

lemma get_list_upd [simp]: "get_list (m(k \<mapsto> xs)) k' = (if k' = k then xs else get_list m k')"
  by (simp add: get_list_def)

lemma get_list_push [simp]:
  "get_list (push_list k x m) k' = (if k' = k then get_list m k @ [x] else get_list m k')"
  by (simp add: push_list_def)

lemma get_list_Some [simp]: "m k = Some xs \<Longrightarrow> get_list m k = xs"
  by (simp add: get_list_def)

lemma get_list_None [simp]: "m k = None \<Longrightarrow> get_list m k = []"
  by (simp add: get_list_def)

lemma dom_push_list [simp]: "dom (push_list k x m) = insert k (dom m)"
  by (auto simp: push_list_def)

end
