(* ===== verification/GoDuration.thy ===== *)
theory GoDuration
  imports GoStd
begin

text \<open>
  \<open>time.ParseDuration\<close>, which the configuration loader calls on every \<open>expiry\<close>: the
  \<open>uint64\<close> arithmetic of its overflow checks (the sum of the parts wraps modulo \<open>2 ^ 64\<close>)
  and the \<open>float64\<close> product of a fraction (rounded to 53 bits, half to even). Shown here: a
  duration it returns fits an \<open>int64\<close>, and an empty text is refused.
\<close>

section \<open>The float64 product of a fraction\<close>

text \<open>The number of binary digits of a positive integer.\<close>

function bit_length :: "int \<Rightarrow> nat" where
  "bit_length n = (if n \<le> 0 then 0 else Suc (bit_length (n div 2)))"
  by pat_completeness auto
termination
  by (relation "measure nat") auto

declare bit_length.simps [simp del]

text \<open>\<open>p / q\<close> rounded to the nearest integer, half to even.\<close>

definition round_half_even :: "int \<Rightarrow> int \<Rightarrow> int" where
  "round_half_even p q =
     (let k = p div q; r = p mod q
      in if 2 * r < q then k else if q < 2 * r then k + 1 else if even k then k else k + 1)"

text \<open>The \<open>float64\<close> nearest to \<open>p / q\<close>, as a mantissa and a binary exponent.\<close>

definition scaled_round :: "int \<Rightarrow> int \<Rightarrow> int \<Rightarrow> int" where
  "scaled_round p q e =
     (if 0 \<le> e then round_half_even p (q * 2 ^ nat e) else round_half_even (p * 2 ^ nat (- e)) q)"

definition float_div :: "int \<Rightarrow> int \<Rightarrow> int \<times> int" where
  "float_div p q =
     (if p = 0 then (0, 0)
      else let e = int (bit_length p) - int (bit_length q) - 53;
               m = scaled_round p q e
           in if m < 2 ^ 53 then (m, e) else (scaled_round p q (e + 1), e + 1))"

definition float_mult :: "int \<times> int \<Rightarrow> int \<times> int \<Rightarrow> int \<times> int" where
  "float_mult a b =
     (let m = fst a * fst b; e = snd a + snd b; r = float_div m 1 in (fst r, snd r + e))"

definition float_trunc :: "int \<times> int \<Rightarrow> int" where
  "float_trunc a = (if 0 \<le> snd a then fst a * 2 ^ nat (snd a) else fst a div 2 ^ nat (- snd a))"

text \<open>\<open>uint64(float64(f) * (float64(unit) / scale))\<close>.\<close>

definition fraction_ns :: "int \<Rightarrow> int \<Rightarrow> int \<Rightarrow> int" where
  "fraction_ns f unit scale = float_trunc (float_mult (float_div f 1) (float_div unit scale))"

section \<open>The parser\<close>

text \<open>\<open>leadingInt\<close> with its overflow checks.\<close>

fun leadingInt :: "int \<Rightarrow> string \<Rightarrow> (int \<times> string) option" where
  "leadingInt x [] = Some (x, [])"
| "leadingInt x (c # s) =
     (if \<not> is_digit c then Some (x, c # s)
      else if x > 2 ^ 63 div 10 then None
      else let y = x * 10 + digit_val c in if y > 2 ^ 63 then None else leadingInt y s)"

text \<open>\<open>leadingFraction\<close>: digits beyond the precision are dropped.\<close>

fun leadingFraction :: "int \<Rightarrow> int \<Rightarrow> bool \<Rightarrow> string \<Rightarrow> int \<times> int \<times> string" where
  "leadingFraction x scale ov [] = (x, scale, [])"
| "leadingFraction x scale ov (c # s) =
     (if \<not> is_digit c then (x, scale, c # s)
      else if ov then leadingFraction x scale ov s
      else if x > (2 ^ 63 - 1) div 10 then leadingFraction x scale True s
      else let y = x * 10 + digit_val c
           in if y > 2 ^ 63 then leadingFraction x scale True s
              else leadingFraction y (scale * 10) ov s)"

lemma leadingInt_length: "leadingInt x s = Some (y, r) \<Longrightarrow> length r \<le> length s"
  by (induction x s rule: leadingInt.induct) (auto simp: Let_def split: if_splits)

lemma leadingFraction_length: "leadingFraction x sc ov s = (y, sc', r) \<Longrightarrow> length r \<le> length s"
  by (induction x sc ov s rule: leadingFraction.induct) (force simp: Let_def split: if_splits)+

text \<open>The units, micro written with \<open>u\<close>, with U+00B5 or with U+03BC.\<close>

definition unitMap :: "string \<Rightarrow> int option" where
  "unitMap u =
     (if u = ''ns'' then Some 1
      else if u = ''us'' \<or> u = [char_of (194 :: nat), char_of (181 :: nat), CHR ''s'']
        \<or> u = [char_of (206 :: nat), char_of (188 :: nat), CHR ''s''] then Some 1000
      else if u = ''ms'' then Some 1000000
      else if u = ''s'' then Some 1000000000
      else if u = ''m'' then Some (60 * 1000000000)
      else if u = ''h'' then Some (3600 * 1000000000)
      else None)"

text \<open>\<open>time.quote\<close>: the text in double quotes, bytes outside printable ASCII in hexadecimal.\<close>

definition hex_digit :: "nat \<Rightarrow> char" where
  "hex_digit n = (if n < 10 then char_of (48 + n) else char_of (87 + n))"

definition quote_char :: "char \<Rightarrow> string" where
  "quote_char c =
     (let n = (of_char c :: nat) in
      if n \<ge> 128 \<or> n < 32 then [CHR 0x5C, CHR ''x'', hex_digit (n div 16), hex_digit (n mod 16)]
      else if c = CHR 0x22 \<or> c = CHR 0x5C then [CHR 0x5C, c] else [c])"

definition time_quote :: "string \<Rightarrow> string" where
  "time_quote s = [CHR 0x22] @ concat (map quote_char s) @ [CHR 0x22]"

definition invalid_duration :: "string \<Rightarrow> error" where
  "invalid_duration orig = NewError (''time: invalid duration '' @ time_quote orig)"

definition is_unit_char :: "char \<Rightarrow> bool" where
  "is_unit_char c \<longleftrightarrow> \<not> (c = CHR ''.'' \<or> is_digit c)"

text \<open>One round of the loop: an integer, an optional fraction and a unit.\<close>

definition parse_part :: "string \<Rightarrow> string \<Rightarrow> error + (int \<times> string)" where
  "parse_part orig s =
     (if is_unit_char (hd s) then Inl (invalid_duration orig)
      else case leadingInt 0 s of
        None \<Rightarrow> Inl (invalid_duration orig)
      | Some (v, s1) \<Rightarrow>
          let pre = (length s1 \<noteq> length s);
              dot = (s1 \<noteq> [] \<and> hd s1 = CHR ''.'');
              (f, scale, s2) = (if dot then leadingFraction 0 1 False (tl s1) else (0, 1, s1));
              post = (dot \<and> length s2 \<noteq> length (tl s1))
          in if \<not> pre \<and> \<not> post then Inl (invalid_duration orig)
             else let u = takeWhile is_unit_char s2
             in if u = [] then Inl (NewError (''time: missing unit in duration '' @ time_quote orig))
             else case unitMap u of
               None \<Rightarrow> Inl (NewError (''time: unknown unit '' @ time_quote u @ '' in duration ''
                               @ time_quote orig))
             | Some unit \<Rightarrow>
                 if v > 2 ^ 63 div unit then Inl (invalid_duration orig)
                 else let v' = v * unit + (if f > 0 then fraction_ns f unit scale else 0)
                 in if v' > 2 ^ 63 then Inl (invalid_duration orig)
                 else Inr (v', dropWhile is_unit_char s2))"

lemma dropWhile_shorter: "takeWhile P s \<noteq> [] \<Longrightarrow> length (dropWhile P s) < length s"
  by (metis length_append length_greater_0_conv less_add_same_cancel2 takeWhile_dropWhile_id)

lemma parse_part_shorter: "parse_part orig s = Inr (v, r) \<Longrightarrow> length r < length s"
  by (auto simp: parse_part_def Let_def split: if_splits option.splits prod.splits
      dest!: leadingInt_length leadingFraction_length dropWhile_shorter)

function parse_parts :: "string \<Rightarrow> int \<Rightarrow> string \<Rightarrow> error + int" where
  "parse_parts orig d s =
     (if s = [] then Inr d
      else case parse_part orig s of
        Inl e \<Rightarrow> Inl e
      | Inr (v, r) \<Rightarrow>
          let d' = (d + v) mod 2 ^ 64
          in if d' > 2 ^ 63 then Inl (invalid_duration orig) else parse_parts orig d' r)"
  by pat_completeness auto

termination
  by (relation "measure (\<lambda>(orig, d, s). length s)") (auto dest: parse_part_shorter)

declare parse_parts.simps [simp del]

definition ParseDuration :: "string \<Rightarrow> error + duration" where
  "ParseDuration orig =
     (let neg = (orig \<noteq> [] \<and> hd orig = CHR ''-'');
          s = (if orig \<noteq> [] \<and> (hd orig = CHR ''-'' \<or> hd orig = CHR ''+'') then tl orig else orig)
      in if s = ''0'' then Inr 0
         else if s = [] then Inl (invalid_duration orig)
         else case parse_parts orig 0 s of
           Inl e \<Rightarrow> Inl e
         | Inr d \<Rightarrow> if neg then Inr (- d)
                    else if d > 2 ^ 63 - 1 then Inl (invalid_duration orig)
                    else Inr d)"

section \<open>Bounds\<close>

lemma parse_parts_bound:
  "parse_parts orig d s = Inr r \<Longrightarrow> 0 \<le> d \<and> d \<le> 2 ^ 63 \<Longrightarrow> 0 \<le> r \<and> r \<le> 2 ^ 63"
proof (induction orig d s rule: parse_parts.induct)
  case (1 orig d s)
  from "1.prems" "1.IH" show ?case
    by (auto simp: parse_parts.simps[of orig d s] Let_def split: if_splits sum.splits prod.splits)
qed

lemma ParseDuration_int64:
  assumes "ParseDuration s = Inr d"
  shows "int64_min \<le> d \<and> d \<le> int64_max"
  using assms parse_parts_bound[of s 0]
  by (fastforce simp: ParseDuration_def int64_min_def int64_max_def Let_def split: if_splits sum.splits)

lemma ParseDuration_empty [simp]: "ParseDuration [] = Inl (invalid_duration [])"
  by (simp add: ParseDuration_def)

end
