(* ===== verification/Domain.thy ===== *)
theory Domain
  imports GoDuration
begin

text \<open>
  \<open>pkg/ratchet/domain\<close>: the value objects and their validation, rules, tokens, sessions,
  observability events and the observability configuration.

  A session's \<open>Tokens\<close> field is a Go map, that is a reference: two \<open>Session\<close> structs can
  share it, and a write through one is seen through the other. The heap of token maps is
  explicit here (\<open>heap\<close>), a \<open>session\<close> holds a reference into it. The other fields are values
  of the struct: \<open>RecordToolCall\<close> changes the struct it is called on and no other.
\<close>

section \<open>Value objects (value\_objects.go)\<close>

definition MinTokenLength :: nat where
  "MinTokenLength = 32"

definition ToolName_Validate :: "ToolName \<Rightarrow> error option" where
  "ToolName_Validate t = (if t = '''' then Some (NewError ''tool name cannot be empty'') else None)"

definition TokenValue_Validate :: "TokenValue \<Rightarrow> error option" where
  "TokenValue_Validate t =
     (if length t < MinTokenLength then Some (NewError ''token must be at least 32 characters'') else None)"

definition SessionID_Validate :: "SessionID \<Rightarrow> error option" where
  "SessionID_Validate s = (if s = '''' then Some (NewError ''session ID cannot be empty'') else None)"

section \<open>Rules (rule.go)\<close>

record Rule =
  Tool :: ToolName
  Prerequisite :: ToolName
  Expiry :: duration
  ErrorMessage :: string
  OneTimeUse :: bool

definition Rule_Validate :: "Rule \<Rightarrow> error option" where
  "Rule_Validate r =
     (case ToolName_Validate (Tool r) of
        Some err \<Rightarrow> Some (WrapError ''tool validation failed'' err)
      | None \<Rightarrow>
          (case (if Prerequisite r \<noteq> '''' then ToolName_Validate (Prerequisite r) else None) of
             Some err \<Rightarrow> Some (WrapError ''prerequisite validation failed'' err)
           | None \<Rightarrow>
               if Tool r = Prerequisite r then Some (NewError ''tool cannot depend on itself'')
               else None))"

lemma Rule_Validate_None_iff:
  "Rule_Validate r = None \<longleftrightarrow> Tool r \<noteq> '''' \<and> Tool r \<noteq> Prerequisite r"
  by (auto simp: Rule_Validate_def ToolName_Validate_def)

section \<open>Tokens (token.go)\<close>

record RatchetToken =
  Value :: TokenValue
  TokenSession :: SessionID
  TokenTool :: ToolName
  ExpiresAt :: time

text \<open>\<open>IsValid\<close> with the reading \<open>now\<close> of \<open>time.Now()\<close>.\<close>

definition RatchetToken_IsValid :: "time \<Rightarrow> RatchetToken \<Rightarrow> error option" where
  "RatchetToken_IsValid now t =
     (if time_After now (ExpiresAt t) then Some (NewError ''token has expired'') else None)"

section \<open>Sessions (session.go)\<close>

type_synonym token_map = "ToolName \<rightharpoonup> TokenValue list"

record heap =
  maps :: "nat \<Rightarrow> token_map"
  next_map :: nat

definition empty_heap :: heap where
  "empty_heap = \<lparr>maps = (\<lambda>_. Map.empty), next_map = 0\<rparr>"

definition alloc_map :: "heap \<Rightarrow> nat \<times> heap" where
  "alloc_map h =
     (next_map h, h\<lparr>maps := (maps h)(next_map h := Map.empty), next_map := Suc (next_map h)\<rparr>)"

record session =
  ID :: SessionID
  Tokens :: nat
  ToolHistory :: "ToolName list"
  CreatedAt :: time

definition NewSessionWithTime :: "SessionID \<Rightarrow> time \<Rightarrow> heap \<Rightarrow> session \<times> heap" where
  "NewSessionWithTime sid createdAt h =
     (let (m, h') = alloc_map h
      in (\<lparr>ID = sid, Tokens = m, ToolHistory = [], CreatedAt = createdAt\<rparr>, h'))"

text \<open>\<open>NewSession\<close> with the reading \<open>now\<close> of \<open>time.Now()\<close>.\<close>

definition NewSession :: "SessionID \<Rightarrow> time \<Rightarrow> heap \<Rightarrow> session \<times> heap" where
  "NewSession sid now h = NewSessionWithTime sid now h"

definition RecordToolCall :: "session \<Rightarrow> ToolName \<Rightarrow> session" where
  "RecordToolCall s tool = s\<lparr>ToolHistory := ToolHistory s @ [tool]\<rparr>"

text \<open>The content of the session's map, and a write of one of its keys.\<close>

definition session_tokens :: "heap \<Rightarrow> session \<Rightarrow> ToolName \<Rightarrow> TokenValue list" where
  "session_tokens h s tool = get_list (maps h (Tokens s)) tool"

definition set_tokens :: "session \<Rightarrow> ToolName \<Rightarrow> TokenValue list \<Rightarrow> heap \<Rightarrow> heap" where
  "set_tokens s tool ts h =
     h\<lparr>maps := (maps h)(Tokens s := (maps h (Tokens s))(tool \<mapsto> ts))\<rparr>"

definition AddToken :: "session \<Rightarrow> ToolName \<Rightarrow> TokenValue \<Rightarrow> heap \<Rightarrow> heap" where
  "AddToken s tool token h = set_tokens s tool (session_tokens h s tool @ [token]) h"

definition RemoveToken :: "session \<Rightarrow> ToolName \<Rightarrow> TokenValue \<Rightarrow> heap \<Rightarrow> heap" where
  "RemoveToken s tool token h =
     (let tokens = session_tokens h s tool
      in case find_from (\<lambda>t. t = token) 0 tokens of
           Some i \<Rightarrow> set_tokens s tool (cut_at i tokens) h
         | None \<Rightarrow> h)"

definition HasValidToken :: "heap \<Rightarrow> session \<Rightarrow> ToolName \<Rightarrow> TokenValue \<Rightarrow> bool" where
  "HasValidToken h s tool token \<longleftrightarrow> List.member (session_tokens h s tool) token"

definition HasToolBeenCalled :: "session \<Rightarrow> ToolName \<Rightarrow> bool" where
  "HasToolBeenCalled s tool \<longleftrightarrow> List.member (ToolHistory s) tool"

section \<open>Events (event.go, config.go)\<close>

definition EventTypeSessionCreated :: EventType where
  "EventTypeSessionCreated = ''session_created''"
definition EventTypeTokenCreated :: EventType where
  "EventTypeTokenCreated = ''token_created''"
definition EventTypeTokenConsumed :: EventType where
  "EventTypeTokenConsumed = ''token_consumed''"
definition EventTypeToolCallAttempt :: EventType where
  "EventTypeToolCallAttempt = ''tool_call_attempt''"
definition EventTypeToolCallSuccess :: EventType where
  "EventTypeToolCallSuccess = ''tool_call_success''"
definition EventTypeToolCallFailure :: EventType where
  "EventTypeToolCallFailure = ''tool_call_failure''"

lemmas event_types =
  EventTypeSessionCreated_def EventTypeTokenCreated_def EventTypeTokenConsumed_def
  EventTypeToolCallAttempt_def EventTypeToolCallSuccess_def EventTypeToolCallFailure_def

text \<open>
  The values the program puts into \<open>Metadata map[string]any\<close>: a text, or an instant that the
  code formats with \<open>time.RFC3339\<close> (kept unformatted). A nil map reads like the empty one.
\<close>

datatype meta_value = MetaText string | MetaRFC3339 time

record Event =
  EvID :: EventID
  EvType :: EventType
  EvSession :: SessionID
  EvTool :: ToolName
  EvToken :: TokenValue
  Timestamp :: time
  Metadata :: "string \<rightharpoonup> meta_value"

record EventStats =
  TotalEvents :: nat
  EventsByType :: "EventType \<rightharpoonup> nat"
  EventsByTool :: "ToolName \<rightharpoonup> nat"
  ActiveSessions :: nat
  TokensIssued :: nat
  TokensConsumed :: nat

record ObservabilityConfig =
  Enabled :: bool
  StorageType :: string
  RetentionDays :: int

section \<open>Sessions and their shared maps\<close>

lemma session_tokens_cong: "Tokens s = Tokens s' \<Longrightarrow> session_tokens h s = session_tokens h s'"
  by (simp add: session_tokens_def fun_eq_iff)

lemma session_tokens_set [simp]:
  "session_tokens (set_tokens s tool ts h) s' tool' =
     (if Tokens s' = Tokens s \<and> tool' = tool then ts else session_tokens h s' tool')"
  by (simp add: session_tokens_def set_tokens_def)

lemma session_tokens_AddToken [simp]:
  "session_tokens (AddToken s tool token h) s' tool' =
     (if Tokens s' = Tokens s \<and> tool' = tool then session_tokens h s tool @ [token]
      else session_tokens h s' tool')"
  by (simp add: AddToken_def)

lemma session_tokens_RemoveToken [simp]:
  "session_tokens (RemoveToken s tool token h) s' tool' =
     (if Tokens s' = Tokens s \<and> tool' = tool then remove1 token (session_tokens h s tool)
      else session_tokens h s' tool')"
proof (cases "find_from (\<lambda>t. t = token) 0 (session_tokens h s tool)")
  case None
  then have "token \<notin> set (session_tokens h s tool)" by (auto simp: find_from_None_iff)
  moreover from None have "RemoveToken s tool token h = h" by (simp add: RemoveToken_def Let_def)
  ultimately show ?thesis
    by (cases "Tokens s' = Tokens s") (simp_all add: remove1_idem session_tokens_cong[of s' s])
next
  case (Some i)
  then have "cut_at i (session_tokens h s tool) = remove1 token (session_tokens h s tool)"
    by (simp add: find_from_cut remove_first_eq_remove1)
  with Some show ?thesis by (simp add: RemoveToken_def Let_def)
qed

lemma RecordToolCall_fields [simp]:
  "ID (RecordToolCall s t) = ID s"
  "Tokens (RecordToolCall s t) = Tokens s"
  "ToolHistory (RecordToolCall s t) = ToolHistory s @ [t]"
  "CreatedAt (RecordToolCall s t) = CreatedAt s"
  by (simp_all add: RecordToolCall_def)

lemma next_map_set_tokens [simp]: "next_map (set_tokens s tool ts h) = next_map h"
  by (simp add: set_tokens_def)

lemma next_map_AddToken [simp]: "next_map (AddToken s tool token h) = next_map h"
  by (simp add: AddToken_def)

lemma NewSession_eq:
  "NewSession sid now h =
     (\<lparr>ID = sid, Tokens = next_map h, ToolHistory = [], CreatedAt = now\<rparr>, snd (alloc_map h))"
  by (simp add: NewSession_def NewSessionWithTime_def alloc_map_def Let_def)

lemma alloc_map_frame [simp]:
  "m < next_map h \<Longrightarrow> maps (snd (alloc_map h)) m = maps h m"
  "maps (snd (alloc_map h)) (next_map h) = Map.empty"
  "next_map (snd (alloc_map h)) = Suc (next_map h)"
  by (simp_all add: alloc_map_def)

lemma member_HasToolBeenCalled [simp]: "HasToolBeenCalled s t \<longleftrightarrow> t \<in> set (ToolHistory s)"
  by (simp add: HasToolBeenCalled_def)

lemma member_HasValidToken [simp]: "HasValidToken h s t tok \<longleftrightarrow> tok \<in> set (session_tokens h s t)"
  by (simp add: HasValidToken_def)

end
