(* ===== verification/Ports.thy ===== *)
theory Ports
  imports Domain
begin

text \<open>
  The secondary ports of \<open>pkg/ratchet/ports/secondary\<close>, the interfaces the service is written
  against. An interface value is a record of its methods over the private state of the
  implementation; a method that writes returns the new state. \<open>time.Now()\<close> inside a method is
  an argument of it.

  Each port that promises something has a locale with the laws its clients use: what the token
  store holds after each operation, what the session store returns after each operation, what
  the event store keeps. The adapters interpret the locales, the service's lemmas use them.
\<close>

section \<open>Interfaces\<close>

record 'ts TokenStore =
  ts_Store :: "SessionID \<Rightarrow> ToolName \<Rightarrow> TokenValue \<Rightarrow> time \<Rightarrow> 'ts \<Rightarrow> error option \<times> 'ts"
  ts_GetValidTokens :: "time \<Rightarrow> SessionID \<Rightarrow> ToolName \<Rightarrow> 'ts \<Rightarrow> error + TokenValue list"
  ts_RemoveToken :: "SessionID \<Rightarrow> ToolName \<Rightarrow> TokenValue \<Rightarrow> 'ts \<Rightarrow> error option \<times> 'ts"

record 'ss SessionStore =
  ss_Create :: "session \<Rightarrow> 'ss \<Rightarrow> error option \<times> 'ss"
  ss_Get :: "SessionID \<Rightarrow> 'ss \<Rightarrow> error + session"
  ss_Update :: "session \<Rightarrow> 'ss \<Rightarrow> error option \<times> 'ss"
  ss_Delete :: "SessionID \<Rightarrow> 'ss \<Rightarrow> error option \<times> 'ss"

record 'rg RandomGenerator =
  rg_GenerateToken :: "'rg \<Rightarrow> (error + TokenValue) \<times> 'rg"
  rg_GenerateSessionID :: "'rg \<Rightarrow> (error + SessionID) \<times> 'rg"

text \<open>\<open>Now\<close> as a function of the instant at which it is called.\<close>

record Clock =
  ck_Now :: "time \<Rightarrow> time"

text \<open>\<open>Limit\<close> is a Go \<open>int\<close>: the demo server adds to it without a check.\<close>

record EventFilter =
  EventTypes :: "EventType list"
  ToolNames :: "ToolName list"
  StartTime :: time
  EndTime :: time
  Limit :: "64 word"

record 'es EventStore =
  es_Store :: "Event \<Rightarrow> 'es \<Rightarrow> error option \<times> 'es"
  es_GetEvents :: "SessionID \<Rightarrow> EventFilter option \<Rightarrow> 'es \<Rightarrow> error + Event list"
  es_GetStats :: "'es \<Rightarrow> error + EventStats"

record RatchetConfig =
  Rules :: "Rule list"
  Observability :: ObservabilityConfig

text \<open>An \<open>io.Reader\<close> is the bytes it yields.\<close>

record ConfigLoader =
  cl_Load :: "string \<Rightarrow> error + Rule list"
  cl_LoadConfig :: "string \<Rightarrow> error + RatchetConfig"
  cl_Validate :: "Rule list \<Rightarrow> error option"

section \<open>What the ports promise\<close>

subsection \<open>Token store\<close>

text \<open>
  The state is read as the list of \<open>(token, expiry)\<close> entries of each session and tool, in the
  order they were stored. \<open>live\<close> are the entries that count as valid at an instant.
\<close>

definition live :: "time \<Rightarrow> (TokenValue \<times> time) list \<Rightarrow> TokenValue list" where
  "live now es = map fst (filter (\<lambda>e. time_Before now (snd e)) es)"

lemma live_append [simp]: "live now (es @ fs) = live now es @ live now fs"
  by (simp add: live_def)

lemma live_Nil [simp]: "live now [] = []"
  by (simp add: live_def)

lemma live_Cons [simp]:
  "live now (e # es) = (if now < snd e then fst e # live now es else live now es)"
  by (simp add: live_def)

lemma live_later: "now \<le> later \<Longrightarrow> set (live later es) \<subseteq> set (live now es)"
  by (auto simp: live_def)

lemma length_live_later: "now \<le> later \<Longrightarrow> length (live later es) \<le> length (live now es)"
  by (induction es) auto

lemma live_remove_length:
  assumes "distinct (map fst es)" and "tok \<in> set (live now es)"
  shows "length (live now (remove_first (\<lambda>e. fst e = tok) es)) = length (live now es) - 1"
  using assms
proof (induction es)
  case Nil
  then show ?case by simp
next
  case (Cons e es)
  show ?case
  proof (cases "fst e = tok")
    case True
    with Cons.prems(1) have "tok \<notin> set (live now es)" by (auto simp: live_def)
    with True Cons.prems(2) show ?thesis by (auto split: if_splits)
  next
    case False
    with Cons have "length (live now (remove_first (\<lambda>e. fst e = tok) es)) = length (live now es) - 1"
      and "live now es \<noteq> []" by (auto split: if_splits)
    with False show ?thesis by (cases "live now es") auto
  qed
qed

locale token_store =
  fixes TS :: "'ts TokenStore"
    and entries :: "'ts \<Rightarrow> SessionID \<Rightarrow> ToolName \<Rightarrow> (TokenValue \<times> time) list"
  assumes store_ok: "fst (ts_Store TS sid tool tok ex st) = None"
    and store_entries:
      "entries (snd (ts_Store TS sid tool tok ex st)) sid' tool' =
         (if sid' = sid \<and> tool' = tool then entries st sid tool @ [(tok, ex)] else entries st sid' tool')"
    and valid_tokens: "ts_GetValidTokens TS now sid tool st = Inr (live now (entries st sid tool))"
    and remove_result:
      "fst (ts_RemoveToken TS sid tool tok st) =
         (if tok \<in> fst ` set (entries st sid tool) then None else Some ErrTokenNotFound)"
    and remove_entries:
      "entries (snd (ts_RemoveToken TS sid tool tok st)) sid' tool' =
         (if sid' = sid \<and> tool' = tool then remove_first (\<lambda>e. fst e = tok) (entries st sid tool)
          else entries st sid' tool')"
begin

text \<open>A token is valid right after it is stored and until it expires.\<close>

lemma stored_is_valid:
  "now < ex \<Longrightarrow>
   ts_GetValidTokens TS now sid tool (snd (ts_Store TS sid tool tok ex st)) =
     Inr (live now (entries st sid tool) @ [tok])"
  by (simp add: valid_tokens store_entries)

lemma stored_expired:
  "ex \<le> now \<Longrightarrow>
   ts_GetValidTokens TS now sid tool (snd (ts_Store TS sid tool tok ex st)) =
     ts_GetValidTokens TS now sid tool st"
  by (simp add: valid_tokens store_entries)

text \<open>The last valid token can always be removed.\<close>

lemma remove_last_valid:
  assumes "ts_GetValidTokens TS now sid tool st = Inr toks" and "toks \<noteq> []"
  shows "fst (ts_RemoveToken TS sid tool (last toks) st) = None"
proof -
  from assms have "last toks \<in> set (live now (entries st sid tool))"
    by (simp add: valid_tokens)
  then have "last toks \<in> fst ` set (entries st sid tool)" by (auto simp: live_def)
  then show ?thesis by (simp add: remove_result)
qed

text \<open>With distinct tokens, removing a valid token leaves one valid token less.\<close>

lemma remove_valid_count:
  assumes "distinct (map fst (entries st sid tool))" and "tok \<in> set (live now (entries st sid tool))"
  shows "length (live now (entries (snd (ts_RemoveToken TS sid tool tok st)) sid tool)) =
           length (live now (entries st sid tool)) - 1"
  using assms by (simp add: remove_entries live_remove_length)

end

subsection \<open>Session store\<close>

text \<open>
  The state is read as a map from session IDs to \<open>Session\<close> structs. The structs refer to token
  maps in the heap, which no operation of the store reads or writes.
\<close>

locale session_store =
  fixes SS :: "'ss SessionStore"
    and sess :: "'ss \<Rightarrow> SessionID \<Rightarrow> session option"
  assumes get_sess:
      "ss_Get SS sid st = (case sess st sid of None \<Rightarrow> Inl ErrSessionNotFound | Some s \<Rightarrow> Inr s)"
    and create_result:
      "fst (ss_Create SS s st) = (if sess st (ID s) = None then None else Some ErrSessionAlreadyExists)"
    and create_sess:
      "sess (snd (ss_Create SS s st)) =
         (if sess st (ID s) = None then (sess st)(ID s \<mapsto> s) else sess st)"
    and update_ok: "fst (ss_Update SS s st) = None"
    and update_sess: "sess (snd (ss_Update SS s st)) = (sess st)(ID s \<mapsto> s)"
    and delete_result:
      "fst (ss_Delete SS sid st) = (if sess st sid = None then Some ErrSessionNotFound else None)"
    and delete_sess: "sess (snd (ss_Delete SS sid st)) = (sess st)(sid := None)"
begin

lemma get_after_update [simp]: "ss_Get SS (ID s) (snd (ss_Update SS s st)) = Inr s"
  by (simp add: get_sess update_sess)

lemma get_after_update_other [simp]:
  "sid \<noteq> ID s \<Longrightarrow> ss_Get SS sid (snd (ss_Update SS s st)) = ss_Get SS sid st"
  by (simp add: get_sess update_sess)

lemma get_after_create:
  "fst (ss_Create SS s st) = None \<Longrightarrow> ss_Get SS (ID s) (snd (ss_Create SS s st)) = Inr s"
  by (simp add: create_result create_sess get_sess split: if_splits)

lemma get_after_delete: "ss_Get SS sid (snd (ss_Delete SS sid st)) = Inl ErrSessionNotFound"
  by (simp add: get_sess delete_sess)

lemma create_fails_iff_exists:
  "fst (ss_Create SS s st) = Some ErrSessionAlreadyExists \<longleftrightarrow> (\<exists>s'. ss_Get SS (ID s) st = Inr s')"
  by (auto simp: create_result get_sess split: option.splits)

end

subsection \<open>Event store\<close>

text \<open>
  The reference for queries: which events a filter admits, the first \<open>Limit\<close> of them when
  \<open>Limit\<close> is positive.
\<close>

definition admits :: "EventFilter option \<Rightarrow> Event \<Rightarrow> bool" where
  "admits f e =
     (case f of None \<Rightarrow> True | Some f \<Rightarrow>
        (EventTypes f = [] \<or> EvType e \<in> set (EventTypes f)) \<and>
        (ToolNames f = [] \<or> EvTool e \<in> set (ToolNames f)) \<and>
        (StartTime f = 0 \<or> StartTime f \<le> Timestamp e) \<and>
        (EndTime f = 0 \<or> Timestamp e \<le> EndTime f))"

definition cap :: "EventFilter option \<Rightarrow> 'a list \<Rightarrow> 'a list" where
  "cap f xs = (case f of None \<Rightarrow> xs
     | Some f \<Rightarrow> if 0 < sint (Limit f) then take (nat (sint (Limit f))) xs else xs)"

definition select_events :: "SessionID \<Rightarrow> EventFilter option \<Rightarrow> Event list \<Rightarrow> Event list" where
  "select_events sid f es = cap f (filter (\<lambda>e. EvSession e = sid \<and> admits f e) es)"

definition count_events :: "(Event \<Rightarrow> bool) \<Rightarrow> Event list \<Rightarrow> nat" where
  "count_events P es = length (filter P es)"

text \<open>A map of counters: a key that was never counted is absent.\<close>

definition counter :: "('k \<Rightarrow> nat) \<Rightarrow> ('k \<rightharpoonup> nat)" where
  "counter c = (\<lambda>k. if c k = 0 then None else Some (c k))"

lemma bump_counter: "bump k (counter c) = counter (\<lambda>x. c x + (if x = k then 1 else 0))"
  by (auto simp: bump_def counter_def fun_eq_iff)

lemma counter_zero [simp]: "counter (\<lambda>_. 0) = Map.empty"
  by (simp add: counter_def)

definition stats_of :: "Event list \<Rightarrow> EventStats" where
  "stats_of es =
     \<lparr>TotalEvents = length es,
      EventsByType = counter (\<lambda>ty. count_events (\<lambda>e. EvType e = ty) es),
      EventsByTool = counter (\<lambda>tl. count_events (\<lambda>e. EvTool e \<noteq> '''' \<and> EvTool e = tl) es),
      ActiveSessions = card (EvSession ` set es),
      TokensIssued = count_events (\<lambda>e. EvType e = EventTypeTokenCreated) es,
      TokensConsumed = count_events (\<lambda>e. EvType e = EventTypeTokenConsumed) es\<rparr>"

locale event_store =
  fixes ES :: "'es EventStore"
    and evs :: "'es \<Rightarrow> Event list"
  assumes event_store_ok: "fst (es_Store ES e st) = None"
    and event_store_appends: "evs (snd (es_Store ES e st)) = evs st @ [e]"
    and event_query: "es_GetEvents ES sid f st = Inr (select_events sid f (evs st))"
    and event_stats: "es_GetStats ES st = Inr (stats_of (evs st))"
begin

text \<open>A stored event is the last one of its session, and other sessions do not see it.\<close>

lemma query_after_store:
  "es_GetEvents ES sid None (snd (es_Store ES e st)) =
     Inr (select_events sid None (evs st) @ (if EvSession e = sid then [e] else []))"
  by (simp add: event_query event_store_appends select_events_def cap_def admits_def)

lemma stats_after_store:
  "es_GetStats ES (snd (es_Store ES e st)) = Inr (stats_of (evs st @ [e]))"
  by (simp add: event_stats event_store_appends)

end

subsection \<open>Random generator and configuration loader\<close>

locale random_generator =
  fixes RG :: "'rg RandomGenerator"
  assumes token_valid: "fst (rg_GenerateToken RG st) = Inr tok \<Longrightarrow> TokenValue_Validate tok = None"
    and session_id_valid: "fst (rg_GenerateSessionID RG st) = Inr sid \<Longrightarrow> SessionID_Validate sid = None"

definition dependencies :: "Rule list \<Rightarrow> (ToolName \<times> ToolName) set" where
  "dependencies rules = (\<lambda>r. (Tool r, Prerequisite r)) ` set rules"

locale config_loader =
  fixes CL :: ConfigLoader
  assumes load_valid: "cl_Load CL src = Inr rs \<Longrightarrow> r \<in> set rs \<Longrightarrow> Rule_Validate r = None"
    and loadconfig_rules: "map_sum id Rules (cl_LoadConfig CL src) = cl_Load CL src"
    and validate_acyclic:
      "cl_Validate CL rs = (if acyclic (dependencies rs) then None else Some ErrCircularDependency)"

end
