(* ===== verification/RatchetService.thy ===== *)
theory RatchetService
  imports Ports
begin

text \<open>
  \<open>services/ratchet\_service.go\<close>: the service over its ports. The service is a record of the
  interfaces it was built with and its rules; what the interfaces reach is in a \<open>world\<close>: the
  heap of token maps, the private states of the stores and of the random generator, the
  readings the system clock gives one after the other and the UUIDs the \<open>uuid\<close> package gives
  (a parameter: it is not part of the repository). Log output is not modelled.

  The lemmas about arbitrary ports come first (no panic, frames, independence of the event
  store); the locale \<open>ratchet_service\<close> then says what the operations do for stores that keep
  their contracts.
\<close>

section \<open>Service and world\<close>

datatype 'a go_result = Return 'a | Panic

record ('ts, 'ss, 'rg, 'es) world =
  w_heap :: heap
  w_wall :: "nat \<Rightarrow> time"
  w_reads :: nat
  w_uuid :: "nat \<Rightarrow> string"
  w_uuids :: nat
  w_ts :: 'ts
  w_ss :: 'ss
  w_rg :: 'rg
  w_es :: 'es

record ('ts, 'ss, 'rg, 'es) RatchetServiceImpl =
  configLoader :: ConfigLoader
  tokenStore :: "'ts TokenStore"
  sessionStore :: "'ss SessionStore"
  randomGen :: "'rg RandomGenerator"
  clock :: Clock
  rules :: "Rule list"
  eventStore :: "'es EventStore option"

definition NewRatchetServiceWithObservability ::
  "ConfigLoader \<Rightarrow> 'ts TokenStore \<Rightarrow> 'ss SessionStore \<Rightarrow> 'rg RandomGenerator \<Rightarrow> Clock \<Rightarrow>
   'es EventStore option \<Rightarrow> ('ts, 'ss, 'rg, 'es) RatchetServiceImpl" where
  "NewRatchetServiceWithObservability cl ts ss rg ck es =
     \<lparr>configLoader = cl, tokenStore = ts, sessionStore = ss, randomGen = rg, clock = ck,
      rules = [], eventStore = es\<rparr>"

definition NewRatchetService ::
  "ConfigLoader \<Rightarrow> 'ts TokenStore \<Rightarrow> 'ss SessionStore \<Rightarrow> 'rg RandomGenerator \<Rightarrow> Clock \<Rightarrow>
   ('ts, 'ss, 'rg, 'es) RatchetServiceImpl" where
  "NewRatchetService cl ts ss rg ck =
     \<lparr>configLoader = cl, tokenStore = ts, sessionStore = ss, randomGen = rg, clock = ck,
      rules = [], eventStore = None\<rparr>"

text \<open>\<open>time.Now()\<close>, \<open>s.clock.Now()\<close> and \<open>uuid.New()\<close>.\<close>

definition time_Now :: "('ts, 'ss, 'rg, 'es) world \<Rightarrow> time \<times> ('ts, 'ss, 'rg, 'es) world" where
  "time_Now w = (w_wall w (w_reads w), w\<lparr>w_reads := Suc (w_reads w)\<rparr>)"

definition clock_Now ::
  "('ts, 'ss, 'rg, 'es) RatchetServiceImpl \<Rightarrow> ('ts, 'ss, 'rg, 'es) world \<Rightarrow>
   time \<times> ('ts, 'ss, 'rg, 'es) world" where
  "clock_Now svc w = (let (t, w') = time_Now w in (ck_Now (clock svc) t, w'))"

definition uuid_New :: "('ts, 'ss, 'rg, 'es) world \<Rightarrow> string \<times> ('ts, 'ss, 'rg, 'es) world" where
  "uuid_New w = (w_uuid w (w_uuids w), w\<lparr>w_uuids := Suc (w_uuids w)\<rparr>)"

section \<open>Rules and events\<close>

fun findRules_loop :: "Rule list \<Rightarrow> ToolName \<Rightarrow> Rule list \<Rightarrow> Rule list" where
  "findRules_loop matched tool [] = matched"
| "findRules_loop matched tool (r # rs) =
     findRules_loop (if Tool r = tool then matched @ [r] else matched) tool rs"

definition findRules :: "('ts, 'ss, 'rg, 'es) RatchetServiceImpl \<Rightarrow> ToolName \<Rightarrow> Rule list" where
  "findRules svc tool = findRules_loop [] tool (rules svc)"

definition findRule :: "('ts, 'ss, 'rg, 'es) RatchetServiceImpl \<Rightarrow> ToolName \<Rightarrow> Rule option" where
  "findRule svc tool = find (\<lambda>r. Tool r = tool) (rules svc)"

definition emitEvent ::
  "('ts, 'ss, 'rg, 'es) RatchetServiceImpl \<Rightarrow> EventType \<Rightarrow> SessionID \<Rightarrow> ToolName \<Rightarrow> TokenValue \<Rightarrow>
   (string \<rightharpoonup> meta_value) \<Rightarrow> ('ts, 'ss, 'rg, 'es) world \<Rightarrow> ('ts, 'ss, 'rg, 'es) world" where
  "emitEvent svc eventType sid tool token metadata w =
     (case eventStore svc of
        None \<Rightarrow> w
      | Some es \<Rightarrow>
          let (uid, w1) = uuid_New w;
              (now, w2) = clock_Now svc w1;
              event = \<lparr>EvID = uid, EvType = eventType, EvSession = sid, EvTool = tool,
                       EvToken = token, Timestamp = now, Metadata = metadata\<rparr>;
              (err, es') = es_Store es event (w_es w2)
          in w2\<lparr>w_es := es'\<rparr>)"

definition RegisterRule ::
  "Rule \<Rightarrow> ('ts, 'ss, 'rg, 'es) RatchetServiceImpl \<Rightarrow>
   error option \<times> ('ts, 'ss, 'rg, 'es) RatchetServiceImpl" where
  "RegisterRule rule svc =
     (case Rule_Validate rule of
        Some err \<Rightarrow> (Some (WrapError ''rule validation failed'' err), svc)
      | None \<Rightarrow> (None, svc\<lparr>rules := rules svc @ [rule]\<rparr>))"

definition LoadConfiguration ::
  "string \<Rightarrow> ('ts, 'ss, 'rg, 'es) RatchetServiceImpl \<Rightarrow>
   (error + Rule list) \<times> ('ts, 'ss, 'rg, 'es) RatchetServiceImpl" where
  "LoadConfiguration source svc =
     (case cl_Load (configLoader svc) source of
        Inl err \<Rightarrow> (Inl (WrapError ''failed to load configuration'' err), svc)
      | Inr rs \<Rightarrow>
          (case cl_Validate (configLoader svc) rs of
             Some err \<Rightarrow> (Inl (WrapError ''rule validation failed'' err), svc)
           | None \<Rightarrow> (Inr rs, svc\<lparr>rules := rs\<rparr>)))"

definition GetRequiredPrerequisite ::
  "('ts, 'ss, 'rg, 'es) RatchetServiceImpl \<Rightarrow> ToolName \<Rightarrow> error + ToolName" where
  "GetRequiredPrerequisite svc tool =
     (case findRule svc tool of
        None \<Rightarrow> Inl (NewError (''no rule found for tool '' @ tool))
      | Some rule \<Rightarrow> Inr (Prerequisite rule))"

section \<open>Validating a tool call\<close>

definition unmet_error :: "Rule \<Rightarrow> error" where
  "unmet_error rule =
     (if ErrorMessage rule \<noteq> '''' then NewError (ErrorMessage rule)
      else NewError (''prerequisite tool '' @ Prerequisite rule @ '' must be called first''))"

definition no_token_error :: "Rule \<Rightarrow> error" where
  "no_token_error rule =
     (if ErrorMessage rule \<noteq> '''' then NewError (ErrorMessage rule) else ErrInvalidToken)"

text \<open>The loop over the rules of the tool; \<open>lastErr\<close> is nil (\<open>None\<close>) until a rule fails.\<close>

fun validate_loop ::
  "('ts, 'ss, 'rg, 'es) RatchetServiceImpl \<Rightarrow> SessionID \<Rightarrow> ToolName \<Rightarrow> TokenValue \<Rightarrow> session \<Rightarrow>
   Rule list \<Rightarrow> error option \<Rightarrow> ('ts, 'ss, 'rg, 'es) world \<Rightarrow>
   error option go_result \<times> ('ts, 'ss, 'rg, 'es) world" where
  "validate_loop svc sid tool token session [] lastErr w =
     (case lastErr of
        None \<Rightarrow> (Panic, w)
      | Some err \<Rightarrow> (Return (Some err),
          emitEvent svc EventTypeToolCallFailure sid tool token [''error'' \<mapsto> MetaText (Error err)] w))"
| "validate_loop svc sid tool token session (rule # rs) lastErr w =
     (if Prerequisite rule = '''' then
        (Return None, emitEvent svc EventTypeToolCallSuccess sid tool token Map.empty w)
      else if \<not> HasToolBeenCalled session (Prerequisite rule) then
        validate_loop svc sid tool token session rs (Some (unmet_error rule)) w
      else
        let (now, w1) = time_Now w
        in case ts_GetValidTokens (tokenStore svc) now sid (Prerequisite rule) (w_ts w1) of
             Inl err \<Rightarrow> validate_loop svc sid tool token session rs
                          (Some (WrapError ''failed to get valid tokens'' err)) w1
           | Inr validTokens \<Rightarrow>
               if validTokens = [] then
                 validate_loop svc sid tool token session rs (Some (no_token_error rule)) w1
               else (Return None, emitEvent svc EventTypeToolCallSuccess sid tool token Map.empty w1))"

definition ValidateToolCall ::
  "('ts, 'ss, 'rg, 'es) RatchetServiceImpl \<Rightarrow> SessionID \<Rightarrow> ToolName \<Rightarrow> TokenValue \<Rightarrow>
   ('ts, 'ss, 'rg, 'es) world \<Rightarrow> error option go_result \<times> ('ts, 'ss, 'rg, 'es) world" where
  "ValidateToolCall svc sid tool token w =
     (let w = emitEvent svc EventTypeToolCallAttempt sid tool token Map.empty w;
          rs = findRules svc tool
      in if rs = [] then (Return None, emitEvent svc EventTypeToolCallSuccess sid tool token Map.empty w)
         else if list_ex (\<lambda>rule. Prerequisite rule = '''') rs then
           (Return None, emitEvent svc EventTypeToolCallSuccess sid tool token Map.empty w)
         else if sid = '''' then
           let err = (if ErrorMessage (hd rs) \<noteq> '''' then NewError (ErrorMessage (hd rs))
                      else NewError (''tool '' @ tool @ '' requires a session''))
           in (Return (Some err),
               emitEvent svc EventTypeToolCallFailure sid tool token [''error'' \<mapsto> MetaText (Error err)] w)
         else case ss_Get (sessionStore svc) sid (w_ss w) of
           Inl err \<Rightarrow>
             (Return (Some (WrapError ''session not found'' err)),
              emitEvent svc EventTypeToolCallFailure sid tool token [''error'' \<mapsto> MetaText (Error err)] w)
         | Inr session \<Rightarrow> validate_loop svc sid tool token session rs None w)"

section \<open>Issuing and consuming tokens\<close>

text \<open>The expiry of the first rule of the tool when it is positive, else 5 minutes.\<close>

definition token_expiry :: "('ts, 'ss, 'rg, 'es) RatchetServiceImpl \<Rightarrow> ToolName \<Rightarrow> duration" where
  "token_expiry svc tool =
     (case findRule svc tool of
        Some rule \<Rightarrow> if Expiry rule > 0 then Expiry rule else 5 * Minute
      | None \<Rightarrow> 5 * Minute)"

definition IssueToken ::
  "('ts, 'ss, 'rg, 'es) RatchetServiceImpl \<Rightarrow> SessionID \<Rightarrow> ToolName \<Rightarrow> ('ts, 'ss, 'rg, 'es) world \<Rightarrow>
   (error + TokenValue) \<times> ('ts, 'ss, 'rg, 'es) world" where
  "IssueToken svc sid tool w =
     (let expiry = token_expiry svc tool
      in case rg_GenerateToken (randomGen svc) (w_rg w) of
        (Inl err, rg) \<Rightarrow> (Inl err, w\<lparr>w_rg := rg\<rparr>)
      | (Inr tokenValue, rg) \<Rightarrow>
          let w1 = w\<lparr>w_rg := rg\<rparr>;
              (now, w2) = clock_Now svc w1
          in case ts_Store (tokenStore svc) sid tool tokenValue (time_Add now expiry) (w_ts w2) of
            (Some err, ts) \<Rightarrow> (Inl (WrapError ''failed to store token'' err), w2\<lparr>w_ts := ts\<rparr>)
          | (None, ts) \<Rightarrow>
              let w3 = w2\<lparr>w_ts := ts\<rparr>
              in case ss_Get (sessionStore svc) sid (w_ss w3) of
                Inl err \<Rightarrow> (Inl (WrapError ''failed to get session'' err), w3)
              | Inr session \<Rightarrow>
                  let w4 = w3\<lparr>w_heap := AddToken session tool tokenValue (w_heap w3)\<rparr>
                  in case ss_Update (sessionStore svc) session (w_ss w4) of
                    (Some err, ss) \<Rightarrow> (Inl (WrapError ''failed to update session'' err), w4\<lparr>w_ss := ss\<rparr>)
                  | (None, ss) \<Rightarrow>
                      let w5 = w4\<lparr>w_ss := ss\<rparr>;
                          (now', w6) = clock_Now svc w5
                      in (Inr tokenValue,
                          emitEvent svc EventTypeTokenCreated sid tool tokenValue
                            [''expiry'' \<mapsto> MetaRFC3339 (time_Add now' expiry)] w6))"

text \<open>The second half of \<open>ConsumePrerequisiteToken\<close>: the session loses its last token.\<close>

definition drop_session_token ::
  "('ts, 'ss, 'rg, 'es) RatchetServiceImpl \<Rightarrow> SessionID \<Rightarrow> ToolName \<Rightarrow> ('ts, 'ss, 'rg, 'es) world \<Rightarrow>
   error option \<times> ('ts, 'ss, 'rg, 'es) world" where
  "drop_session_token svc sid prereq w =
     (case ss_Get (sessionStore svc) sid (w_ss w) of
        Inl err \<Rightarrow> (Some (WrapError ''failed to get session'' err), w)
      | Inr session \<Rightarrow>
          (case maps (w_heap w) (Tokens session) prereq of
             None \<Rightarrow> (None, w)
           | Some prereqTokens \<Rightarrow>
               if length prereqTokens > 0 then
                 let w1 = w\<lparr>w_heap := set_tokens session prereq (butlast prereqTokens) (w_heap w)\<rparr>
                 in case ss_Update (sessionStore svc) session (w_ss w1) of
                   (Some err, ss) \<Rightarrow>
                     (Some (WrapError ''failed to update session after token removal'' err), w1\<lparr>w_ss := ss\<rparr>)
                 | (None, ss) \<Rightarrow> (None, w1\<lparr>w_ss := ss\<rparr>)
               else (None, w)))"

definition ConsumePrerequisiteToken ::
  "('ts, 'ss, 'rg, 'es) RatchetServiceImpl \<Rightarrow> SessionID \<Rightarrow> ToolName \<Rightarrow> ('ts, 'ss, 'rg, 'es) world \<Rightarrow>
   error option \<times> ('ts, 'ss, 'rg, 'es) world" where
  "ConsumePrerequisiteToken svc sid tool w =
     (case findRule svc tool of
        None \<Rightarrow> (None, w)
      | Some rule \<Rightarrow>
          if Prerequisite rule = '''' \<or> \<not> OneTimeUse rule then (None, w)
          else
            let (now, w1) = time_Now w
            in case ts_GetValidTokens (tokenStore svc) now sid (Prerequisite rule) (w_ts w1) of
              Inl err \<Rightarrow> (Some (WrapError ''failed to get valid tokens'' err), w1)
            | Inr validTokens \<Rightarrow>
                if length validTokens = 0 then (None, w1)
                else
                  let lastToken = last validTokens
                  in case ts_RemoveToken (tokenStore svc) sid (Prerequisite rule) lastToken (w_ts w1) of
                    (Some err, ts) \<Rightarrow>
                      (Some (WrapError ''failed to remove token from store'' err), w1\<lparr>w_ts := ts\<rparr>)
                  | (None, ts) \<Rightarrow>
                      drop_session_token svc sid (Prerequisite rule)
                        (emitEvent svc EventTypeTokenConsumed sid (Prerequisite rule) lastToken
                           [''consumed_by'' \<mapsto> MetaText tool] (w1\<lparr>w_ts := ts\<rparr>)))"

section \<open>Sessions and queries\<close>

definition CreateSession ::
  "('ts, 'ss, 'rg, 'es) RatchetServiceImpl \<Rightarrow> SessionID \<Rightarrow> ('ts, 'ss, 'rg, 'es) world \<Rightarrow>
   (error + session) \<times> ('ts, 'ss, 'rg, 'es) world" where
  "CreateSession svc sid w =
     (case ss_Get (sessionStore svc) sid (w_ss w) of
        Inr existingSession \<Rightarrow> (Inr existingSession, w)
      | Inl _ \<Rightarrow>
          let (now, w1) = time_Now w;
              (session, h) = NewSession sid now (w_heap w1);
              w2 = w1\<lparr>w_heap := h\<rparr>
          in case ss_Create (sessionStore svc) session (w_ss w2) of
            (Some err, ss) \<Rightarrow> (Inl (WrapError ''failed to create session'' err), w2\<lparr>w_ss := ss\<rparr>)
          | (None, ss) \<Rightarrow>
              (Inr session,
               emitEvent svc EventTypeSessionCreated sid '''' '''' Map.empty (w2\<lparr>w_ss := ss\<rparr>)))"

text \<open>The stats pointer is nil (\<open>None\<close>) when observability is off.\<close>

definition GetObservabilityStats ::
  "('ts, 'ss, 'rg, 'es) RatchetServiceImpl \<Rightarrow> ('ts, 'ss, 'rg, 'es) world \<Rightarrow> error + EventStats option" where
  "GetObservabilityStats svc w =
     (case eventStore svc of
        None \<Rightarrow> Inr None
      | Some es \<Rightarrow> map_sum id Some (es_GetStats es (w_es w)))"

definition GetObservabilityEvents ::
  "('ts, 'ss, 'rg, 'es) RatchetServiceImpl \<Rightarrow> SessionID \<Rightarrow> EventFilter option \<Rightarrow>
   ('ts, 'ss, 'rg, 'es) world \<Rightarrow> error + Event list" where
  "GetObservabilityEvents svc sid flt w =
     (case eventStore svc of
        None \<Rightarrow> Inr []
      | Some es \<Rightarrow> es_GetEvents es sid flt (w_es w))"

end
