(* ===== verification/ServiceLaws.thy ===== *)
theory ServiceLaws
  imports RatchetService
begin

text \<open>
  What the service's operations do. For arbitrary ports: the frame of each operation, the
  absence of panics, and that the event store never influences a result or the state the
  decisions are made from. For ports that keep their contracts (locale \<open>ratchet_service\<close>): when
  a tool call is allowed and with which error it is refused, what issuing and consuming a token
  change.
\<close>

section \<open>Frames\<close>

lemma findRules_loop_filter: "findRules_loop acc tool rs = acc @ filter (\<lambda>r. Tool r = tool) rs"
  by (induction rs arbitrary: acc) auto

lemma findRules_filter: "findRules svc tool = filter (\<lambda>r. Tool r = tool) (rules svc)"
  by (simp add: findRules_def findRules_loop_filter)

lemma findRule_hd: "findRule svc tool = (case findRules svc tool of [] \<Rightarrow> None | r # _ \<Rightarrow> Some r)"
proof -
  have "find (\<lambda>r. Tool r = tool) rs = (case filter (\<lambda>r. Tool r = tool) rs of [] \<Rightarrow> None | r # _ \<Rightarrow> Some r)"
    for rs :: "Rule list" by (induction rs) auto
  then show ?thesis by (simp add: findRule_def findRules_filter)
qed

lemma findRule_Some: "findRule svc tool = Some r \<Longrightarrow> Tool r = tool \<and> r \<in> set (rules svc)"
  by (auto simp: findRule_def find_Some_iff)

lemma time_Now_sel [simp]:
  "fst (time_Now w) = w_wall w (w_reads w)" "snd (time_Now w) = w\<lparr>w_reads := Suc (w_reads w)\<rparr>"
  by (simp_all add: time_Now_def)

lemma clock_Now_sel [simp]:
  "fst (clock_Now svc w) = ck_Now (clock svc) (w_wall w (w_reads w))"
  "snd (clock_Now svc w) = w\<lparr>w_reads := Suc (w_reads w)\<rparr>"
  by (simp_all add: clock_Now_def time_Now_def)

lemma emitEvent_frame [simp, frame]:
  "w_heap (emitEvent svc ty sid tool tok md w) = w_heap w"
  "w_wall (emitEvent svc ty sid tool tok md w) = w_wall w"
  "w_uuid (emitEvent svc ty sid tool tok md w) = w_uuid w"
  "w_ts (emitEvent svc ty sid tool tok md w) = w_ts w"
  "w_ss (emitEvent svc ty sid tool tok md w) = w_ss w"
  "w_rg (emitEvent svc ty sid tool tok md w) = w_rg w"
  by (simp_all add: emitEvent_def uuid_New_def clock_Now_def time_Now_def Let_def
      split: option.splits prod.splits)

definition event_reads :: "('ts, 'ss, 'rg, 'es) RatchetServiceImpl \<Rightarrow> nat" where
  "event_reads svc = (if eventStore svc = None then 0 else 1)"

lemma emitEvent_reads [simp]: "w_reads (emitEvent svc ty sid tool tok md w) = w_reads w + event_reads svc"
  by (simp add: emitEvent_def uuid_New_def clock_Now_def time_Now_def Let_def event_reads_def
      split: option.splits prod.splits)

text \<open>The part of the world the program's decisions are made from.\<close>

definition core ::
  "('ts, 'ss, 'rg, 'es) world \<Rightarrow> heap \<times> (nat \<Rightarrow> time) \<times> 'ts \<times> 'ss \<times> 'rg" where
  "core w = (w_heap w, w_wall w, w_ts w, w_ss w, w_rg w)"

lemma core_eq_iff:
  "core w = core w' \<longleftrightarrow>
     w_heap w = w_heap w' \<and> w_wall w = w_wall w' \<and> w_ts w = w_ts w' \<and> w_ss w = w_ss w' \<and> w_rg w = w_rg w'"
  by (simp add: core_def)

lemma core_emitEvent [simp, frame]: "core (emitEvent svc ty sid tool tok md w) = core w"
  by (simp add: core_def)

lemma core_reads [simp, frame]: "core (w\<lparr>w_reads := n\<rparr>) = core w"
  by (simp add: core_def)

lemma validate_loop_core [frame]: "core (snd (validate_loop svc sid tool tok s rs le w)) = core w"
  by (induction rs arbitrary: le w)
    (auto simp: Let_def time_Now_def split: sum.splits option.splits)

lemma ValidateToolCall_core [frame]: "core (snd (ValidateToolCall svc sid tool tok w)) = core w"
  by (simp add: ValidateToolCall_def Let_def validate_loop_core split: sum.splits)

lemma validate_loop_reads_le: "w_reads w \<le> w_reads (snd (validate_loop svc sid tool tok s rs le w))"
proof (induction rs arbitrary: le w)
  case Nil
  then show ?case by (simp split: option.splits)
next
  case (Cons r rs)
  have "w_reads w \<le> w_reads (snd (validate_loop svc sid tool tok s rs le' (w\<lparr>w_reads := Suc (w_reads w)\<rparr>)))"
    for le' using Cons.IH[of "w\<lparr>w_reads := Suc (w_reads w)\<rparr>" le'] by simp
  with Cons.IH[of w] show ?case by (auto simp: Let_def time_Now_def split: sum.splits)
qed

lemma ValidateToolCall_reads_le: "w_reads w \<le> w_reads (snd (ValidateToolCall svc sid tool tok w))"
proof -
  let ?w = "emitEvent svc EventTypeToolCallAttempt sid tool tok Map.empty w"
  have "w_reads w \<le> w_reads (snd (validate_loop svc sid tool tok s rs le ?w))" for s rs le
    using validate_loop_reads_le[of ?w svc sid tool tok s rs le] by simp
  then show ?thesis by (auto simp: ValidateToolCall_def Let_def split: sum.splits)
qed

section \<open>No panic\<close>

lemma validate_loop_no_panic:
  "le \<noteq> None \<or> rs \<noteq> [] \<Longrightarrow> fst (validate_loop svc sid tool tok s rs le w) \<noteq> Panic"
  by (induction rs arbitrary: le w) (auto simp: Let_def time_Now_def split: sum.splits)

lemma ValidateToolCall_returns: "fst (ValidateToolCall svc sid tool tok w) \<noteq> Panic"
  by (auto simp: ValidateToolCall_def Let_def split: sum.splits intro!: validate_loop_no_panic)

section \<open>The event store never influences the service\<close>

definition same_ports ::
  "('ts, 'ss, 'rg, 'e1) RatchetServiceImpl \<Rightarrow> ('ts, 'ss, 'rg, 'e2) RatchetServiceImpl \<Rightarrow> bool" where
  "same_ports a b \<longleftrightarrow>
     configLoader a = configLoader b \<and> tokenStore a = tokenStore b \<and> sessionStore a = sessionStore b \<and>
     randomGen a = randomGen b \<and> clock a = clock b \<and> rules a = rules b"

text \<open>
  An operation is blind to events when, with a clock that stands still during the call, its
  result and the core state after it depend on the ports and the core state before it only.
\<close>

definition blind_to_events ::
  "(('ts, 'ss, 'rg, 'e1) world \<Rightarrow> 'r \<times> ('ts, 'ss, 'rg, 'e1) world) \<Rightarrow>
   (('ts, 'ss, 'rg, 'e2) world \<Rightarrow> 'r \<times> ('ts, 'ss, 'rg, 'e2) world) \<Rightarrow> bool" where
  "blind_to_events f g \<longleftrightarrow>
     (\<forall>w w' now. core w = core w' \<longrightarrow> w_wall w = (\<lambda>_. now) \<longrightarrow>
        fst (f w) = fst (g w') \<and> core (snd (f w)) = core (snd (g w')))"

lemma same_findRules:
  "same_ports a b \<Longrightarrow> findRules a tool = findRules b tool"
  "same_ports a b \<Longrightarrow> findRule a tool = findRule b tool"
  "same_ports a b \<Longrightarrow> token_expiry a tool = token_expiry b tool"
  by (simp_all add: same_ports_def findRules_def findRule_def token_expiry_def)

lemma blind_validate_loop:
  assumes "same_ports a b"
  shows "core w = core w' \<Longrightarrow> w_wall w = (\<lambda>_. now) \<Longrightarrow>
     fst (validate_loop a sid tool tok s rs le w) = fst (validate_loop b sid tool tok s rs le w')"
proof (induction rs arbitrary: le w w')
  case Nil
  then show ?case by (simp split: option.splits)
next
  case (Cons r rs)
  have "fst (validate_loop a sid tool tok s rs le' (w\<lparr>w_reads := Suc (w_reads w)\<rparr>)) =
        fst (validate_loop b sid tool tok s rs le' (w'\<lparr>w_reads := Suc (w_reads w')\<rparr>))" for le'
    by (rule Cons.IH) (use Cons.prems in \<open>simp_all add: core_eq_iff\<close>)
  moreover have "w_wall w' = (\<lambda>_. now)" "w_ts w' = w_ts w" "tokenStore b = tokenStore a"
    using Cons.prems assms by (simp_all add: core_eq_iff same_ports_def)
  ultimately show ?case
    using Cons.IH[of w w'] Cons.prems by (simp add: Let_def time_Now_def split: sum.splits)
qed

lemma blind_ValidateToolCall:
  assumes "same_ports a b"
  shows "blind_to_events (ValidateToolCall a sid tool tok) (ValidateToolCall b sid tool tok)"
  unfolding blind_to_events_def
proof (intro allI impI conjI)
  fix w :: "('a, 'b, 'c, 'd) world" and w' :: "('a, 'b, 'c, 'e) world" and now
  assume core: "core w = core w'" and frozen: "w_wall w = (\<lambda>_. now)"
  let ?a = "emitEvent a EventTypeToolCallAttempt sid tool tok Map.empty w"
  let ?b = "emitEvent b EventTypeToolCallAttempt sid tool tok Map.empty w'"
  have "core ?a = core ?b" "w_wall ?a = (\<lambda>_. now)" using core frozen by simp_all
  note loop = blind_validate_loop[OF assms this]
  have "w_ss w' = w_ss w" "sessionStore b = sessionStore a"
    using core assms by (simp_all add: core_eq_iff same_ports_def)
  with loop same_findRules(1)[OF assms] show
    "fst (ValidateToolCall a sid tool tok w) = fst (ValidateToolCall b sid tool tok w')"
    by (simp add: ValidateToolCall_def Let_def split: sum.splits)
  show "core (snd (ValidateToolCall a sid tool tok w)) = core (snd (ValidateToolCall b sid tool tok w'))"
    by (simp add: ValidateToolCall_core core)
qed

lemma blind_IssueToken:
  assumes "same_ports a b"
  shows "blind_to_events (IssueToken a sid tool) (IssueToken b sid tool)"
  using assms same_findRules(3)[OF assms]
  by (auto simp: blind_to_events_def core_eq_iff IssueToken_def Let_def same_ports_def
      clock_Now_def time_Now_def split: sum.splits option.splits prod.splits)

lemma blind_drop_session_token:
  assumes "same_ports a b" and "core w = core w'"
  shows "fst (drop_session_token a sid p w) = fst (drop_session_token b sid p w') \<and>
    core (snd (drop_session_token a sid p w)) = core (snd (drop_session_token b sid p w'))"
  using assms
  by (auto simp: core_eq_iff drop_session_token_def Let_def same_ports_def
      split: sum.splits option.splits prod.splits)

lemma blind_ConsumePrerequisiteToken:
  assumes "same_ports a b"
  shows "blind_to_events (ConsumePrerequisiteToken a sid tool) (ConsumePrerequisiteToken b sid tool)"
  unfolding blind_to_events_def
proof (intro allI impI)
  fix w :: "('a, 'b, 'c, 'd) world" and w' :: "('a, 'b, 'c, 'e) world" and now
  assume core: "core w = core w'" and frozen: "w_wall w = (\<lambda>_. now)"
  have ts: "w_ts w' = w_ts w" "tokenStore b = tokenStore a" and frozen': "w_wall w' = (\<lambda>_. now)"
    using core frozen assms by (simp_all add: core_eq_iff same_ports_def)
  have drop: "fst (drop_session_token a sid p (emitEvent a ty sid p tok md (w\<lparr>w_reads := i, w_ts := x\<rparr>))) =
      fst (drop_session_token b sid p (emitEvent b ty sid p tok md (w'\<lparr>w_reads := j, w_ts := x\<rparr>))) \<and>
    core (snd (drop_session_token a sid p (emitEvent a ty sid p tok md (w\<lparr>w_reads := i, w_ts := x\<rparr>)))) =
      core (snd (drop_session_token b sid p (emitEvent b ty sid p tok md (w'\<lparr>w_reads := j, w_ts := x\<rparr>))))"
    for p ty tok md i j x
    by (rule blind_drop_session_token[OF assms]) (use core in \<open>simp add: core_eq_iff\<close>)
  show "fst (ConsumePrerequisiteToken a sid tool w) = fst (ConsumePrerequisiteToken b sid tool w') \<and>
    core (snd (ConsumePrerequisiteToken a sid tool w)) = core (snd (ConsumePrerequisiteToken b sid tool w'))"
    using core ts frozen frozen' drop
    by (simp add: ConsumePrerequisiteToken_def Let_def same_findRules(2)[OF assms] time_Now_def
        core_eq_iff split: sum.splits option.splits prod.splits)
qed

lemma blind_CreateSession:
  assumes "same_ports a b"
  shows "blind_to_events (CreateSession a sid) (CreateSession b sid)"
  using assms
  by (auto simp: blind_to_events_def core_eq_iff CreateSession_def Let_def same_ports_def
      time_Now_def split: sum.splits option.splits prod.splits)

section \<open>Stores that keep their contracts\<close>

locale ratchet_service =
  ts: token_store "tokenStore svc" entries + ss: session_store "sessionStore svc" sess
  for svc :: "('ts, 'ss, 'rg, 'es) RatchetServiceImpl"
    and entries :: "'ts \<Rightarrow> SessionID \<Rightarrow> ToolName \<Rightarrow> (TokenValue \<times> time) list"
    and sess :: "'ss \<Rightarrow> SessionID \<Rightarrow> session option"

text \<open>
  The clock readings of the loop: the rules whose prerequisite has been called read the clock one
  after the other, after the reading (if any) of the event that announces the attempt.
\<close>

definition called_rules :: "session \<Rightarrow> Rule list \<Rightarrow> Rule list" where
  "called_rules s rs = filter (\<lambda>r. HasToolBeenCalled s (Prerequisite r)) rs"

definition some_live ::
  "(ToolName \<Rightarrow> (TokenValue \<times> time) list) \<Rightarrow> (nat \<Rightarrow> time) \<Rightarrow> Rule list \<Rightarrow> bool" where
  "some_live es wall rs \<longleftrightarrow> (\<exists>i<length rs. live (wall i) (es (Prerequisite (rs ! i))) \<noteq> [])"

lemma some_live_Nil [simp]: "\<not> some_live es wall []"
  by (simp add: some_live_def)

lemma some_live_Cons [simp]:
  "some_live es wall (r # rs) \<longleftrightarrow>
     live (wall 0) (es (Prerequisite r)) \<noteq> [] \<or> some_live es (\<lambda>i. wall (Suc i)) rs"
  by (auto simp: some_live_def Ex_less_Suc2)

lemma some_live_const:
  "some_live es (\<lambda>_. now) rs \<longleftrightarrow> (\<exists>r\<in>set rs. live now (es (Prerequisite r)) \<noteq> [])"
  by (induction rs) auto

text \<open>The error of a refused call: that of the last rule of the tool.\<close>

definition refusal :: "session \<Rightarrow> Rule list \<Rightarrow> error" where
  "refusal s rs =
     (if HasToolBeenCalled s (Prerequisite (last rs)) then no_token_error (last rs)
      else unmet_error (last rs))"

context ratchet_service
begin

lemma validate_loop_result:
  assumes "\<forall>r\<in>set rs. Prerequisite r \<noteq> ''''" and "rs \<noteq> []"
  shows "fst (validate_loop svc sid tool tok s rs le w) =
     (if some_live (entries (w_ts w) sid) (\<lambda>i. w_wall w (w_reads w + i)) (called_rules s rs)
      then Return None else Return (Some (refusal s rs)))"
  using assms
proof (induction rs arbitrary: le w)
  case Nil
  then show ?case by simp
next
  case (Cons r rs)
  let ?w = "w\<lparr>w_reads := Suc (w_reads w)\<rparr>"
  show ?case
  proof (cases "rs = []")
    case True
    with Cons.prems show ?thesis
      by (simp add: Let_def time_Now_def called_rules_def ts.valid_tokens refusal_def)
  next
    case False
    with Cons.prems Cons.IH[of _ w] Cons.IH[of _ ?w] show ?thesis
      by (simp add: Let_def time_Now_def called_rules_def ts.valid_tokens refusal_def)
  qed
qed

text \<open>The outcome of \<open>ValidateToolCall\<close> on every branch.\<close>

lemma ValidateToolCall_result:
  "fst (ValidateToolCall svc sid tool tok w) =
     (let rs = findRules svc tool; start = w_reads w + event_reads svc
      in if rs = [] \<or> (\<exists>r\<in>set rs. Prerequisite r = '''') then Return None
         else if sid = '''' then
           Return (Some (NewError (if ErrorMessage (hd rs) \<noteq> '''' then ErrorMessage (hd rs)
                                   else ''tool '' @ tool @ '' requires a session'')))
         else case sess (w_ss w) sid of
           None \<Rightarrow> Return (Some (WrapError ''session not found'' ErrSessionNotFound))
         | Some s \<Rightarrow>
             if some_live (entries (w_ts w) sid) (\<lambda>i. w_wall w (start + i)) (called_rules s rs)
             then Return None else Return (Some (refusal s rs)))"
  by (auto simp: ValidateToolCall_def Let_def list_ex_iff ss.get_sess validate_loop_result
      split: option.splits)

lemma some_live_witness:
  assumes "some_live es wall (called_rules s rs)"
  obtains r i where "r \<in> set rs" "Prerequisite r \<in> set (ToolHistory s)"
    "live (wall i) (es (Prerequisite r)) \<noteq> []"
  using assms by (fastforce simp: some_live_def called_rules_def dest: nth_mem)

text \<open>With a clock that stands still, the order of the rules does not matter.\<close>

lemma some_live_frozen:
  "some_live es (\<lambda>_. now) (called_rules s rs) \<longleftrightarrow>
     (\<exists>r\<in>set rs. Prerequisite r \<in> set (ToolHistory s) \<and> live now (es (Prerequisite r)) \<noteq> [])"
  by (auto simp: some_live_const called_rules_def)

lemma IssueToken_result:
  fixes tool :: ToolName
  assumes gen: "rg_GenerateToken (randomGen svc) (w_rg w) = (Inr tok, rg)"
    and found: "sess (w_ss w) sid = Some s" and id: "ID s = sid"
  defines "w' \<equiv> snd (IssueToken svc sid tool w)"
  shows "fst (IssueToken svc sid tool w) = Inr tok"
    and "entries (w_ts w') sid' tool' =
      (if sid' = sid \<and> tool' = tool
       then entries (w_ts w) sid tool @
         [(tok, ck_Now (clock svc) (w_wall w (w_reads w)) + token_expiry svc tool)]
       else entries (w_ts w) sid' tool')"
    and "w_heap w' = AddToken s tool tok (w_heap w)"
    and "sess (w_ss w') = sess (w_ss w)"
    and "w_rg w' = rg" and "w_wall w' = w_wall w"
proof -
  obtain ts where store: "ts_Store (tokenStore svc) sid tool tok
      (ck_Now (clock svc) (w_wall w (w_reads w)) + token_expiry svc tool) (w_ts w) = (None, ts)"
    using ts.store_ok by (metis prod.collapse)
  have ent: "entries ts sid' tool' =
      (if sid' = sid \<and> tool' = tool
       then entries (w_ts w) sid tool @
         [(tok, ck_Now (clock svc) (w_wall w (w_reads w)) + token_expiry svc tool)]
       else entries (w_ts w) sid' tool')" for sid' tool'
    using ts.store_entries[of sid tool tok _ "w_ts w" sid' tool'] by (metis store snd_conv)
  obtain st where upd: "ss_Update (sessionStore svc) s (w_ss w) = (None, st)"
    using ss.update_ok by (metis prod.collapse)
  have "sess st = (sess (w_ss w))(ID s \<mapsto> s)"
    using ss.update_sess[of s "w_ss w"] by (simp add: upd)
  then have sess: "sess st = sess (w_ss w)" using found id by (auto simp: fun_eq_iff)
  note unf = w'_def IssueToken_def Let_def gen clock_Now_def time_Now_def store ss.get_sess found upd
  show "fst (IssueToken svc sid tool w) = Inr tok" by (simp add: unf)
  show "entries (w_ts w') sid' tool' =
      (if sid' = sid \<and> tool' = tool
       then entries (w_ts w) sid tool @
         [(tok, ck_Now (clock svc) (w_wall w (w_reads w)) + token_expiry svc tool)]
       else entries (w_ts w) sid' tool')" by (simp add: unf ent)
  show "w_heap w' = AddToken s tool tok (w_heap w)" "sess (w_ss w') = sess (w_ss w)"
    "w_rg w' = rg" "w_wall w' = w_wall w" by (simp_all add: unf sess)
qed

text \<open>Error paths of \<open>IssueToken\<close>: no entropy, and no session (the token is then stored already).\<close>

lemma IssueToken_no_entropy:
  "rg_GenerateToken (randomGen svc) (w_rg w) = (Inl err, rg) \<Longrightarrow>
   IssueToken svc sid tool w = (Inl err, w\<lparr>w_rg := rg\<rparr>)"
  by (simp add: IssueToken_def Let_def)

lemma IssueToken_no_session:
  assumes "rg_GenerateToken (randomGen svc) (w_rg w) = (Inr tok, rg)" and "sess (w_ss w) sid = None"
  shows "fst (IssueToken svc sid tool w) = Inl (WrapError ''failed to get session'' ErrSessionNotFound)"
    and "entries (w_ts (snd (IssueToken svc sid tool w))) sid tool =
      entries (w_ts w) sid tool @
        [(tok, ck_Now (clock svc) (w_wall w (w_reads w)) + token_expiry svc tool)]"
    and "w_ss (snd (IssueToken svc sid tool w)) = w_ss w"
    and "w_heap (snd (IssueToken svc sid tool w)) = w_heap w"
proof -
  obtain ts where store: "ts_Store (tokenStore svc) sid tool tok
      (ck_Now (clock svc) (w_wall w (w_reads w)) + token_expiry svc tool) (w_ts w) = (None, ts)"
    using ts.store_ok by (metis prod.collapse)
  have ent: "entries ts sid tool = entries (w_ts w) sid tool @
         [(tok, ck_Now (clock svc) (w_wall w (w_reads w)) + token_expiry svc tool)]"
    using ts.store_entries[of sid tool tok _ "w_ts w" sid tool] by (metis store snd_conv)
  note unf = IssueToken_def Let_def assms clock_Now_def time_Now_def store ss.get_sess
  show "fst (IssueToken svc sid tool w) = Inl (WrapError ''failed to get session'' ErrSessionNotFound)"
    "entries (w_ts (snd (IssueToken svc sid tool w))) sid tool =
      entries (w_ts w) sid tool @
        [(tok, ck_Now (clock svc) (w_wall w (w_reads w)) + token_expiry svc tool)]"
    "w_ss (snd (IssueToken svc sid tool w)) = w_ss w"
    "w_heap (snd (IssueToken svc sid tool w)) = w_heap w"
    by (simp_all add: unf ent)
qed

text \<open>Consuming: nothing to do, nothing valid left, or the last valid token goes.\<close>

lemma Consume_noop:
  "(\<And>r. findRule svc tool = Some r \<Longrightarrow> Prerequisite r = '''' \<or> \<not> OneTimeUse r) \<Longrightarrow>
   ConsumePrerequisiteToken svc sid tool w = (None, w)"
  by (auto simp: ConsumePrerequisiteToken_def split: option.splits)

lemma Consume_none_valid:
  assumes "findRule svc tool = Some r"
    and "live (w_wall w (w_reads w)) (entries (w_ts w) sid (Prerequisite r)) = []"
  shows "fst (ConsumePrerequisiteToken svc sid tool w) = None"
    and "core (snd (ConsumePrerequisiteToken svc sid tool w)) = core w"
  using assms by (auto simp: ConsumePrerequisiteToken_def time_Now_def Let_def ts.valid_tokens core_def)

lemma drop_session_token_result:
  assumes "sess (w_ss w) sid = Some s" and "ID s = sid"
  shows "fst (drop_session_token svc sid p w) = None"
    and "session_tokens (w_heap (snd (drop_session_token svc sid p w))) s' t =
      (if Tokens s' = Tokens s \<and> t = p then butlast (session_tokens (w_heap w) s p)
       else session_tokens (w_heap w) s' t)"
    and "sess (w_ss (snd (drop_session_token svc sid p w))) = sess (w_ss w)"
    and "w_ts (snd (drop_session_token svc sid p w)) = w_ts w"
    and "w_rg (snd (drop_session_token svc sid p w)) = w_rg w"
    and "w_wall (snd (drop_session_token svc sid p w)) = w_wall w"
    and "next_map (w_heap (snd (drop_session_token svc sid p w))) = next_map (w_heap w)"
proof -
  obtain st where upd: "ss_Update (sessionStore svc) s (w_ss w) = (None, st)"
    using ss.update_ok by (metis prod.collapse)
  have "sess st = (sess (w_ss w))(ID s \<mapsto> s)"
    using ss.update_sess[of s "w_ss w"] by (simp add: upd)
  then have sess: "sess st = sess (w_ss w)" using assms by (auto simp: fun_eq_iff)
  have same: "session_tokens (w_heap w) s' t = butlast (session_tokens (w_heap w) s p)"
    if "Tokens s' = Tokens s" "t = p" "session_tokens (w_heap w) s p = []"
    using that by (simp add: session_tokens_def)
  have tok: "session_tokens (w_heap w) s p = get_list (maps (w_heap w) (Tokens s)) p"
    by (simp add: session_tokens_def)
  note unf = drop_session_token_def ss.get_sess assms(1) Let_def upd
  show "fst (drop_session_token svc sid p w) = None"
    "sess (w_ss (snd (drop_session_token svc sid p w))) = sess (w_ss w)"
    "w_ts (snd (drop_session_token svc sid p w)) = w_ts w"
    "w_rg (snd (drop_session_token svc sid p w)) = w_rg w"
    "w_wall (snd (drop_session_token svc sid p w)) = w_wall w"
    "next_map (w_heap (snd (drop_session_token svc sid p w))) = next_map (w_heap w)"
    by (simp_all add: unf sess split: option.splits)
  show "session_tokens (w_heap (snd (drop_session_token svc sid p w))) s' t =
      (if Tokens s' = Tokens s \<and> t = p then butlast (session_tokens (w_heap w) s p)
       else session_tokens (w_heap w) s' t)"
    using same tok by (auto simp: unf split: option.splits)
qed

lemma Consume_result:
  fixes tool :: ToolName
  assumes rule: "findRule svc tool = Some r" "Prerequisite r \<noteq> ''''" "OneTimeUse r"
    and found: "sess (w_ss w) sid = Some s" "ID s = sid"
  defines "valid \<equiv> live (w_wall w (w_reads w)) (entries (w_ts w) sid (Prerequisite r))"
    and "w' \<equiv> snd (ConsumePrerequisiteToken svc sid tool w)"
  assumes nonempty: "valid \<noteq> []"
  shows "fst (ConsumePrerequisiteToken svc sid tool w) = None"
    and "entries (w_ts w') sid' tool' =
      (if sid' = sid \<and> tool' = Prerequisite r
       then remove_first (\<lambda>e. fst e = last valid) (entries (w_ts w) sid (Prerequisite r))
       else entries (w_ts w) sid' tool')"
    and "session_tokens (w_heap w') s' tool' =
      (if Tokens s' = Tokens s \<and> tool' = Prerequisite r
       then butlast (session_tokens (w_heap w) s (Prerequisite r))
       else session_tokens (w_heap w) s' tool')"
    and "sess (w_ss w') = sess (w_ss w)"
    and "w_rg w' = w_rg w" and "w_wall w' = w_wall w"
    and "next_map (w_heap w') = next_map (w_heap w)"
proof -
  let ?p = "Prerequisite r"
  have "ts_GetValidTokens (tokenStore svc) (w_wall w (w_reads w)) sid ?p (w_ts w) = Inr valid"
    by (simp add: ts.valid_tokens valid_def)
  from ts.remove_last_valid[OF this nonempty] obtain ts where rm: "ts_RemoveToken (tokenStore svc) sid ?p (last valid) (w_ts w) = (None, ts)"
    by (metis prod.collapse)
  have ent: "entries ts sid' tool' =
      (if sid' = sid \<and> tool' = ?p then remove_first (\<lambda>e. fst e = last valid) (entries (w_ts w) sid ?p)
       else entries (w_ts w) sid' tool')" for sid' tool'
    using ts.remove_entries[of sid ?p "last valid" "w_ts w" sid' tool'] by (simp add: rm)
  let ?w = "emitEvent svc EventTypeTokenConsumed sid ?p (last valid) [''consumed_by'' \<mapsto> MetaText tool]
              (w\<lparr>w_reads := Suc (w_reads w), w_ts := ts\<rparr>)"
  have eq: "ConsumePrerequisiteToken svc sid tool w = drop_session_token svc sid ?p ?w"
    using rule nonempty rm
    by (simp add: ConsumePrerequisiteToken_def time_Now_def Let_def ts.valid_tokens valid_def)
  have found': "sess (w_ss ?w) sid = Some s" using found by simp
  note drop = drop_session_token_result[OF found' found(2)]
  show "fst (ConsumePrerequisiteToken svc sid tool w) = None"
    "sess (w_ss w') = sess (w_ss w)" "w_rg w' = w_rg w" "w_wall w' = w_wall w"
    "next_map (w_heap w') = next_map (w_heap w)"
    by (simp_all add: eq w'_def drop)
  show "entries (w_ts w') sid' tool' =
      (if sid' = sid \<and> tool' = Prerequisite r
       then remove_first (\<lambda>e. fst e = last valid) (entries (w_ts w) sid (Prerequisite r))
       else entries (w_ts w) sid' tool')"
    by (simp add: eq w'_def drop ent)
  show "session_tokens (w_heap w') s' tool' =
      (if Tokens s' = Tokens s \<and> tool' = Prerequisite r
       then butlast (session_tokens (w_heap w) s (Prerequisite r))
       else session_tokens (w_heap w) s' tool')"
    by (simp add: eq w'_def drop)
qed

lemma CreateSession_existing:
  "sess (w_ss w) sid = Some s \<Longrightarrow> CreateSession svc sid w = (Inr s, w)"
  by (simp add: CreateSession_def ss.get_sess)

lemma CreateSession_fresh:
  fixes sid :: SessionID
  assumes "sess (w_ss w) sid = None"
  defines "s \<equiv> \<lparr>ID = sid, Tokens = next_map (w_heap w), ToolHistory = [],
                 CreatedAt = w_wall w (w_reads w)\<rparr>"
    and "w' \<equiv> snd (CreateSession svc sid w)"
  shows "fst (CreateSession svc sid w) = Inr s"
    and "sess (w_ss w') = (sess (w_ss w))(sid \<mapsto> s)"
    and "w_heap w' = snd (alloc_map (w_heap w))"
    and "w_ts w' = w_ts w" and "w_rg w' = w_rg w" and "w_wall w' = w_wall w"
proof -
  have free: "sess (w_ss w) (ID s) = None" using assms(1) by (simp add: s_def)
  obtain st where cr: "ss_Create (sessionStore svc) s (w_ss w) = (None, st)"
    using ss.create_result[of s "w_ss w"] free by (metis prod.collapse)
  have st: "sess st = (sess (w_ss w))(sid \<mapsto> s)"
  proof -
    have "sess st = (sess (w_ss w))(ID s \<mapsto> s)" using ss.create_sess[of s "w_ss w"] free cr by simp
    then show ?thesis by (simp add: s_def)
  qed
  note unf = CreateSession_def ss.get_sess assms(1) time_Now_def NewSession_eq Let_def
  have "CreateSession svc sid w = (Inr s, emitEvent svc EventTypeSessionCreated sid '''' '''' Map.empty
      (w\<lparr>w_reads := Suc (w_reads w), w_heap := snd (alloc_map (w_heap w)), w_ss := st\<rparr>))"
    using cr by (simp add: unf s_def)
  then show "fst (CreateSession svc sid w) = Inr s"
    "sess (w_ss w') = (sess (w_ss w))(sid \<mapsto> s)" "w_heap w' = snd (alloc_map (w_heap w))"
    "w_ts w' = w_ts w" "w_rg w' = w_rg w" "w_wall w' = w_wall w"
    by (simp_all add: w'_def st)
qed

end

end
