(* ===== verification/PrimaryPort.thy ===== *)
theory PrimaryPort
  imports ServiceLaws
begin

text \<open>
  \<open>ports/primary/ratchet\_service.go\<close>: the interface \<open>RatchetService\<close> that the wrapper and the demo
  server call, as a record of its methods in the order of the interface. A Go interface value is
  a method table and a receiver: the table is this record, the receiver is the first argument of
  each method (methods that change the receiver return it). \<open>ratchet_port\<close> is the table of
  \<open>RatchetServiceImpl\<close>, the one implementation of the repository.

  The locale \<open>primary_port\<close> states what a caller may rely on whatever the implementation: a
  validation answers and changes nothing that decisions are made from, and no method turns time
  back. Its lemmas about the wrapper are in \<open>Wrapper\<close>.
\<close>

record ('svc, 'st) RatchetService =
  rp_RegisterRule :: "Rule \<Rightarrow> 'svc \<Rightarrow> error option \<times> 'svc"
  rp_ValidateToolCall :: "'svc \<Rightarrow> SessionID \<Rightarrow> ToolName \<Rightarrow> TokenValue \<Rightarrow> 'st \<Rightarrow> error option go_result \<times> 'st"
  rp_ConsumePrerequisiteToken :: "'svc \<Rightarrow> SessionID \<Rightarrow> ToolName \<Rightarrow> 'st \<Rightarrow> error option \<times> 'st"
  rp_IssueToken :: "'svc \<Rightarrow> SessionID \<Rightarrow> ToolName \<Rightarrow> 'st \<Rightarrow> (error + TokenValue) \<times> 'st"
  rp_LoadConfiguration :: "string \<Rightarrow> 'svc \<Rightarrow> (error + Rule list) \<times> 'svc"
  rp_CreateSession :: "'svc \<Rightarrow> SessionID \<Rightarrow> 'st \<Rightarrow> (error + session) \<times> 'st"
  rp_GetRequiredPrerequisite :: "'svc \<Rightarrow> ToolName \<Rightarrow> error + ToolName"
  rp_GetObservabilityStats :: "'svc \<Rightarrow> 'st \<Rightarrow> error + EventStats option"
  rp_GetObservabilityEvents :: "'svc \<Rightarrow> SessionID \<Rightarrow> EventFilter option \<Rightarrow> 'st \<Rightarrow> error + Event list"

definition ratchet_port ::
  "(('ts, 'ss, 'rg, 'es) RatchetServiceImpl, ('ts, 'ss, 'rg, 'es) world) RatchetService" where
  "ratchet_port =
     \<lparr>rp_RegisterRule = RegisterRule,
      rp_ValidateToolCall = ValidateToolCall,
      rp_ConsumePrerequisiteToken = ConsumePrerequisiteToken,
      rp_IssueToken = IssueToken,
      rp_LoadConfiguration = LoadConfiguration,
      rp_CreateSession = CreateSession,
      rp_GetRequiredPrerequisite = GetRequiredPrerequisite,
      rp_GetObservabilityStats = GetObservabilityStats,
      rp_GetObservabilityEvents = GetObservabilityEvents\<rparr>"

lemma ratchet_port_sel [simp]:
  "rp_RegisterRule ratchet_port = RegisterRule"
  "rp_ValidateToolCall ratchet_port = ValidateToolCall"
  "rp_ConsumePrerequisiteToken ratchet_port = ConsumePrerequisiteToken"
  "rp_IssueToken ratchet_port = IssueToken"
  "rp_LoadConfiguration ratchet_port = LoadConfiguration"
  "rp_CreateSession ratchet_port = CreateSession"
  "rp_GetRequiredPrerequisite ratchet_port = GetRequiredPrerequisite"
  "rp_GetObservabilityStats ratchet_port = GetObservabilityStats"
  "rp_GetObservabilityEvents ratchet_port = GetObservabilityEvents"
  by (simp_all add: ratchet_port_def)

section \<open>The contract\<close>

locale primary_port =
  fixes port :: "('svc, ('ts, 'ss, 'rg, 'es) world) RatchetService"
  assumes validate_returns: "fst (rp_ValidateToolCall port svc sid tool token w) \<noteq> Panic"
    and validate_keeps: "core (snd (rp_ValidateToolCall port svc sid tool token w)) = core w"
    and validate_time: "w_reads w \<le> w_reads (snd (rp_ValidateToolCall port svc sid tool token w))"
    and consume_time: "w_reads w \<le> w_reads (snd (rp_ConsumePrerequisiteToken port svc sid tool w))"
    and issue_time: "w_reads w \<le> w_reads (snd (rp_IssueToken port svc sid tool w))"
    and create_time: "w_reads w \<le> w_reads (snd (rp_CreateSession port svc sid w))"

section \<open>The service keeps it\<close>

lemma drop_session_token_reads [simp]:
  "w_reads (snd (drop_session_token svc sid p w)) = w_reads w"
  by (simp add: drop_session_token_def Let_def split: sum.splits option.splits prod.splits)

lemma Consume_reads_le: "w_reads w \<le> w_reads (snd (ConsumePrerequisiteToken svc sid tool w))"
  by (auto simp: ConsumePrerequisiteToken_def time_Now_def Let_def
      split: option.splits sum.splits prod.splits)

lemma IssueToken_reads_le: "w_reads w \<le> w_reads (snd (IssueToken svc sid tool w))"
  by (auto simp: IssueToken_def clock_Now_def time_Now_def Let_def
      split: option.splits sum.splits prod.splits)

lemma CreateSession_reads_le: "w_reads w \<le> w_reads (snd (CreateSession svc sid w))"
  by (auto simp: CreateSession_def time_Now_def Let_def split: option.splits sum.splits prod.splits)

interpretation rp: primary_port ratchet_port
  by unfold_locales (simp_all add: ValidateToolCall_returns ValidateToolCall_core ValidateToolCall_reads_le
      Consume_reads_le IssueToken_reads_le CreateSession_reads_le)

end
