(* ===== verification/Wrapper.thy ===== *)
theory Wrapper
  imports PrimaryPort
begin

text \<open>
  \<open>mcp/wrapper.go\<close>: the handler that \<open>WrapWithRatchet\<close> returns. A tool handler of the MCP SDK
  is a parameter: a function of the input and the world that returns a result pointer, an
  output and an error. The zero value of the output type is the parameter \<open>zero\<close>. The logger
  only writes log lines and is left out. The ratchet is any value of the primary port; the handler
  over the ratchet service is the instance at \<open>ratchet_port\<close>.

  The phases of the handler are definitions of their own: finding the session, the token shown
  to the validation, recording the call.
\<close>

type_synonym ('inp, 'res, 'out, 'ts, 'ss, 'rg, 'es) handler =
  "'inp \<Rightarrow> ('ts, 'ss, 'rg, 'es) world \<Rightarrow>
   ('res option \<times> 'out \<times> error option) \<times> ('ts, 'ss, 'rg, 'es) world"

text \<open>A handler that does not touch what the ratchet keeps; it may let time pass.\<close>

definition leaves_ratchet :: "('inp, 'res, 'out, 'ts, 'ss, 'rg, 'es) handler \<Rightarrow> bool" where
  "leaves_ratchet handler \<longleftrightarrow>
     (\<forall>inp w. core (snd (handler inp w)) = core w \<and> w_reads w \<le> w_reads (snd (handler inp w)))"

definition demo_session :: SessionID where
  "demo_session = ''demo-session''"

text \<open>
  Get or create the session; a session that cannot be created is used without being stored. The
  ratchet is an interface value: a table of methods and its receiver.
\<close>

definition wrap_session_on ::
  "('svc, ('ts, 'ss, 'rg, 'es) world) RatchetService \<Rightarrow> 'svc \<Rightarrow> 'ss SessionStore \<Rightarrow>
   ('ts, 'ss, 'rg, 'es) world \<Rightarrow> session \<times> ('ts, 'ss, 'rg, 'es) world" where
  "wrap_session_on port ratchet store w =
     (case ss_Get store demo_session (w_ss w) of
        Inr s \<Rightarrow> (s, w)
      | Inl _ \<Rightarrow>
          (case rp_CreateSession port ratchet demo_session w of
             (Inr s, w1) \<Rightarrow> (s, w1)
           | (Inl createErr, w1) \<Rightarrow>
               let (now, w2) = time_Now w1;
                   (s, h) = NewSession demo_session now (w_heap w2)
               in (s, w2\<lparr>w_heap := h\<rparr>)))"

definition wrap_token :: "ToolName \<Rightarrow> session \<Rightarrow> ('ts, 'ss, 'rg, 'es) world \<Rightarrow> TokenValue" where
  "wrap_token tool s w =
     (case maps (w_heap w) (Tokens s) tool of
        None \<Rightarrow> ''''
      | Some tokens \<Rightarrow> if length tokens > 0 then last tokens else '''')"

text \<open>Re-fetch the session, record the call, store the session; failures are only logged.\<close>

definition wrap_record ::
  "'ss SessionStore \<Rightarrow> ToolName \<Rightarrow> ('ts, 'ss, 'rg, 'es) world \<Rightarrow> ('ts, 'ss, 'rg, 'es) world" where
  "wrap_record store tool w =
     (case ss_Get store demo_session (w_ss w) of
        Inl err \<Rightarrow> w
      | Inr s \<Rightarrow>
          let s = RecordToolCall s tool;
              (updateErr, st) = ss_Update store s (w_ss w)
          in w\<lparr>w_ss := st\<rparr>)"

definition WrapWithRatchet_on ::
  "('svc, ('ts, 'ss, 'rg, 'es) world) RatchetService \<Rightarrow> 'out \<Rightarrow> ToolName \<Rightarrow>
   ('inp, 'res, 'out, 'ts, 'ss, 'rg, 'es) handler \<Rightarrow> 'svc \<Rightarrow> 'ss SessionStore \<Rightarrow> 'inp \<Rightarrow>
   ('ts, 'ss, 'rg, 'es) world \<Rightarrow>
   ('res option \<times> 'out \<times> error option) go_result \<times> ('ts, 'ss, 'rg, 'es) world" where
  "WrapWithRatchet_on port zero tool handler ratchet store input w =
     (let (s, w1) = wrap_session_on port ratchet store w;
          token = wrap_token tool s w1
      in case rp_ValidateToolCall port ratchet demo_session tool token w1 of
        (Panic, w2) \<Rightarrow> (Panic, w2)
      | (Return (Some err), w2) \<Rightarrow>
          (Return (None, zero, Some (WrapError ''ratchet validation failed'' err)), w2)
      | (Return None, w2) \<Rightarrow>
          (case handler input w2 of
             ((result, resp, Some err), w3) \<Rightarrow> (Return (result, resp, Some err), w3)
           | ((result, resp, None), w3) \<Rightarrow>
               let (consumeErr, w4) = rp_ConsumePrerequisiteToken port ratchet demo_session tool w3;
                   (issued, w5) = rp_IssueToken port ratchet demo_session tool w4
               in (Return (result, resp, None), wrap_record store tool w5)))"

text \<open>With the repository's implementation of the port.\<close>

definition wrap_session ::
  "('ts, 'ss, 'rg, 'es) RatchetServiceImpl \<Rightarrow> 'ss SessionStore \<Rightarrow> ('ts, 'ss, 'rg, 'es) world \<Rightarrow>
   session \<times> ('ts, 'ss, 'rg, 'es) world" where
  "wrap_session = wrap_session_on ratchet_port"

definition WrapWithRatchet ::
  "'out \<Rightarrow> ToolName \<Rightarrow> ('inp, 'res, 'out, 'ts, 'ss, 'rg, 'es) handler \<Rightarrow>
   ('ts, 'ss, 'rg, 'es) RatchetServiceImpl \<Rightarrow> 'ss SessionStore \<Rightarrow> 'inp \<Rightarrow> ('ts, 'ss, 'rg, 'es) world \<Rightarrow>
   ('res option \<times> 'out \<times> error option) go_result \<times> ('ts, 'ss, 'rg, 'es) world" where
  "WrapWithRatchet = WrapWithRatchet_on ratchet_port"

lemmas wrap_session_unfold = wrap_session_on_def[of ratchet_port, folded wrap_session_def, unfolded ratchet_port_sel]
lemmas WrapWithRatchet_unfold =
  WrapWithRatchet_on_def[of ratchet_port, folded WrapWithRatchet_def wrap_session_def, unfolded ratchet_port_sel]

section \<open>What holds of a wrapped call for every ratchet\<close>

lemma wrap_record_frame [simp]:
  "w_reads (wrap_record store tool w) = w_reads w" "w_ts (wrap_record store tool w) = w_ts w"
  "w_heap (wrap_record store tool w) = w_heap w" "w_rg (wrap_record store tool w) = w_rg w"
  by (simp_all add: wrap_record_def Let_def split: sum.splits prod.splits)

context primary_port
begin

lemma session_time: "w_reads w \<le> w_reads (snd (wrap_session_on port svc store w))"
  using create_time[of w svc demo_session]
  by (auto simp: wrap_session_on_def time_Now_def Let_def split: sum.splits prod.splits)

text \<open>The whole call, by what the validation and the handler answer.\<close>

lemma wrapped_cases [consumes 1, case_names refused failed served]:
  assumes "WrapWithRatchet_on port zero tool handler svc store input w = (r, w')"
  obtains
    s w1 err where "wrap_session_on port svc store w = (s, w1)"
      "rp_ValidateToolCall port svc demo_session tool (wrap_token tool s w1) w1 = (Return (Some err), w')"
      "r = Return (None, zero, Some (WrapError ''ratchet validation failed'' err))"
  | s w1 w2 res out err where "wrap_session_on port svc store w = (s, w1)"
      "rp_ValidateToolCall port svc demo_session tool (wrap_token tool s w1) w1 = (Return None, w2)"
      "handler input w2 = ((res, out, Some err), w')" "r = Return (res, out, Some err)"
  | s w1 w2 w3 res out where "wrap_session_on port svc store w = (s, w1)"
      "rp_ValidateToolCall port svc demo_session tool (wrap_token tool s w1) w1 = (Return None, w2)"
      "handler input w2 = ((res, out, None), w3)" "r = Return (res, out, None)"
      "w' = wrap_record store tool (snd (rp_IssueToken port svc demo_session tool
              (snd (rp_ConsumePrerequisiteToken port svc demo_session tool w3))))"
proof -
  obtain s w1 where ws: "wrap_session_on port svc store w = (s, w1)" by fastforce
  let ?val = "rp_ValidateToolCall port svc demo_session tool (wrap_token tool s w1) w1"
  obtain v w2 where val: "?val = (v, w2)" by fastforce
  from validate_returns[of svc demo_session tool "wrap_token tool s w1" w1] val have "v \<noteq> Panic" by simp
  then consider err where "v = Return (Some err)" | "v = Return None"
    by (cases v) auto
  then show thesis
  proof cases
    case 1
    with assms ws val show thesis by (intro that(1)[of s w1 err]) (simp_all add: WrapWithRatchet_on_def)
  next
    case 2
    obtain res out e w3 where h: "handler input w2 = ((res, out, e), w3)" by (metis prod.exhaust)
    show thesis
    proof (cases e)
      case None
      with assms ws val 2 h show thesis
        by (intro that(3)[of s w1 w2 res out w3]) (simp_all add: WrapWithRatchet_on_def split: prod.splits)
    next
      case (Some err)
      with assms ws val 2 h show thesis
        by (intro that(2)[of s w1 w2 res out err]) (simp_all add: WrapWithRatchet_on_def)
    qed
  qed
qed

lemma wrapped_returns: "fst (WrapWithRatchet_on port zero tool handler svc store input w) \<noteq> Panic"
proof -
  obtain r w' where c: "WrapWithRatchet_on port zero tool handler svc store input w = (r, w')" by fastforce
  then show ?thesis by (cases rule: wrapped_cases) (simp_all add: c)
qed

text \<open>
  What the caller gets is the refusal or what the handler answered: the ratchet's own errors after
  the handler never reach it. When it is the refusal, the stores are those the session was found in.
\<close>

lemma wrapped_answer:
  assumes "WrapWithRatchet_on port zero tool handler svc store input w = (r, w')"
  shows "(\<exists>err. r = Return (None, zero, Some (WrapError ''ratchet validation failed'' err)) \<and>
            core w' = core (snd (wrap_session_on port svc store w))) \<or>
    (\<exists>w2. core w2 = core (snd (wrap_session_on port svc store w)) \<and> r = Return (fst (handler input w2)))"
  using assms
proof (cases rule: wrapped_cases)
  case (refused s w1 err)
  with validate_keeps[of svc demo_session tool "wrap_token tool s w1" w1] show ?thesis by simp
next
  case (failed s w1 w2 res out err)
  with validate_keeps[of svc demo_session tool "wrap_token tool s w1" w1] show ?thesis
    by (intro disjI2 exI[of _ w2]) simp
next
  case (served s w1 w2 w3 res out)
  with validate_keeps[of svc demo_session tool "wrap_token tool s w1" w1] show ?thesis
    by (intro disjI2 exI[of _ w2]) simp
qed

lemma wrapped_time:
  assumes "WrapWithRatchet_on port zero tool handler svc store input w = (r, w')"
    and "\<And>w. w_reads w \<le> w_reads (snd (handler input w))"
  shows "w_reads w \<le> w_reads w'"
  using assms(1)
proof (cases rule: wrapped_cases)
  case (refused s w1 err)
  then show ?thesis
    using session_time[of w svc store] validate_time[of w1 svc demo_session tool "wrap_token tool s w1"] by simp
next
  case (failed s w1 w2 res out err)
  then show ?thesis
    using session_time[of w svc store] validate_time[of w1 svc demo_session tool "wrap_token tool s w1"]
      assms(2)[of w2] by simp
next
  case (served s w1 w2 w3 res out)
  then show ?thesis
    using session_time[of w svc store] validate_time[of w1 svc demo_session tool "wrap_token tool s w1"]
      assms(2)[of w2] consume_time[of w3 svc demo_session tool]
      issue_time[of "snd (rp_ConsumePrerequisiteToken port svc demo_session tool w3)" svc demo_session tool] by simp
qed

end

lemma WrapWithRatchet_returns: "fst (WrapWithRatchet zero tool handler svc store input w) \<noteq> Panic"
  unfolding WrapWithRatchet_def by (rule rp.wrapped_returns)

text \<open>
  C15: What the caller of a wrapped tool gets is either the ratchet's refusal, with nothing changed
  but the creation of the session, or exactly what the tool's handler answered in a world with the
  same stores: no failure of consuming, issuing or recording after the handler reaches the caller.
\<close>

theorem wrapped_call_answer:
  "(\<exists>err. fst (WrapWithRatchet zero tool handler svc store input w) =
        Return (None, zero, Some (WrapError ''ratchet validation failed'' err)) \<and>
      core (snd (WrapWithRatchet zero tool handler svc store input w)) = core (snd (wrap_session svc store w))) \<or>
   (\<exists>w2. core w2 = core (snd (wrap_session svc store w)) \<and>
      fst (WrapWithRatchet zero tool handler svc store input w) = Return (fst (handler input w2)))"
  unfolding WrapWithRatchet_def wrap_session_def
  using rp.wrapped_answer[of zero tool handler svc store input w, OF surjective_pairing] by simp

section \<open>The state a wrapped call works on\<close>

text \<open>
  Every stored session carries its own ID and a token map of its own.
\<close>

definition sessions_ok :: "(SessionID \<Rightarrow> session option) \<Rightarrow> heap \<Rightarrow> bool" where
  "sessions_ok S h \<longleftrightarrow>
     (\<forall>sid s. S sid = Some s \<longrightarrow> ID s = sid \<and> Tokens s < next_map h) \<and>
     (\<forall>a b s t. S a = Some s \<longrightarrow> S b = Some t \<longrightarrow> Tokens s = Tokens t \<longrightarrow> a = b)"

definition history_of :: "(SessionID \<Rightarrow> session option) \<Rightarrow> SessionID \<Rightarrow> ToolName list" where
  "history_of S sid = (case S sid of None \<Rightarrow> [] | Some s \<Rightarrow> ToolHistory s)"

definition tokens_in :: "(SessionID \<Rightarrow> session option) \<Rightarrow> heap \<Rightarrow> SessionID \<Rightarrow> ToolName \<Rightarrow> TokenValue list" where
  "tokens_in S h sid tool = (case S sid of None \<Rightarrow> [] | Some s \<Rightarrow> session_tokens h s tool)"

lemma sessions_okD: "sessions_ok S h \<Longrightarrow> S sid = Some s \<Longrightarrow> ID s = sid \<and> Tokens s < next_map h"
  by (simp add: sessions_ok_def)

lemma sessions_ok_inj:
  "sessions_ok S h \<Longrightarrow> S a = Some s \<Longrightarrow> S b = Some t \<Longrightarrow> Tokens s = Tokens t \<Longrightarrow> a = b"
  unfolding sessions_ok_def by blast

lemma sessions_ok_heap: "sessions_ok S h \<Longrightarrow> next_map h \<le> next_map h' \<Longrightarrow> sessions_ok S h'"
  unfolding sessions_ok_def by (meson less_le_trans)

lemma sessions_ok_new:
  assumes "sessions_ok S h" and "S sid = None" and "ID s = sid" and "Tokens s = next_map h"
  shows "sessions_ok (S(sid \<mapsto> s)) (snd (alloc_map h))"
  using assms unfolding sessions_ok_def
  by (auto simp: less_Suc_eq split: if_splits) (metis less_irrefl_nat)+

lemma sessions_ok_same_map:
  assumes "sessions_ok S h" and "S sid = Some s" and "ID s' = sid" and "Tokens s' = Tokens s"
  shows "sessions_ok (S(sid \<mapsto> s')) h"
  using assms unfolding sessions_ok_def by (simp, metis)

lemma sessions_ok_empty [simp]: "sessions_ok Map.empty h"
  by (simp add: sessions_ok_def)

end
