(* ===== verification/RatchetSpec.thy ===== *)
theory RatchetSpec
  imports Ports
begin

text \<open>
  What the ratchet promises for one session, without heaps, stores or events: an abstract
  machine whose state is the time, the successful calls so far and the tokens of each tool. A
  step is a successful tool call (validation, consumption and issue at three instants in this
  order) or the passing of time. Every run of wrapped calls over the in-memory stores is shown
  in \<open>WrapperLaws\<close> to be a run of this machine.

  Shown here: every call of a restricted tool comes after a call of one of its prerequisites,
  and starts less than the prerequisite's expiry after it; a one-time-use prerequisite is spent
  by at most one call; tools that wait for each other in a circle are never called.
\<close>

section \<open>Rules of a tool\<close>

definition rules_for :: "Rule list \<Rightarrow> ToolName \<Rightarrow> Rule list" where
  "rules_for rs tool = filter (\<lambda>r. Tool r = tool) rs"

definition first_rule :: "Rule list \<Rightarrow> ToolName \<Rightarrow> Rule option" where
  "first_rule rs tool = find (\<lambda>r. Tool r = tool) rs"

definition rule_expiry :: "Rule list \<Rightarrow> ToolName \<Rightarrow> duration" where
  "rule_expiry rs tool =
     (case first_rule rs tool of
        None \<Rightarrow> 5 * Minute
      | Some r \<Rightarrow> if 0 < Expiry r then Expiry r else 5 * Minute)"

text \<open>A tool is restricted when it has rules and each names a prerequisite.\<close>

definition restricted :: "Rule list \<Rightarrow> ToolName \<Rightarrow> bool" where
  "restricted rs tool \<longleftrightarrow>
     rules_for rs tool \<noteq> [] \<and> (\<forall>r\<in>set (rules_for rs tool). Prerequisite r \<noteq> '''')"

lemma rule_expiry_pos: "0 < rule_expiry rs tool"
  by (simp add: rule_expiry_def duration_units split: option.splits)

section \<open>The machine\<close>

record call =
  c_tool :: ToolName
  c_start :: time
  c_done :: time

record ratchet =
  now :: time
  calls :: "call list"
  bag :: "ToolName \<Rightarrow> (TokenValue \<times> time) list"

definition init_ratchet :: "time \<Rightarrow> ratchet" where
  "init_ratchet t = \<lparr>now = t, calls = [], bag = (\<lambda>_. [])\<rparr>"

definition allowed :: "Rule list \<Rightarrow> ToolName \<Rightarrow> time \<Rightarrow> ratchet \<Rightarrow> bool" where
  "allowed rs tool t r \<longleftrightarrow>
     restricted rs tool \<longrightarrow>
       (\<exists>ru\<in>set (rules_for rs tool).
          Prerequisite ru \<in> c_tool ` set (calls r) \<and> live t (bag r (Prerequisite ru)) \<noteq> [])"

text \<open>The prerequisite whose latest live token a call of the tool uses up, if there is one.\<close>

definition spent ::
  "Rule list \<Rightarrow> ToolName \<Rightarrow> time \<Rightarrow> (ToolName \<Rightarrow> (TokenValue \<times> time) list) \<Rightarrow> ToolName option" where
  "spent rs tool t b =
     (case first_rule rs tool of
        None \<Rightarrow> None
      | Some ru \<Rightarrow>
          if Prerequisite ru = '''' \<or> \<not> OneTimeUse ru \<or> live t (b (Prerequisite ru)) = [] then None
          else Some (Prerequisite ru))"

lemma spent_Some_iff:
  "spent rs tool t b = Some p \<longleftrightarrow>
     (\<exists>ru. first_rule rs tool = Some ru \<and> Prerequisite ru = p \<and> p \<noteq> '''' \<and> OneTimeUse ru \<and> live t (b p) \<noteq> [])"
  by (auto simp: spent_def split: option.splits)

definition consume ::
  "Rule list \<Rightarrow> ToolName \<Rightarrow> time \<Rightarrow> (ToolName \<Rightarrow> (TokenValue \<times> time) list) \<Rightarrow>
   ToolName \<Rightarrow> (TokenValue \<times> time) list" where
  "consume rs tool t b =
     (case spent rs tool t b of
        None \<Rightarrow> b
      | Some p \<Rightarrow> b(p := remove_first (\<lambda>e. fst e = last (live t (b p))) (b p)))"

definition mint ::
  "Rule list \<Rightarrow> ToolName \<Rightarrow> time \<Rightarrow> TokenValue option \<Rightarrow> (ToolName \<Rightarrow> (TokenValue \<times> time) list) \<Rightarrow>
   ToolName \<Rightarrow> (TokenValue \<times> time) list" where
  "mint rs tool t tok b =
     (case tok of None \<Rightarrow> b | Some tk \<Rightarrow> b(tool := b tool @ [(tk, t + rule_expiry rs tool)]))"

text \<open>
  \<open>uniq\<close>: the random generator hands out no token twice (\<open>True\<close>), or may do so (\<open>False\<close>).
\<close>

inductive ratchet_step :: "Rule list \<Rightarrow> bool \<Rightarrow> ratchet \<Rightarrow> ratchet \<Rightarrow> bool" where
  success:
    "now r \<le> tv \<Longrightarrow> allowed rs tool tv r \<Longrightarrow> tv \<le> tc \<Longrightarrow> tc \<le> ti \<Longrightarrow> ti \<le> t' \<Longrightarrow>
     (\<And>tk t. uniq \<Longrightarrow> tok = Some tk \<Longrightarrow> tk \<notin> fst ` set (bag r t)) \<Longrightarrow>
     ratchet_step rs uniq r
       \<lparr>now = t', calls = calls r @ [\<lparr>c_tool = tool, c_start = now r, c_done = t'\<rparr>],
        bag = mint rs tool ti tok (consume rs tool tc (bag r))\<rparr>"
| pass: "now r \<le> t' \<Longrightarrow> ratchet_step rs uniq r (r\<lparr>now := t'\<rparr>)"

inductive ratchet_reach :: "Rule list \<Rightarrow> bool \<Rightarrow> ratchet \<Rightarrow> bool" for rs uniq where
  start: "ratchet_reach rs uniq (init_ratchet t)"
| step: "ratchet_reach rs uniq r \<Longrightarrow> ratchet_step rs uniq r r' \<Longrightarrow> ratchet_reach rs uniq r'"

inductive_cases ratchet_stepE: "ratchet_step rs uniq r r'"

section \<open>Tokens stem from calls\<close>

lemma first_rule_hd: "first_rule rs tool = (case rules_for rs tool of [] \<Rightarrow> None | r # _ \<Rightarrow> Some r)"
  unfolding first_rule_def rules_for_def by (induction rs) auto

lemma consume_subset: "set (consume rs tool t b p) \<subseteq> set (b p)"
  using set_remove_first_subset[of _ "b p"] by (auto simp: consume_def split: option.splits dest!: subsetD)

definition tokens_from_calls :: "Rule list \<Rightarrow> ratchet \<Rightarrow> bool" where
  "tokens_from_calls rs r \<longleftrightarrow>
     (\<forall>p e. e \<in> set (bag r p) \<longrightarrow>
        (\<exists>c\<in>set (calls r). c_tool c = p \<and> snd e \<le> c_done c + rule_expiry rs p))"

lemma step_tokens_from_calls:
  assumes "ratchet_step rs uniq r r'" and inv: "tokens_from_calls rs r"
  shows "tokens_from_calls rs r'"
  using assms(1)
proof cases
  case (success tv tool tc ti t' tok)
  show ?thesis unfolding tokens_from_calls_def
  proof (intro allI impI)
    fix p e
    assume e: "e \<in> set (bag r' p)"
    show "\<exists>c\<in>set (calls r'). c_tool c = p \<and> snd e \<le> c_done c + rule_expiry rs p"
    proof (cases "e \<in> set (consume rs tool tc (bag r) p)")
      case True
      then have "e \<in> set (bag r p)" using consume_subset by blast
      with inv obtain c where "c \<in> set (calls r)" "c_tool c = p" "snd e \<le> c_done c + rule_expiry rs p"
        unfolding tokens_from_calls_def by blast
      with success(1) show ?thesis by auto
    next
      case False
      from e success(1) have "e \<in> set (mint rs tool ti tok (consume rs tool tc (bag r)) p)" by simp
      with False have "p = tool" "snd e = ti + rule_expiry rs tool"
        by (auto simp: mint_def split: option.splits if_splits)
      with success show ?thesis by simp
    qed
  qed
next
  case (pass t')
  with inv show ?thesis by (simp add: tokens_from_calls_def)
qed

lemma reach_tokens_from_calls: "ratchet_reach rs uniq r \<Longrightarrow> tokens_from_calls rs r"
proof (induction rule: ratchet_reach.induct)
  case (start t)
  then show ?case by (simp add: tokens_from_calls_def init_ratchet_def)
next
  case (step r r')
  then show ?case by (blast intro: step_tokens_from_calls)
qed

section \<open>Order and freshness\<close>

text \<open>Call \<open>i\<close> of a restricted tool has a prerequisite call before it that is recent enough.\<close>

definition justified :: "Rule list \<Rightarrow> call list \<Rightarrow> nat \<Rightarrow> bool" where
  "justified rs cs i \<longleftrightarrow>
     restricted rs (c_tool (cs ! i)) \<longrightarrow>
       (\<exists>ru\<in>set (rules_for rs (c_tool (cs ! i))). \<exists>j<i.
          c_tool (cs ! j) = Prerequisite ru \<and>
          c_start (cs ! i) < c_done (cs ! j) + rule_expiry rs (Prerequisite ru))"

lemma justified_append: "i < length cs \<Longrightarrow> justified rs (cs @ ds) i \<longleftrightarrow> justified rs cs i"
proof -
  assume "i < length cs"
  then have eq: "(cs @ ds) ! i = cs ! i" "\<And>j. j < i \<Longrightarrow> (cs @ ds) ! j = cs ! j"
    by (simp_all add: nth_append)
  then show ?thesis unfolding justified_def by (simp add: eq(1) cong: conj_cong)
qed

lemma allowed_justified:
  assumes "tokens_from_calls rs r" and "now r \<le> tv" and "allowed rs tool tv r"
  shows "justified rs (calls r @ [\<lparr>c_tool = tool, c_start = now r, c_done = t'\<rparr>]) (length (calls r))"
  unfolding justified_def
proof
  let ?cs = "calls r @ [\<lparr>c_tool = tool, c_start = now r, c_done = t'\<rparr>]"
  assume "restricted rs (c_tool (?cs ! length (calls r)))"
  with assms(3) obtain ru where ru: "ru \<in> set (rules_for rs tool)"
    and "live tv (bag r (Prerequisite ru)) \<noteq> []" by (auto simp: allowed_def)
  then obtain e where "e \<in> set (bag r (Prerequisite ru))" "tv < snd e"
    by (auto simp: live_def filter_empty_conv)
  with assms(1) obtain c where c: "c \<in> set (calls r)" "c_tool c = Prerequisite ru"
    "snd e \<le> c_done c + rule_expiry rs (Prerequisite ru)" unfolding tokens_from_calls_def by blast
  then obtain j where "j < length (calls r)" "calls r ! j = c" by (auto simp: in_set_conv_nth)
  with c ru \<open>tv < snd e\<close> assms(2)
  show "\<exists>ru\<in>set (rules_for rs (c_tool (?cs ! length (calls r)))). \<exists>j<length (calls r).
          c_tool (?cs ! j) = Prerequisite ru \<and>
          c_start (?cs ! length (calls r)) < c_done (?cs ! j) + rule_expiry rs (Prerequisite ru)"
    by (auto simp: nth_append intro!: bexI[of _ ru] exI[of _ j])
qed

lemma reach_justified: "ratchet_reach rs uniq r \<Longrightarrow> i < length (calls r) \<Longrightarrow> justified rs (calls r) i"
proof (induction arbitrary: i rule: ratchet_reach.induct)
  case (start t)
  then show ?case by (simp add: init_ratchet_def)
next
  case (step r r')
  from step.hyps(2) show ?case
  proof cases
    case (success tv tool tc ti t' tok)
    show ?thesis
    proof (cases "i < length (calls r)")
      case True
      with step.IH success(1) show ?thesis by (simp add: justified_append)
    next
      case False
      with step.prems success(1) have "i = length (calls r)" by simp
      with allowed_justified[OF reach_tokens_from_calls[OF step.hyps(1)]] success show ?thesis by simp
    qed
  next
    case (pass t')
    with step show ?thesis by simp
  qed
qed

section \<open>Circles are dead\<close>

lemma dead_circle:
  assumes "ratchet_reach rs uniq r"
    and circle: "\<And>tool. tool \<in> S \<Longrightarrow> restricted rs tool \<and> Prerequisite ` set (rules_for rs tool) \<subseteq> S"
  shows "i < length (calls r) \<Longrightarrow> c_tool (calls r ! i) \<notin> S"
proof (induction i rule: less_induct)
  case (less i)
  show ?case
  proof
    assume S: "c_tool (calls r ! i) \<in> S"
    with reach_justified[OF assms(1) less.prems] circle obtain ru j where
      "ru \<in> set (rules_for rs (c_tool (calls r ! i)))" "j < i" "c_tool (calls r ! j) = Prerequisite ru"
      by (auto simp: justified_def)
    with circle[OF S] less show False by auto
  qed
qed

section \<open>One-time use\<close>

definition times_called :: "ToolName \<Rightarrow> ratchet \<Rightarrow> nat" where
  "times_called tool r = count_list (map c_tool (calls r)) tool"

definition distinct_tokens :: "ratchet \<Rightarrow> bool" where
  "distinct_tokens r \<longleftrightarrow> (\<forall>p. distinct (map fst (bag r p)))"

lemma distinct_remove_first: "distinct (map f xs) \<Longrightarrow> distinct (map f (remove_first P xs))"
  using set_remove_first_subset by (induction xs) fastforce+

lemma consume_distinct: "distinct (map fst (b p)) \<Longrightarrow> distinct (map fst (consume rs tool t b p))"
  by (auto simp: consume_def intro: distinct_remove_first split: option.splits)

lemma step_distinct_tokens:
  "ratchet_step rs True r r' \<Longrightarrow> distinct_tokens r \<Longrightarrow> distinct_tokens r'"
proof (erule ratchet_stepE, goal_cases)
  case (1 tv tool tc ti t' tok)
  show ?case unfolding distinct_tokens_def
  proof
    fix p
    have d: "distinct (map fst (consume rs tool tc (bag r) p))"
      using 1(1) consume_distinct by (simp add: distinct_tokens_def)
    show "distinct (map fst (bag r' p))"
    proof (cases "tok = None \<or> p \<noteq> tool")
      case True
      with d 1(2) show ?thesis by (auto simp: mint_def split: option.splits)
    next
      case False
      then obtain tk where tk: "tok = Some tk" "p = tool" by auto
      with 1(8)[OF TrueI] have "tk \<notin> fst ` set (bag r tool)" by auto
      then have "tk \<notin> fst ` set (consume rs tool tc (bag r) tool)"
        using consume_subset[of rs tool tc "bag r" tool] by auto
      with d tk 1(2) show ?thesis by (simp add: mint_def)
    qed
  qed
qed (simp add: distinct_tokens_def)

lemma live_consume_le: "length (live t (consume rs tool tc b p)) \<le> length (live t (b p))"
proof -
  have "length (live t (remove_first P xs)) \<le> length (live t xs)" for P xs
    by (induction xs) auto
  then show ?thesis by (auto simp: consume_def split: option.splits)
qed

text \<open>Calling a tool with a one-time-use rule costs a live token of its prerequisite.\<close>

lemma live_consume_less:
  assumes rule: "first_rule rs tool = Some ru" "Prerequisite ru \<noteq> ''''" "OneTimeUse ru"
    and distinct: "distinct (map fst (b (Prerequisite ru)))"
    and times: "t \<le> tv" "tv \<le> tc" "tc \<le> t'" and live: "live tv (b (Prerequisite ru)) \<noteq> []"
  shows "length (live t' (consume rs tool tc b (Prerequisite ru))) < length (live t (b (Prerequisite ru)))"
proof -
  let ?es = "b (Prerequisite ru)" and ?es' = "consume rs tool tc b (Prerequisite ru)"
  have le: "length (live tv ?es) \<le> length (live t ?es)" "length (live tc ?es) \<le> length (live t ?es)"
    "length (live t' ?es') \<le> length (live tc ?es')"
    using times by (auto intro: length_live_later)
  show ?thesis
  proof (cases "live tc ?es = []")
    case True
    with rule have "?es' = ?es" by (simp add: consume_def spent_def)
    with True le live show ?thesis by (auto simp: less_le_trans[OF _ le(1)])
  next
    case False
    with rule have "?es' = remove_first (\<lambda>e. fst e = last (live tc ?es)) ?es"
      by (simp add: consume_def spent_def)
    with False distinct have "length (live tc ?es') = length (live tc ?es) - 1"
      by (simp add: live_remove_length)
    with False le show ?thesis by (cases "live tc ?es") auto
  qed
qed

lemma mint_other: "p \<noteq> tool \<Longrightarrow> mint rs tool t tok b p = b p"
  by (simp add: mint_def split: option.splits)

lemma length_live_mint: "length (live t (mint rs tool ti tok b p)) \<le> length (live t (b p)) + (if p = tool then 1 else 0)"
  by (auto simp: mint_def split: option.splits)

text \<open>
  The invariant: the live tokens of the prerequisite and the calls they have paid for are at most
  the calls of the prerequisite.
\<close>

definition paid :: "ToolName \<Rightarrow> ToolName \<Rightarrow> ratchet \<Rightarrow> bool" where
  "paid tool p r \<longleftrightarrow> length (live (now r) (bag r p)) + times_called tool r \<le> times_called p r"

lemma step_paid:
  assumes step: "ratchet_step rs True r r'" and distinct: "distinct_tokens r"
    and rule: "rules_for rs tool = [ru]" "Prerequisite ru \<noteq> ''''" "OneTimeUse ru" "Prerequisite ru \<noteq> tool"
    and paid: "paid tool (Prerequisite ru) r"
  shows "paid tool (Prerequisite ru) r'"
  using step
proof cases
  case (success tv tl tc ti t' tok)
  let ?p = "Prerequisite ru" and ?b = "consume rs tl tc (bag r)"
  have fr: "first_rule rs tool = Some ru"
    using rule(1) by (simp add: first_rule_hd)
  have called: "times_called x r' = times_called x r + (if tl = x then 1 else 0)" for x
    by (simp add: times_called_def success(1))
  have later: "length (live t' (?b ?p)) \<le> length (live (now r) (bag r ?p))"
    using live_consume_le[of t' rs tl tc "bag r" ?p] length_live_later[of "now r" t' "bag r ?p"] success
    by simp
  have minted: "length (live t' (bag r' ?p)) \<le> length (live t' (?b ?p)) + (if ?p = tl then 1 else 0)"
    using length_live_mint success(1) by simp
  show ?thesis
  proof (cases "tl = tool")
    case True
    have "restricted rs tool" using rule by (simp add: restricted_def)
    with success(3) True rule(1) have "live tv (bag r ?p) \<noteq> []" by (auto simp: allowed_def)
    with live_consume_less[OF fr rule(2,3), of "bag r" "now r" tv tc t'] distinct success True
    have "length (live t' (?b ?p)) < length (live (now r) (bag r ?p))"
      by (simp add: distinct_tokens_def)
    with minted paid called True rule(4) success(1) show ?thesis by (simp add: paid_def)
  next
    case False
    with minted later paid called success(1) show ?thesis by (auto simp: paid_def)
  qed
next
  case (pass t')
  with paid length_live_later[of "now r" t' "bag r (Prerequisite ru)"] show ?thesis
    by (simp add: paid_def times_called_def)
qed

lemma reach_paid:
  assumes rule: "rules_for rs tool = [ru]" "Prerequisite ru \<noteq> ''''" "OneTimeUse ru" "Prerequisite ru \<noteq> tool"
  shows "ratchet_reach rs True r \<Longrightarrow> distinct_tokens r \<and> paid tool (Prerequisite ru) r"
proof (induction rule: ratchet_reach.induct)
  case (start t)
  then show ?case by (simp add: distinct_tokens_def paid_def init_ratchet_def times_called_def)
next
  case (step r r')
  then show ?case using step_distinct_tokens step_paid[OF _ _ rule] by blast
qed

section \<open>The latest token is the last to expire\<close>

text \<open>
  Tokens of a tool expire in the order they were issued. So the last valid one is the last one
  stored, and consuming takes it from the end of the list.
\<close>

definition bag_sorted :: "Rule list \<Rightarrow> ratchet \<Rightarrow> bool" where
  "bag_sorted rs r \<longleftrightarrow>
     (\<forall>p. sorted (map snd (bag r p)) \<and> (\<forall>e\<in>set (bag r p). snd e \<le> now r + rule_expiry rs p))"

lemma sorted_remove_first: "sorted (map f xs) \<Longrightarrow> sorted (map f (remove_first P xs))"
  using set_remove_first_subset by (induction xs) fastforce+

lemma consume_sorted: "sorted (map snd (b p)) \<Longrightarrow> sorted (map snd (consume rs tool t b p))"
  by (auto simp: consume_def intro: sorted_remove_first split: option.splits)

lemma step_bag_sorted:
  assumes "ratchet_step rs uniq r r'" and inv: "bag_sorted rs r"
  shows "bag_sorted rs r'"
  using assms(1)
proof cases
  case (success tv tool tc ti t' tok)
  let ?b = "consume rs tool tc (bag r)"
  have old: "sorted (map snd (?b p))" "\<forall>e\<in>set (?b p). snd e \<le> now r + rule_expiry rs p" for p
    using inv consume_subset[of rs tool tc "bag r" p] by (auto simp: bag_sorted_def intro: consume_sorted)
  have le: "now r \<le> ti" "ti \<le> t'" using success by simp_all
  show ?thesis unfolding bag_sorted_def
  proof
    fix p
    have "\<forall>e\<in>set (?b p). snd e \<le> ti + rule_expiry rs p" "\<forall>e\<in>set (?b p). snd e \<le> t' + rule_expiry rs p"
      using old(2)[of p] le by fastforce+
    with old(1)[of p] le show "sorted (map snd (bag r' p)) \<and> (\<forall>e\<in>set (bag r' p). snd e \<le> now r' + rule_expiry rs p)"
      using success(1) by (auto simp: mint_def sorted_append split: option.splits)
  qed
next
  case (pass t')
  with inv show ?thesis by (fastforce simp: bag_sorted_def)
qed

lemma reach_bag_sorted: "ratchet_reach rs uniq r \<Longrightarrow> bag_sorted rs r"
proof (induction rule: ratchet_reach.induct)
  case (start t)
  then show ?case by (simp add: bag_sorted_def init_ratchet_def)
next
  case (step r r')
  then show ?case by (blast intro: step_bag_sorted)
qed

lemma reach_distinct_tokens: "ratchet_reach rs True r \<Longrightarrow> distinct_tokens r"
proof (induction rule: ratchet_reach.induct)
  case (start t)
  then show ?case by (simp add: distinct_tokens_def init_ratchet_def)
next
  case (step r r')
  then show ?case by (blast intro: step_distinct_tokens)
qed

lemma live_last:
  assumes "sorted (map snd es)" and "live t es \<noteq> []"
  shows "last (live t es) = fst (last es)" and "es \<noteq> []"
proof -
  from assms(2) show "es \<noteq> []" by auto
  then obtain ys e where es: "es = ys @ [e]" by (metis append_butlast_last_id)
  have "t < snd e"
  proof (rule ccontr)
    assume "\<not> t < snd e"
    with assms(1) es have "\<forall>x\<in>set es. \<not> t < snd x" by (auto simp: sorted_append)
    with assms(2) show False by (simp add: live_def filter_empty_conv)
  qed
  with es show "last (live t es) = fst (last es)" by simp
qed

lemma remove_last_distinct:
  "es \<noteq> [] \<Longrightarrow> distinct (map fst es) \<Longrightarrow> remove_first (\<lambda>e. fst e = fst (last es)) es = butlast es"
  by (induction es rule: rev_induct) (auto simp: remove_first_append image_iff)

lemma consume_butlast:
  assumes "bag_sorted rs r" and "distinct_tokens r"
  shows "consume rs tool t (bag r) =
     (case spent rs tool t (bag r) of None \<Rightarrow> bag r | Some p \<Rightarrow> (bag r)(p := butlast (bag r p)))"
proof (cases "spent rs tool t (bag r)")
  case None
  then show ?thesis by (simp add: consume_def)
next
  case (Some p)
  then have "live t (bag r p) \<noteq> []" by (auto simp: spent_Some_iff)
  with assms have "last (live t (bag r p)) = fst (last (bag r p))" "bag r p \<noteq> []"
    using live_last by (auto simp: bag_sorted_def)
  with Some assms(2) show ?thesis by (simp add: consume_def remove_last_distinct distinct_tokens_def)
qed

end
