(* ===== verification/WrapperLaws.thy ===== *)
theory WrapperLaws
  imports Wrapper RatchetSpec
begin

text \<open>
  What a wrapped call does to the stores, for stores that keep their contracts: the phases of the
  handler first, then the whole call. The effect is stated with the operations of the machine of
  \<open>RatchetSpec\<close> (\<open>allowed\<close>, \<open>consume\<close>, \<open>mint\<close>), and a run of wrapped calls is shown to be a run
  of that machine.
\<close>

section \<open>The rules of the machine are those of the service\<close>

lemma rules_for_findRules: "rules_for (rules svc) tool = findRules svc tool"
  by (simp add: rules_for_def findRules_filter)

lemma first_rule_findRule: "first_rule (rules svc) tool = findRule svc tool"
  by (simp add: first_rule_def findRule_def)

lemma rule_expiry_token_expiry: "rule_expiry (rules svc) tool = token_expiry svc tool"
  by (simp add: rule_expiry_def token_expiry_def first_rule_findRule split: option.splits)

section \<open>The state the ratchet keeps\<close>

text \<open>
  What the outside can see of it: the history and the token list of each session, the entries of
  the token store.
\<close>

lemma history_of_upd [simp]:
  "history_of (S(sid \<mapsto> s)) sid' = (if sid' = sid then ToolHistory s else history_of S sid')"
  by (simp add: history_of_def)

lemma tokens_in_upd [simp]:
  "tokens_in (S(sid \<mapsto> s)) h sid' = (if sid' = sid then session_tokens h s else tokens_in S h sid')"
  by (auto simp: tokens_in_def)

lemma tokens_in_found: "S sid = Some s \<Longrightarrow> tokens_in S h sid = session_tokens h s"
  by (simp add: tokens_in_def fun_eq_iff)

text \<open>The token the generator gives, if it gives one.\<close>

definition issued ::
  "('ts, 'ss, 'rg, 'es) RatchetServiceImpl \<Rightarrow> ('ts, 'ss, 'rg, 'es) world \<Rightarrow> TokenValue option" where
  "issued svc w =
     (case fst (rg_GenerateToken (randomGen svc) (w_rg w)) of Inl _ \<Rightarrow> None | Inr tok \<Rightarrow> Some tok)"

text \<open>The session's token lists after spending and issuing.\<close>

definition add_token :: "ToolName \<Rightarrow> TokenValue option \<Rightarrow> (ToolName \<Rightarrow> TokenValue list) \<Rightarrow> ToolName \<Rightarrow> TokenValue list" where
  "add_token tool tok m = (case tok of None \<Rightarrow> m | Some tk \<Rightarrow> m(tool := m tool @ [tk]))"

definition drop_token :: "ToolName option \<Rightarrow> (ToolName \<Rightarrow> TokenValue list) \<Rightarrow> ToolName \<Rightarrow> TokenValue list" where
  "drop_token sp m = (case sp of None \<Rightarrow> m | Some p \<Rightarrow> m(p := butlast (m p)))"

text \<open>The state of the machine that a world stands for; \<open>entries\<close> reads the token store.\<close>

definition ratchet_view ::
  "('ts \<Rightarrow> SessionID \<Rightarrow> ToolName \<Rightarrow> (TokenValue \<times> time) list) \<Rightarrow> call list \<Rightarrow>
   ('ts, 'ss, 'rg, 'es) world \<Rightarrow> ratchet" where
  "ratchet_view entries log w =
     \<lparr>now = w_wall w (w_reads w), calls = log, bag = entries (w_ts w) demo_session\<rparr>"

context ratchet_service
begin

subsection \<open>Phases\<close>

lemma wrap_session_result:
  assumes ok: "sessions_ok (sess (w_ss w)) (w_heap w)"
    and eq: "wrap_session svc (sessionStore svc) w = (s, w1)"
  shows "sess (w_ss w1) demo_session = Some s" and "sessions_ok (sess (w_ss w1)) (w_heap w1)"
    and "history_of (sess (w_ss w1)) = history_of (sess (w_ss w))"
    and "tokens_in (sess (w_ss w1)) (w_heap w1) = tokens_in (sess (w_ss w)) (w_heap w)"
    and "w_ts w1 = w_ts w" and "w_rg w1 = w_rg w" and "w_wall w1 = w_wall w"
    and "w_reads w \<le> w_reads w1"
proof -
  have "sess (w_ss w1) demo_session = Some s \<and> sessions_ok (sess (w_ss w1)) (w_heap w1) \<and>
    history_of (sess (w_ss w1)) = history_of (sess (w_ss w)) \<and>
    tokens_in (sess (w_ss w1)) (w_heap w1) = tokens_in (sess (w_ss w)) (w_heap w) \<and>
    w_ts w1 = w_ts w \<and> w_rg w1 = w_rg w \<and> w_wall w1 = w_wall w \<and> w_reads w \<le> w_reads w1"
  proof (cases "sess (w_ss w) demo_session")
    case (Some s')
    with eq ok show ?thesis by (simp add: wrap_session_unfold ss.get_sess)
  next
    case None
    note cs = CreateSession_fresh[OF None]
    let ?s = "\<lparr>ID = demo_session, Tokens = next_map (w_heap w), ToolHistory = [],
                 CreatedAt = w_wall w (w_reads w)\<rparr>"
    from eq None cs(1) have "s = ?s" and w1: "w1 = snd (CreateSession svc demo_session w)"
      by (auto simp: wrap_session_unfold ss.get_sess split: prod.splits)
    moreover have "tokens_in ((sess (w_ss w))(demo_session \<mapsto> ?s)) (snd (alloc_map (w_heap w))) =
        tokens_in (sess (w_ss w)) (w_heap w)"
      using None ok by (auto simp: fun_eq_iff tokens_in_def session_tokens_def dest: sessions_okD
          split: option.splits)
    moreover have "history_of ((sess (w_ss w))(demo_session \<mapsto> ?s)) = history_of (sess (w_ss w))"
      using None by (auto simp: fun_eq_iff history_of_def)
    ultimately show ?thesis
      using cs CreateSession_reads_le[of w svc demo_session]
        sessions_ok_new[OF ok None, of ?s] by simp
  qed
  then show "sess (w_ss w1) demo_session = Some s" "sessions_ok (sess (w_ss w1)) (w_heap w1)"
    "history_of (sess (w_ss w1)) = history_of (sess (w_ss w))"
    "tokens_in (sess (w_ss w1)) (w_heap w1) = tokens_in (sess (w_ss w)) (w_heap w)"
    "w_ts w1 = w_ts w" "w_rg w1 = w_rg w" "w_wall w1 = w_wall w" "w_reads w \<le> w_reads w1" by simp_all
qed

lemma validate_loop_allows:
  "\<forall>r\<in>set rs. Prerequisite r \<noteq> '''' \<Longrightarrow> fst (validate_loop svc sid tool tok s rs le w) = Return None \<Longrightarrow>
   \<exists>r\<in>set rs. \<exists>n. Prerequisite r \<in> set (ToolHistory s) \<and> w_reads w \<le> n \<and>
     n \<le> w_reads (snd (validate_loop svc sid tool tok s rs le w)) \<and>
     live (w_wall w n) (entries (w_ts w) sid (Prerequisite r)) \<noteq> []"
proof (induction rs arbitrary: le w)
  case Nil
  then show ?case by (simp split: option.splits)
next
  case (Cons r rs)
  let ?w = "w\<lparr>w_reads := Suc (w_reads w)\<rparr>"
  show ?case
  proof (cases "Prerequisite r \<in> set (ToolHistory s)")
    case False
    with Cons.prems Cons.IH[of _ w] show ?thesis by simp
  next
    case called: True
    show ?thesis
    proof (cases "live (w_wall w (w_reads w)) (entries (w_ts w) sid (Prerequisite r)) = []")
      case True
      with Cons.prems called Cons.IH[of _ ?w] show ?thesis
        by (fastforce simp: Let_def time_Now_def ts.valid_tokens)
    next
      case False
      with Cons.prems called show ?thesis
        by (auto simp: Let_def time_Now_def ts.valid_tokens)
    qed
  qed
qed

lemma ValidateToolCall_allows:
  assumes ret: "fst (ValidateToolCall svc sid tool tok w) = Return None"
    and restricted: "restricted (rules svc) tool"
  obtains r n s where "r \<in> set (rules_for (rules svc) tool)" and "sess (w_ss w) sid = Some s"
    and "Prerequisite r \<in> set (ToolHistory s)"
    and "w_reads w \<le> n" and "n \<le> w_reads (snd (ValidateToolCall svc sid tool tok w))"
    and "live (w_wall w n) (entries (w_ts w) sid (Prerequisite r)) \<noteq> []"
proof -
  let ?w = "emitEvent svc EventTypeToolCallAttempt sid tool tok Map.empty w"
  let ?rs = "findRules svc tool"
  have rs: "?rs \<noteq> []" "\<forall>r\<in>set ?rs. Prerequisite r \<noteq> ''''"
    using restricted by (simp_all add: restricted_def rules_for_findRules)
  with ret obtain s where s: "sess (w_ss w) sid = Some s" "sid \<noteq> ''''"
    by (auto simp: ValidateToolCall_result Let_def split: option.splits if_splits)
  with rs have eq: "ValidateToolCall svc sid tool tok w = validate_loop svc sid tool tok s ?rs None ?w"
    by (auto simp: ValidateToolCall_def Let_def list_ex_iff ss.get_sess)
  from validate_loop_allows[OF rs(2), of sid tool tok s None ?w] ret[unfolded eq] obtain r n
    where "r \<in> set ?rs" "Prerequisite r \<in> set (ToolHistory s)" "w_reads ?w \<le> n"
      "n \<le> w_reads (snd (validate_loop svc sid tool tok s ?rs None ?w))"
      "live (w_wall w n) (entries (w_ts w) sid (Prerequisite r)) \<noteq> []" by auto
  with s show thesis by (intro that[of r s n]) (simp_all add: rules_for_findRules eq)
qed

lemma Consume_effect:
  fixes tool :: ToolName
  assumes ok: "sessions_ok (sess (w_ss w)) (w_heap w)" and found: "sess (w_ss w) sid = Some s"
  defines "w' \<equiv> snd (ConsumePrerequisiteToken svc sid tool w)"
    and "sp \<equiv> spent (rules svc) tool (w_wall w (w_reads w)) (entries (w_ts w) sid)"
  shows "entries (w_ts w') sid = consume (rules svc) tool (w_wall w (w_reads w)) (entries (w_ts w) sid)"
    and "sid' \<noteq> sid \<Longrightarrow> entries (w_ts w') sid' = entries (w_ts w) sid'"
    and "sess (w_ss w') = sess (w_ss w)" and "sessions_ok (sess (w_ss w')) (w_heap w')"
    and "tokens_in (sess (w_ss w')) (w_heap w') sid =
      (case sp of None \<Rightarrow> tokens_in (sess (w_ss w)) (w_heap w) sid
       | Some p \<Rightarrow> (tokens_in (sess (w_ss w)) (w_heap w) sid)
                     (p := butlast (tokens_in (sess (w_ss w)) (w_heap w) sid p)))"
    and "w_rg w' = w_rg w" and "w_wall w' = w_wall w"
proof -
  let ?t = "w_wall w (w_reads w)" and ?es = "entries (w_ts w) sid"
  have id: "ID s = sid" using sessions_okD[OF ok found] by simp
  have *: "entries (w_ts w') sid = consume (rules svc) tool ?t ?es \<and>
    (sid' \<noteq> sid \<longrightarrow> entries (w_ts w') sid' = entries (w_ts w) sid') \<and>
    sess (w_ss w') = sess (w_ss w) \<and> next_map (w_heap w') = next_map (w_heap w) \<and>
    session_tokens (w_heap w') s =
      (case sp of None \<Rightarrow> session_tokens (w_heap w) s
       | Some p \<Rightarrow> (session_tokens (w_heap w) s)(p := butlast (session_tokens (w_heap w) s p))) \<and>
    w_rg w' = w_rg w \<and> w_wall w' = w_wall w"
  proof (cases sp)
    case (Some p)
    then obtain r where r: "findRule svc tool = Some r" "Prerequisite r \<noteq> ''''" "OneTimeUse r"
      and p: "p = Prerequisite r" and live: "live ?t (?es (Prerequisite r)) \<noteq> []"
      unfolding sp_def spent_Some_iff first_rule_findRule by blast
    note res = Consume_result[OF r found id live, folded w'_def]
    have "consume (rules svc) tool ?t ?es = ?es(p := remove_first (\<lambda>e. fst e = last (live ?t (?es p))) (?es p))"
      using Some by (simp add: consume_def sp_def)
    moreover have "entries (w_ts w') sid = ?es(p := remove_first (\<lambda>e. fst e = last (live ?t (?es p))) (?es p))"
      by (rule ext) (simp only: res(2) p fun_upd_apply simp_thms if_True split: if_split)
    moreover have "sid' \<noteq> sid \<longrightarrow> entries (w_ts w') sid' = entries (w_ts w) sid'"
      by (intro impI ext) (simp only: res(2) if_False simp_thms)
    moreover have "session_tokens (w_heap w') s =
        (session_tokens (w_heap w) s)(p := butlast (session_tokens (w_heap w) s p))"
      by (rule ext) (simp only: res(3) p fun_upd_apply simp_thms split: if_split)
    ultimately show ?thesis using Some res(4-7) by (simp only: option.case simp_thms)
  next
    case None
    have same: "core w' = core w"
    proof (cases "\<exists>r. findRule svc tool = Some r \<and> Prerequisite r \<noteq> '''' \<and> OneTimeUse r")
      case True
      then obtain r where r: "findRule svc tool = Some r" "Prerequisite r \<noteq> ''''" "OneTimeUse r" by blast
      with None have "live ?t (?es (Prerequisite r)) = []"
        by (simp add: sp_def spent_def first_rule_findRule split: if_splits)
      with r show ?thesis unfolding w'_def by (intro Consume_none_valid(2))
    next
      case False
      then show ?thesis unfolding w'_def by (subst Consume_noop) auto
    qed
    with None show ?thesis by (simp add: core_eq_iff consume_def sp_def)
  qed
  then have sess: "sess (w_ss w') = sess (w_ss w)" and found': "sess (w_ss w') sid = Some s"
    using found by simp_all
  show "sessions_ok (sess (w_ss w')) (w_heap w')"
    unfolding sess by (rule sessions_ok_heap[OF ok]) (use * in simp)
  from * show "entries (w_ts w') sid = consume (rules svc) tool ?t ?es"
    "sid' \<noteq> sid \<Longrightarrow> entries (w_ts w') sid' = entries (w_ts w) sid'"
    "sess (w_ss w') = sess (w_ss w)"
    "tokens_in (sess (w_ss w')) (w_heap w') sid =
      (case sp of None \<Rightarrow> tokens_in (sess (w_ss w)) (w_heap w) sid
       | Some p \<Rightarrow> (tokens_in (sess (w_ss w)) (w_heap w) sid)
                     (p := butlast (tokens_in (sess (w_ss w)) (w_heap w) sid p)))"
    "w_rg w' = w_rg w" "w_wall w' = w_wall w"
    by (simp_all cong: option.case_cong add: tokens_in_found[where S = "sess (w_ss w)" and s = s] found
        tokens_in_found[where S = "sess (w_ss w')" and s = s] found')
qed

lemma Consume_never_fails:
  fixes tool :: ToolName
  assumes ok: "sessions_ok (sess (w_ss w)) (w_heap w)" and found: "sess (w_ss w) sid = Some s"
  shows "fst (ConsumePrerequisiteToken svc sid tool w) = None"
proof (cases "spent (rules svc) tool (w_wall w (w_reads w)) (entries (w_ts w) sid)")
  case (Some p)
  then obtain r where r: "findRule svc tool = Some r" "Prerequisite r \<noteq> ''''" "OneTimeUse r"
    and live: "live (w_wall w (w_reads w)) (entries (w_ts w) sid (Prerequisite r)) \<noteq> []"
    unfolding spent_Some_iff first_rule_findRule by blast
  have "ID s = sid" using sessions_okD[OF ok found] by simp
  from Consume_result(1)[OF r found this live] show ?thesis .
next
  case None
  show ?thesis
  proof (cases "\<exists>r. findRule svc tool = Some r \<and> Prerequisite r \<noteq> '''' \<and> OneTimeUse r")
    case True
    then obtain r where r: "findRule svc tool = Some r" "Prerequisite r \<noteq> ''''" "OneTimeUse r" by blast
    with None have "live (w_wall w (w_reads w)) (entries (w_ts w) sid (Prerequisite r)) = []"
      by (simp add: spent_def first_rule_findRule split: if_splits)
    with r show ?thesis by (intro Consume_none_valid(1))
  next
    case False
    then show ?thesis by (subst Consume_noop) auto
  qed
qed

lemma Issue_effect:
  fixes tool :: ToolName
  assumes ok: "sessions_ok (sess (w_ss w)) (w_heap w)" and found: "sess (w_ss w) sid = Some s"
  defines "w' \<equiv> snd (IssueToken svc sid tool w)" and "t \<equiv> ck_Now (clock svc) (w_wall w (w_reads w))"
  shows "entries (w_ts w') sid = mint (rules svc) tool t (issued svc w) (entries (w_ts w) sid)"
    and "sid' \<noteq> sid \<Longrightarrow> entries (w_ts w') sid' = entries (w_ts w) sid'"
    and "sess (w_ss w') = sess (w_ss w)" and "sessions_ok (sess (w_ss w')) (w_heap w')"
    and "tokens_in (sess (w_ss w')) (w_heap w') sid =
      (case issued svc w of None \<Rightarrow> tokens_in (sess (w_ss w)) (w_heap w) sid
       | Some tok \<Rightarrow> (tokens_in (sess (w_ss w)) (w_heap w) sid)
                     (tool := tokens_in (sess (w_ss w)) (w_heap w) sid tool @ [tok]))"
    and "w_rg w' = snd (rg_GenerateToken (randomGen svc) (w_rg w))" and "w_wall w' = w_wall w"
proof -
  have id: "ID s = sid" using sessions_okD[OF ok found] by simp
  obtain res rg where gen: "rg_GenerateToken (randomGen svc) (w_rg w) = (res, rg)" by fastforce
  have *: "entries (w_ts w') sid = mint (rules svc) tool t (issued svc w) (entries (w_ts w) sid) \<and>
    (sid' \<noteq> sid \<longrightarrow> entries (w_ts w') sid' = entries (w_ts w) sid') \<and>
    sess (w_ss w') = sess (w_ss w) \<and> next_map (w_heap w') = next_map (w_heap w) \<and>
    session_tokens (w_heap w') s =
      (case issued svc w of None \<Rightarrow> session_tokens (w_heap w) s
       | Some tok \<Rightarrow> (session_tokens (w_heap w) s)(tool := session_tokens (w_heap w) s tool @ [tok])) \<and>
    w_rg w' = rg \<and> w_wall w' = w_wall w"
  proof (cases res)
    case (Inl err)
    with gen have "w' = w\<lparr>w_rg := rg\<rparr>" by (simp add: w'_def IssueToken_no_entropy)
    with gen Inl show ?thesis by (simp add: issued_def mint_def)
  next
    case (Inr tok)
    with gen have g: "rg_GenerateToken (randomGen svc) (w_rg w) = (Inr tok, rg)" by simp
    note res = IssueToken_result[OF g found id, where tool = tool, folded w'_def t_def]
    with g show ?thesis
      by (simp add: issued_def mint_def fun_eq_iff rule_expiry_token_expiry)
  qed
  then have sess: "sess (w_ss w') = sess (w_ss w)" and found': "sess (w_ss w') sid = Some s"
    using found by simp_all
  show "sessions_ok (sess (w_ss w')) (w_heap w')"
    unfolding sess by (rule sessions_ok_heap[OF ok]) (use * in simp)
  from * gen show "entries (w_ts w') sid = mint (rules svc) tool t (issued svc w) (entries (w_ts w) sid)"
    "sid' \<noteq> sid \<Longrightarrow> entries (w_ts w') sid' = entries (w_ts w) sid'"
    "sess (w_ss w') = sess (w_ss w)"
    "tokens_in (sess (w_ss w')) (w_heap w') sid =
      (case issued svc w of None \<Rightarrow> tokens_in (sess (w_ss w)) (w_heap w) sid
       | Some tok \<Rightarrow> (tokens_in (sess (w_ss w)) (w_heap w) sid)
                     (tool := tokens_in (sess (w_ss w)) (w_heap w) sid tool @ [tok]))"
    "w_rg w' = snd (rg_GenerateToken (randomGen svc) (w_rg w))" "w_wall w' = w_wall w"
    by (simp_all cong: option.case_cong add: tokens_in_found[where S = "sess (w_ss w)" and s = s] found
        tokens_in_found[where S = "sess (w_ss w')" and s = s] found')
qed

lemma record_effect:
  fixes tool :: ToolName
  assumes ok: "sessions_ok (sess (w_ss w)) (w_heap w)" and found: "sess (w_ss w) demo_session = Some s"
  defines "w' \<equiv> wrap_record (sessionStore svc) tool w"
  shows "sess (w_ss w') = (sess (w_ss w))(demo_session \<mapsto> RecordToolCall s tool)"
    and "sessions_ok (sess (w_ss w')) (w_heap w')"
    and "tokens_in (sess (w_ss w')) (w_heap w') = tokens_in (sess (w_ss w)) (w_heap w)"
    and "w_ts w' = w_ts w" and "w_rg w' = w_rg w" and "w_wall w' = w_wall w" and "w_reads w' = w_reads w"
proof -
  have id: "ID s = demo_session" using sessions_okD[OF ok found] by simp
  obtain st where upd: "ss_Update (sessionStore svc) (RecordToolCall s tool) (w_ss w) = (None, st)"
    using ss.update_ok by (metis prod.collapse)
  have st: "sess st = (sess (w_ss w))(demo_session \<mapsto> RecordToolCall s tool)"
    using ss.update_sess[of "RecordToolCall s tool" "w_ss w"] id by (simp add: upd)
  have w': "w' = w\<lparr>w_ss := st\<rparr>" by (simp add: w'_def wrap_record_def ss.get_sess found Let_def upd)
  show "sess (w_ss w') = (sess (w_ss w))(demo_session \<mapsto> RecordToolCall s tool)" by (simp add: w' st)
  show "sessions_ok (sess (w_ss w')) (w_heap w')"
    using sessions_ok_same_map[OF ok found, of "RecordToolCall s tool"] id by (simp add: w' st)
  show "tokens_in (sess (w_ss w')) (w_heap w') = tokens_in (sess (w_ss w)) (w_heap w)"
    using found by (auto simp: w' st fun_eq_iff tokens_in_def session_tokens_def)
  show "w_ts w' = w_ts w" "w_rg w' = w_rg w" "w_wall w' = w_wall w" "w_reads w' = w_reads w"
    by (simp_all add: w')
qed

subsection \<open>The whole call\<close>

lemma WrapWithRatchet_phases:
  assumes call: "WrapWithRatchet zero tool handler svc (sessionStore svc) input w = (Return (res, out, e), w')"
    and leaves: "leaves_ratchet handler" and ok: "sessions_ok (sess (w_ss w)) (w_heap w)"
  obtains (refused) "e \<noteq> None"
      "entries (w_ts w') = entries (w_ts w)" "history_of (sess (w_ss w')) = history_of (sess (w_ss w))"
      "tokens_in (sess (w_ss w')) (w_heap w') = tokens_in (sess (w_ss w)) (w_heap w)"
      "sessions_ok (sess (w_ss w')) (w_heap w')" "w_rg w' = w_rg w" "w_wall w' = w_wall w"
      "w_reads w \<le> w_reads w'"
  | (served) s w1 w3 where "e = None" "wrap_session svc (sessionStore svc) w = (s, w1)"
      "fst (ValidateToolCall svc demo_session tool (wrap_token tool s w1) w1) = Return None"
      "core w3 = core w1"
      "w_reads (snd (ValidateToolCall svc demo_session tool (wrap_token tool s w1) w1)) \<le> w_reads w3"
      "w' = wrap_record (sessionStore svc) tool (snd (IssueToken svc demo_session tool
              (snd (ConsumePrerequisiteToken svc demo_session tool w3))))"
proof -
  obtain s w1 where ws: "wrap_session svc (sessionStore svc) w = (s, w1)" by fastforce
  obtain v w2 where val: "ValidateToolCall svc demo_session tool (wrap_token tool s w1) w1 = (v, w2)"
    by fastforce
  obtain r out3 e3 w3 where h: "handler input w2 = ((r, out3, e3), w3)" by (metis surj_pair)
  have v: "v \<noteq> Panic" using ValidateToolCall_returns[of svc demo_session tool "wrap_token tool s w1" w1]
    by (simp add: val)
  have c2: "core w2 = core w1" "w_reads w1 \<le> w_reads w2"
    using ValidateToolCall_core[of svc demo_session tool "wrap_token tool s w1" w1]
      ValidateToolCall_reads_le[of w1 svc demo_session tool "wrap_token tool s w1"] by (simp_all add: val)
  have c3: "core w3 = core w2" "w_reads w2 \<le> w_reads w3"
    using leaves h unfolding leaves_ratchet_def by (metis snd_conv)+
  note res = wrap_session_result[OF ok ws]
  have same: thesis if "core w' = core w1" "w_reads w1 \<le> w_reads w'" "e \<noteq> None"
  proof (rule refused)
    show "e \<noteq> None" by fact
    have eqs: "w_ts w' = w_ts w1" "w_ss w' = w_ss w1" "w_heap w' = w_heap w1" "w_rg w' = w_rg w1"
      "w_wall w' = w_wall w1" using that(1) by (simp_all add: core_eq_iff)
    show "w_reads w \<le> w_reads w'" using res(8) that(2) by simp
  qed (use that(1) in \<open>simp_all only: core_eq_iff res\<close>)
  show thesis
  proof (cases v)
    case (Return ve)
    show ?thesis
    proof (cases "ve = None \<and> e3 = None")
      case True
      with call ws val h Return have "e = None"
        and w': "w' = wrap_record (sessionStore svc) tool (snd (IssueToken svc demo_session tool
              (snd (ConsumePrerequisiteToken svc demo_session tool w3))))"
        by (simp_all add: WrapWithRatchet_unfold Let_def split: prod.splits)
      with True Return ws val c2 c3 show ?thesis by (intro served[of s w1 w3]) simp_all
    next
      case False
      with call ws val h Return c2 c3 show ?thesis
        by (intro same) (auto simp: WrapWithRatchet_unfold split: option.splits)
    qed
  next
    case Panic
    with v show ?thesis by simp
  qed
qed

lemma wrapped_served:
  fixes tool :: ToolName
  assumes call: "WrapWithRatchet zero tool handler svc (sessionStore svc) input w = (Return (res, out, None), w')"
    and leaves: "leaves_ratchet handler" and ok: "sessions_ok (sess (w_ss w)) (w_heap w)"
    and log: "c_tool ` set log = set (history_of (sess (w_ss w)) demo_session)"
    and real: "\<And>t. ck_Now (clock svc) t = t"
  obtains nv nc ni where "w_reads w \<le> nv" "nv \<le> nc" "nc \<le> ni" "ni \<le> w_reads w'"
    and "allowed (rules svc) tool (w_wall w nv) (ratchet_view entries log w)"
    and "entries (w_ts w') demo_session = mint (rules svc) tool (w_wall w ni) (issued svc w)
           (consume (rules svc) tool (w_wall w nc) (entries (w_ts w) demo_session))"
    and "\<And>sid. sid \<noteq> demo_session \<Longrightarrow> entries (w_ts w') sid = entries (w_ts w) sid"
    and "tokens_in (sess (w_ss w')) (w_heap w') demo_session = add_token tool (issued svc w)
           (drop_token (spent (rules svc) tool (w_wall w nc) (entries (w_ts w) demo_session))
              (tokens_in (sess (w_ss w)) (w_heap w) demo_session))"
    and "history_of (sess (w_ss w')) =
           (history_of (sess (w_ss w)))(demo_session := history_of (sess (w_ss w)) demo_session @ [tool])"
    and "sessions_ok (sess (w_ss w')) (w_heap w')" and "w_wall w' = w_wall w"
    and "w_rg w' = snd (rg_GenerateToken (randomGen svc) (w_rg w))"
proof -
  from call leaves ok obtain s w1 w3 where ws: "wrap_session svc (sessionStore svc) w = (s, w1)"
    and val: "fst (ValidateToolCall svc demo_session tool (wrap_token tool s w1) w1) = Return None"
    and c3: "core w3 = core w1"
    and r3: "w_reads (snd (ValidateToolCall svc demo_session tool (wrap_token tool s w1) w1)) \<le> w_reads w3"
    and w': "w' = wrap_record (sessionStore svc) tool (snd (IssueToken svc demo_session tool
              (snd (ConsumePrerequisiteToken svc demo_session tool w3))))"
    by (elim WrapWithRatchet_phases) auto
  let ?w2 = "snd (ValidateToolCall svc demo_session tool (wrap_token tool s w1) w1)"
  let ?w4 = "snd (ConsumePrerequisiteToken svc demo_session tool w3)"
  let ?w5 = "snd (IssueToken svc demo_session tool ?w4)"
  note r1 = wrap_session_result[OF ok ws]
  have e3: "w_heap w3 = w_heap w1" "w_wall w3 = w_wall w1" "w_ts w3 = w_ts w1" "w_ss w3 = w_ss w1"
    "w_rg w3 = w_rg w1" using c3 by (simp_all add: core_eq_iff)
  have ok3: "sessions_ok (sess (w_ss w3)) (w_heap w3)" and f3: "sess (w_ss w3) demo_session = Some s"
    using r1 e3 by simp_all
  note r4 = Consume_effect[OF ok3 f3, where tool = tool]
  have f4: "sess (w_ss ?w4) demo_session = Some s" using r4(3) f3 by simp
  note r5 = Issue_effect[OF r4(4) f4, where tool = tool]
  have f5: "sess (w_ss ?w5) demo_session = Some s" using r5(3) f4 by simp
  note r6 = record_effect[OF r5(4) f5, where tool = tool, folded w']
  have iss: "issued svc ?w4 = issued svc w" by (simp add: issued_def r4(6) e3 r1(6))
  have hist: "set (ToolHistory s) = c_tool ` set log"
    using r1(1,3) log by (metis history_of_def option.simps(5))
  obtain nv where nv: "w_reads w \<le> nv" "nv \<le> w_reads w3"
    and allowed: "allowed (rules svc) tool (w_wall w nv) (ratchet_view entries log w)"
  proof (cases "restricted (rules svc) tool")
    case True
    from ValidateToolCall_allows[OF val True] obtain r n s' where
      r: "r \<in> set (rules_for (rules svc) tool)" "sess (w_ss w1) demo_session = Some s'"
      "Prerequisite r \<in> set (ToolHistory s')" "w_reads w1 \<le> n" "n \<le> w_reads ?w2"
      "live (w_wall w1 n) (entries (w_ts w1) demo_session (Prerequisite r)) \<noteq> []" by blast
    have "s' = s" using r(2) r1(1) by simp
    show ?thesis
    proof (rule that[of n])
      show "w_reads w \<le> n" "n \<le> w_reads w3" using r(4,5) r1(8) r3 by simp_all
      show "allowed (rules svc) tool (w_wall w n) (ratchet_view entries log w)"
        using r(1,3,6) \<open>s' = s\<close> hist r1(5,7) by (auto simp: allowed_def ratchet_view_def)
    qed
  next
    case False
    have "w_reads w \<le> w_reads w3"
      using r1(8) r3 ValidateToolCall_reads_le[of w1 svc demo_session tool "wrap_token tool s w1"] by simp
    with False show ?thesis by (intro that[of "w_reads w"]) (simp_all add: allowed_def)
  qed
  show thesis
  proof (rule that[of nv "w_reads w3" "w_reads ?w4"])
    show "w_reads w \<le> nv" "nv \<le> w_reads w3" "allowed (rules svc) tool (w_wall w nv) (ratchet_view entries log w)"
      by fact+
    show "w_reads w3 \<le> w_reads ?w4" by (rule Consume_reads_le)
    show "w_reads ?w4 \<le> w_reads w'" using IssueToken_reads_le r6(7) by simp
    show "entries (w_ts w') demo_session = mint (rules svc) tool (w_wall w (w_reads ?w4)) (issued svc w)
           (consume (rules svc) tool (w_wall w (w_reads w3)) (entries (w_ts w) demo_session))"
      by (simp only: r6(4) r5(1) iss real r4(1) r4(7) e3 r1(5) r1(7))
    show "entries (w_ts w') sid = entries (w_ts w) sid" if "sid \<noteq> demo_session" for sid
      by (simp only: r6(4) r5(2)[OF that] r4(2)[OF that] e3 r1(5))
    show "tokens_in (sess (w_ss w')) (w_heap w') demo_session = add_token tool (issued svc w)
           (drop_token (spent (rules svc) tool (w_wall w (w_reads w3)) (entries (w_ts w) demo_session))
              (tokens_in (sess (w_ss w)) (w_heap w) demo_session))"
      by (simp only: r6(3) r5(5) iss r4(5) e3 r1(4,5,7) add_token_def drop_token_def cong: option.case_cong)
    show "history_of (sess (w_ss w')) =
           (history_of (sess (w_ss w)))(demo_session := history_of (sess (w_ss w)) demo_session @ [tool])"
    proof -
      have "sess (w_ss w') = (sess (w_ss w1))(demo_session \<mapsto> RecordToolCall s tool)"
        by (simp only: r6(1) r5(3) r4(3) e3)
      moreover have "history_of (sess (w_ss w1)) demo_session = ToolHistory s"
        using r1(1) by (simp add: history_of_def)
      ultimately show ?thesis using r1(3) by (intro ext) (simp only: history_of_upd RecordToolCall_fields fun_upd_apply)
    qed
    show "sessions_ok (sess (w_ss w')) (w_heap w')" by (rule r6(2))
    show "w_wall w' = w_wall w" by (simp only: r6(6) r5(7) r4(7) e3 r1(7))
    show "w_rg w' = snd (rg_GenerateToken (randomGen svc) (w_rg w))"
      by (simp only: r6(5) r5(6) r4(6) e3 r1(6))
  qed
qed

text \<open>A wrapped call is a step of the machine, or time passes.\<close>

lemma wrapped_step:
  assumes call: "WrapWithRatchet zero tool handler svc (sessionStore svc) input w = (Return (res, out, e), w')"
    and leaves: "leaves_ratchet handler" and ok: "sessions_ok (sess (w_ss w)) (w_heap w)"
    and log: "map c_tool log = history_of (sess (w_ss w)) demo_session"
    and real: "\<And>t. ck_Now (clock svc) t = t" and mono: "mono (w_wall w)"
    and uniq: "\<And>tok t. uniq \<Longrightarrow> issued svc w = Some tok \<Longrightarrow> tok \<notin> fst ` set (entries (w_ts w) demo_session t)"
  defines "log' \<equiv> (if e = None
      then log @ [\<lparr>c_tool = tool, c_start = w_wall w (w_reads w), c_done = w_wall w' (w_reads w')\<rparr>] else log)"
  shows "ratchet_step (rules svc) uniq (ratchet_view entries log w) (ratchet_view entries log' w')"
    and "map c_tool log' = history_of (sess (w_ss w')) demo_session"
    and "sessions_ok (sess (w_ss w')) (w_heap w')" and "w_wall w' = w_wall w"
proof -
  have "ratchet_step (rules svc) uniq (ratchet_view entries log w) (ratchet_view entries log' w') \<and>
    map c_tool log' = history_of (sess (w_ss w')) demo_session \<and>
    sessions_ok (sess (w_ss w')) (w_heap w') \<and> w_wall w' = w_wall w"
    using call leaves ok
  proof (cases rule: WrapWithRatchet_phases)
    case refused
    have "ratchet_view entries log' w' = (ratchet_view entries log w)\<lparr>now := w_wall w (w_reads w')\<rparr>"
      using refused by (simp add: ratchet_view_def log'_def)
    moreover have "now (ratchet_view entries log w) \<le> w_wall w (w_reads w')"
      using mono refused(8) by (simp add: ratchet_view_def monoD)
    ultimately have "ratchet_step (rules svc) uniq (ratchet_view entries log w) (ratchet_view entries log' w')"
      using ratchet_step.pass by metis
    with refused log show ?thesis by (simp add: log'_def)
  next
    case served
    with call have call': "WrapWithRatchet zero tool handler svc (sessionStore svc) input w =
      (Return (res, out, None), w')" by simp
    from log have "c_tool ` set log = set (history_of (sess (w_ss w)) demo_session)"
      by (metis list.set_map)
    from wrapped_served[OF call' leaves ok this real] obtain nv nc ni where
      n: "w_reads w \<le> nv" "nv \<le> nc" "nc \<le> ni" "ni \<le> w_reads w'"
      and al: "allowed (rules svc) tool (w_wall w nv) (ratchet_view entries log w)"
      and en: "entries (w_ts w') demo_session = mint (rules svc) tool (w_wall w ni) (issued svc w)
           (consume (rules svc) tool (w_wall w nc) (entries (w_ts w) demo_session))"
      and rest: "history_of (sess (w_ss w')) =
           (history_of (sess (w_ss w)))(demo_session := history_of (sess (w_ss w)) demo_session @ [tool])"
        "sessions_ok (sess (w_ss w')) (w_heap w')" "w_wall w' = w_wall w" .
    have t: "w_wall w (w_reads w) \<le> w_wall w nv" "w_wall w nv \<le> w_wall w nc" "w_wall w nc \<le> w_wall w ni"
      "w_wall w ni \<le> w_wall w (w_reads w')" using mono n by (simp_all add: monoD)
    have "ratchet_step (rules svc) uniq (ratchet_view entries log w)
       \<lparr>now = w_wall w (w_reads w'), calls = calls (ratchet_view entries log w) @
          [\<lparr>c_tool = tool, c_start = now (ratchet_view entries log w), c_done = w_wall w (w_reads w')\<rparr>],
        bag = mint (rules svc) tool (w_wall w ni) (issued svc w)
                (consume (rules svc) tool (w_wall w nc) (bag (ratchet_view entries log w)))\<rparr>"
      using t al uniq by (intro ratchet_step.success) (simp_all add: ratchet_view_def)
    with en rest log served(1) show ?thesis by (simp add: ratchet_view_def log'_def)
  qed
  then show "ratchet_step (rules svc) uniq (ratchet_view entries log w) (ratchet_view entries log' w')"
    "map c_tool log' = history_of (sess (w_ss w')) demo_session"
    "sessions_ok (sess (w_ss w')) (w_heap w')" "w_wall w' = w_wall w" by simp_all
qed

text \<open>With a clock that stands still, an allowed call of a tool whose handler succeeds succeeds.\<close>

lemma ValidateToolCall_frozen:
  assumes frozen: "w_wall w = (\<lambda>_. t)" and found: "sess (w_ss w) sid = Some s" and sid: "sid \<noteq> ''''"
    and allowed: "restricted (rules svc) tool \<Longrightarrow> \<exists>ru\<in>set (rules_for (rules svc) tool).
      Prerequisite ru \<in> set (ToolHistory s) \<and> live t (entries (w_ts w) sid (Prerequisite ru)) \<noteq> []"
  shows "fst (ValidateToolCall svc sid tool tok w) = Return None"
proof (cases "restricted (rules svc) tool")
  case True
  with allowed have "some_live (entries (w_ts w) sid) (\<lambda>i. t) (called_rules s (findRules svc tool))"
    unfolding some_live_frozen rules_for_findRules by blast
  with frozen found sid show ?thesis by (simp add: ValidateToolCall_result Let_def)
next
  case False
  then have "findRules svc tool = [] \<or> (\<exists>r\<in>set (findRules svc tool). Prerequisite r = '''')"
    by (auto simp: restricted_def rules_for_findRules)
  then show ?thesis by (simp add: ValidateToolCall_result Let_def)
qed

lemma wrapped_succeeds:
  assumes ok: "sessions_ok (sess (w_ss w)) (w_heap w)" and frozen: "w_wall w = (\<lambda>_. t)"
    and log: "c_tool ` set log = set (history_of (sess (w_ss w)) demo_session)"
    and allowed: "allowed (rules svc) tool t (ratchet_view entries log w)"
    and handler: "\<And>inp w. snd (snd (fst (handler inp w))) = None"
  obtains res out w' where
    "WrapWithRatchet zero tool handler svc (sessionStore svc) input w = (Return (res, out, None), w')"
proof -
  obtain s w1 where ws: "wrap_session svc (sessionStore svc) w = (s, w1)" by fastforce
  note r1 = wrap_session_result[OF ok ws]
  have hist: "set (ToolHistory s) = c_tool ` set log"
    using r1(1,3) log by (metis history_of_def option.simps(5))
  have "fst (ValidateToolCall svc demo_session tool (wrap_token tool s w1) w1) = Return None"
    by (rule ValidateToolCall_frozen[OF _ r1(1), where t = t])
      (use r1 frozen allowed hist in \<open>auto simp: allowed_def ratchet_view_def demo_session_def\<close>)
  then obtain w2 where val: "ValidateToolCall svc demo_session tool (wrap_token tool s w1) w1 = (Return None, w2)"
    by (metis prod.collapse)
  obtain res out w3 where h: "handler input w2 = ((res, out, None), w3)"
    using handler[of input w2] by (metis prod.collapse)
  have "WrapWithRatchet zero tool handler svc (sessionStore svc) input w = (Return (res, out, None),
      wrap_record (sessionStore svc) tool (snd (IssueToken svc demo_session tool
        (snd (ConsumePrerequisiteToken svc demo_session tool w3)))))"
    by (simp add: WrapWithRatchet_unfold ws val h split: prod.splits)
  then show thesis by (rule that)
qed

end

end
