(* ===== verification/MemoryTokenStore.thy ===== *)
theory MemoryTokenStore
  imports Ports
begin

text \<open>
  \<open>adapters/memory\_token\_store.go\<close>: tokens per session and tool, in the order of their
  storing. The inner maps and slices never leave the store, so they are values here. The
  methods hold the store's lock throughout, so each is one step. The store is an instance of
  the locale \<open>token_store\<close>.
\<close>

section \<open>State and operations\<close>

record tokenEntry =
  te_value :: TokenValue
  te_expires :: time

record MemoryTokenStore =
  tokens :: "SessionID \<rightharpoonup> (ToolName \<rightharpoonup> tokenEntry list)"

definition NewMemoryTokenStore :: MemoryTokenStore where
  "NewMemoryTokenStore = \<lparr>tokens = Map.empty\<rparr>"

definition MemoryTokenStore_Store ::
  "SessionID \<Rightarrow> ToolName \<Rightarrow> TokenValue \<Rightarrow> time \<Rightarrow> MemoryTokenStore \<Rightarrow> error option \<times> MemoryTokenStore" where
  "MemoryTokenStore_Store sid tool token expiry m =
     (let inner = (case tokens m sid of None \<Rightarrow> Map.empty | Some t \<Rightarrow> t);
          inner' = push_list tool \<lparr>te_value = token, te_expires = expiry\<rparr> inner
      in (None, m\<lparr>tokens := (tokens m)(sid \<mapsto> inner')\<rparr>))"

fun unexpired :: "time \<Rightarrow> tokenEntry list \<Rightarrow> TokenValue list" where
  "unexpired now [] = []"
| "unexpired now (e # es) =
     (if time_Before now (te_expires e) then te_value e # unexpired now es else unexpired now es)"

definition MemoryTokenStore_GetValidTokens ::
  "time \<Rightarrow> SessionID \<Rightarrow> ToolName \<Rightarrow> MemoryTokenStore \<Rightarrow> error + TokenValue list" where
  "MemoryTokenStore_GetValidTokens now sid tool m =
     (case tokens m sid of
        None \<Rightarrow> Inr []
      | Some inner \<Rightarrow>
          (case inner tool of None \<Rightarrow> Inr [] | Some es \<Rightarrow> Inr (unexpired now es)))"

definition MemoryTokenStore_RemoveToken ::
  "SessionID \<Rightarrow> ToolName \<Rightarrow> TokenValue \<Rightarrow> MemoryTokenStore \<Rightarrow> error option \<times> MemoryTokenStore" where
  "MemoryTokenStore_RemoveToken sid tool token m =
     (case tokens m sid of
        None \<Rightarrow> (Some ErrTokenNotFound, m)
      | Some inner \<Rightarrow>
          (case inner tool of
             None \<Rightarrow> (Some ErrTokenNotFound, m)
           | Some es \<Rightarrow>
               (case find_from (\<lambda>e. te_value e = token) 0 es of
                  None \<Rightarrow> (Some ErrTokenNotFound, m)
                | Some i \<Rightarrow> (None, m\<lparr>tokens := (tokens m)(sid \<mapsto> inner(tool \<mapsto> cut_at i es))\<rparr>))))"

definition memory_token_store :: "MemoryTokenStore TokenStore" where
  "memory_token_store =
     \<lparr>ts_Store = MemoryTokenStore_Store,
      ts_GetValidTokens = MemoryTokenStore_GetValidTokens,
      ts_RemoveToken = MemoryTokenStore_RemoveToken\<rparr>"

section \<open>The store keeps the contract\<close>

definition token_entries :: "MemoryTokenStore \<Rightarrow> SessionID \<Rightarrow> ToolName \<Rightarrow> (TokenValue \<times> time) list" where
  "token_entries m sid tool =
     (case tokens m sid of None \<Rightarrow> []
      | Some inner \<Rightarrow> map (\<lambda>e. (te_value e, te_expires e)) (get_list inner tool))"

lemma unexpired_live: "unexpired now es = live now (map (\<lambda>e. (te_value e, te_expires e)) es)"
  by (induction es) auto

lemma token_entries_new [simp]: "token_entries NewMemoryTokenStore sid tool = []"
  by (simp add: token_entries_def NewMemoryTokenStore_def)

lemma token_entries_Store [simp]:
  "token_entries (snd (MemoryTokenStore_Store sid tool tok ex m)) sid' tool' =
     (if sid' = sid \<and> tool' = tool then token_entries m sid tool @ [(tok, ex)]
      else token_entries m sid' tool')"
  by (auto simp: token_entries_def MemoryTokenStore_Store_def Let_def split: option.splits)

lemma MemoryTokenStore_Store_result [simp]: "fst (MemoryTokenStore_Store sid tool tok ex m) = None"
  by (simp add: MemoryTokenStore_Store_def Let_def)

lemma MemoryTokenStore_GetValidTokens_entries:
  "MemoryTokenStore_GetValidTokens now sid tool m = Inr (live now (token_entries m sid tool))"
  by (simp add: MemoryTokenStore_GetValidTokens_def token_entries_def get_list_def unexpired_live split: option.splits)

lemma remove_first_map: "map f (remove_first (\<lambda>x. P (f x)) xs) = remove_first P (map f xs)"
  by (induction xs) auto

lemma map_cut_at:
  "find_from (\<lambda>e. te_value e = tok) 0 es = Some i \<Longrightarrow>
   map (\<lambda>e. (te_value e, te_expires e)) (cut_at i es) =
     remove_first (\<lambda>e. fst e = tok) (map (\<lambda>e. (te_value e, te_expires e)) es)"
  by (simp add: find_from_cut flip: remove_first_map)

lemma MemoryTokenStore_RemoveToken_cases:
  obtains (found) inner es i where "tokens m sid = Some inner" "inner tool = Some es"
    "find_from (\<lambda>e. te_value e = tok) 0 es = Some i" "tok \<in> fst ` set (token_entries m sid tool)"
    "MemoryTokenStore_RemoveToken sid tool tok m =
       (None, m\<lparr>tokens := (tokens m)(sid \<mapsto> inner(tool \<mapsto> cut_at i es))\<rparr>)"
  | (missing) "tok \<notin> fst ` set (token_entries m sid tool)"
    "MemoryTokenStore_RemoveToken sid tool tok m = (Some ErrTokenNotFound, m)"
proof -
  consider "tokens m sid = None" | inner where "tokens m sid = Some inner" "inner tool = None"
    | inner es where "tokens m sid = Some inner" "inner tool = Some es"
    by (metis option.exhaust)
  then show thesis
  proof cases
    case 1
    then show thesis by (intro missing) (simp_all add: token_entries_def MemoryTokenStore_RemoveToken_def)
  next
    case 2
    then show thesis by (intro missing) (simp_all add: token_entries_def MemoryTokenStore_RemoveToken_def)
  next
    case (3 inner es)
    then have vals: "fst ` set (token_entries m sid tool) = te_value ` set es"
      by (force simp: token_entries_def)
    show thesis
    proof (cases "find_from (\<lambda>e. te_value e = tok) 0 es")
      case None
      then have "tok \<notin> te_value ` set es" by (auto simp: find_from_None_iff)
      with None 3 vals show thesis
        by (intro missing) (simp_all add: MemoryTokenStore_RemoveToken_def)
    next
      case (Some i)
      then have "\<exists>e\<in>set es. te_value e = tok"
        using find_from_None_iff[of "\<lambda>e. te_value e = tok" 0 es] by auto
      with vals have "tok \<in> fst ` set (token_entries m sid tool)" by auto
      from 3 Some this show thesis
        by (rule found) (simp add: MemoryTokenStore_RemoveToken_def 3 Some)
    qed
  qed
qed

lemma token_entries_RemoveToken:
  "token_entries (snd (MemoryTokenStore_RemoveToken sid tool tok m)) sid' tool' =
     (if sid' = sid \<and> tool' = tool then remove_first (\<lambda>e. fst e = tok) (token_entries m sid tool)
      else token_entries m sid' tool')"
proof (cases rule: MemoryTokenStore_RemoveToken_cases[of m sid tool tok])
  case (found inner es i)
  then show ?thesis by (auto simp: token_entries_def map_cut_at)
next
  case missing
  then have "remove_first (\<lambda>e. fst e = tok) (token_entries m sid tool) = token_entries m sid tool"
    by (intro remove_first_none) auto
  with missing show ?thesis by simp
qed

interpretation mts: token_store memory_token_store token_entries
proof (unfold_locales, goal_cases)
  case (4 sid tool tok st)
  show ?case
    by (cases rule: MemoryTokenStore_RemoveToken_cases[of st sid tool tok]) (simp_all add: memory_token_store_def)
qed (simp_all add: memory_token_store_def MemoryTokenStore_Store_result
      MemoryTokenStore_GetValidTokens_entries token_entries_RemoveToken)

section \<open>Properties\<close>

text \<open>
  Storing a token makes it the last valid token of its session and tool while it has not
  expired, and changes nothing for any other session or tool; storing an expired token is
  never seen.
\<close>

lemma stored_token_valid:
  "MemoryTokenStore_GetValidTokens now sid' tool' (snd (MemoryTokenStore_Store sid tool tok ex m)) =
     (if sid' = sid \<and> tool' = tool \<and> now < ex
      then map_sum id (\<lambda>toks. toks @ [tok]) (MemoryTokenStore_GetValidTokens now sid' tool' m)
      else MemoryTokenStore_GetValidTokens now sid' tool' m)"
  by (simp add: MemoryTokenStore_GetValidTokens_entries)

text \<open>
  Removing a token reports \<open>ErrTokenNotFound\<close> exactly when the session holds no such token
  for the tool (and then changes nothing); else it takes the first entry with this value, expired
  or not, and leaves the order of the others and all other sessions and tools alone.
\<close>

theorem removed_token_gone:
  "fst (MemoryTokenStore_RemoveToken sid tool tok m) =
     (if tok \<in> fst ` set (token_entries m sid tool) then None else Some ErrTokenNotFound) \<and>
   MemoryTokenStore_GetValidTokens now sid' tool' (snd (MemoryTokenStore_RemoveToken sid tool tok m)) =
     Inr (live now (if sid' = sid \<and> tool' = tool
                    then remove_first (\<lambda>e. fst e = tok) (token_entries m sid tool)
                    else token_entries m sid' tool'))"
  using mts.remove_result[of sid tool tok m]
  by (simp add: MemoryTokenStore_GetValidTokens_entries token_entries_RemoveToken memory_token_store_def)

end
