(* ===== verification/MemorySessionStore.thy ===== *)
theory MemorySessionStore
  imports Ports
begin

text \<open>
  \<open>adapters/memory\_session\_store.go\<close>: sessions by ID. \<open>Get\<close> returns a copy of the stored
  struct, field by field: the \<open>Tokens\<close> field of the copy is the same map reference, so the
  token map is shared with the stored session. \<open>Create\<close> and \<open>Update\<close> keep the struct they are
  given; no function of the repository writes to a struct after handing it over, so a struct is
  a value here. The store is an instance of the locale \<open>session_store\<close>.
\<close>

section \<open>State and operations\<close>

record MemorySessionStore =
  sessions :: "SessionID \<rightharpoonup> session"

definition NewMemorySessionStore :: MemorySessionStore where
  "NewMemorySessionStore = \<lparr>sessions = Map.empty\<rparr>"

definition MemorySessionStore_Create :: "session \<Rightarrow> MemorySessionStore \<Rightarrow> error option \<times> MemorySessionStore" where
  "MemorySessionStore_Create s m =
     (case sessions m (ID s) of
        Some _ \<Rightarrow> (Some ErrSessionAlreadyExists, m)
      | None \<Rightarrow> (None, m\<lparr>sessions := (sessions m)(ID s \<mapsto> s)\<rparr>))"

definition MemorySessionStore_Get :: "SessionID \<Rightarrow> MemorySessionStore \<Rightarrow> error + session" where
  "MemorySessionStore_Get sid m =
     (case sessions m sid of
        None \<Rightarrow> Inl ErrSessionNotFound
      | Some s \<Rightarrow> Inr \<lparr>ID = ID s, Tokens = Tokens s, ToolHistory = ToolHistory s, CreatedAt = CreatedAt s\<rparr>)"

definition MemorySessionStore_Update :: "session \<Rightarrow> MemorySessionStore \<Rightarrow> error option \<times> MemorySessionStore" where
  "MemorySessionStore_Update s m = (None, m\<lparr>sessions := (sessions m)(ID s \<mapsto> s)\<rparr>)"

definition MemorySessionStore_Delete :: "SessionID \<Rightarrow> MemorySessionStore \<Rightarrow> error option \<times> MemorySessionStore" where
  "MemorySessionStore_Delete sid m =
     (case sessions m sid of
        None \<Rightarrow> (Some ErrSessionNotFound, m)
      | Some _ \<Rightarrow> (None, m\<lparr>sessions := (sessions m)(sid := None)\<rparr>))"

definition memory_session_store :: "MemorySessionStore SessionStore" where
  "memory_session_store =
     \<lparr>ss_Create = MemorySessionStore_Create, ss_Get = MemorySessionStore_Get, ss_Update = MemorySessionStore_Update, ss_Delete = MemorySessionStore_Delete\<rparr>"

section \<open>The store keeps the contract\<close>

interpretation mss: session_store memory_session_store sessions
  by unfold_locales
    (auto simp: memory_session_store_def MemorySessionStore_Create_def MemorySessionStore_Get_def MemorySessionStore_Update_def MemorySessionStore_Delete_def fun_eq_iff
      split: option.splits)

section \<open>Properties\<close>

text \<open>
  The session store is a map of sessions: what \<open>Get\<close> returns after \<open>Create\<close>, \<open>Update\<close> and
  \<open>Delete\<close>, for the same and for another session, and which errors they report.
\<close>

lemma session_store_laws:
  "fst (MemorySessionStore_Create s m) =
     (if sessions m (ID s) = None then None else Some ErrSessionAlreadyExists) \<and>
   MemorySessionStore_Get sid (snd (MemorySessionStore_Create s m)) =
     (if sid = ID s \<and> sessions m sid = None then Inr s else MemorySessionStore_Get sid m) \<and>
   MemorySessionStore_Get sid (snd (MemorySessionStore_Update s m)) =
     (if sid = ID s then Inr s else MemorySessionStore_Get sid m) \<and>
   fst (MemorySessionStore_Delete sid' m) = (if sessions m sid' = None then Some ErrSessionNotFound else None) \<and>
   MemorySessionStore_Get sid (snd (MemorySessionStore_Delete sid' m)) =
     (if sid = sid' then Inl ErrSessionNotFound else MemorySessionStore_Get sid m)"
  using mss.create_result[of s m] mss.create_sess[of s m] mss.update_sess[of s m] mss.delete_result[of sid' m]
    mss.delete_sess[of sid' m]
  by (simp add: memory_session_store_def MemorySessionStore_Get_def)

text \<open>
  A fetched session is a copy of the struct but not of its token map: a token added to the copy is
  in the stored session at once, without an \<open>Update\<close>.
\<close>

lemma fetched_session_shares_tokens:
  assumes "MemorySessionStore_Get sid m = Inr copy"
  obtains stored where "sessions m sid = Some stored"
    and "session_tokens (AddToken copy tool tok h) stored =
      (session_tokens h stored)(tool := session_tokens h stored tool @ [tok])"
proof (cases "sessions m sid")
  case None
  with assms show thesis by (simp add: MemorySessionStore_Get_def)
next
  case (Some stored)
  with assms have "Tokens copy = Tokens stored" by (auto simp: MemorySessionStore_Get_def)
  then show thesis
    by (intro that[OF Some]) (simp add: fun_eq_iff session_tokens_cong[of copy stored])
qed

end
