(* ===== verification/MemoryService.thy ===== *)
theory MemoryService
  imports WrapperLaws MemoryTokenStore MemorySessionStore
begin

text \<open>
  The service over the in-memory stores, as \<open>cmd/mcp-ratchet-demo/main.go\<close> builds it and as
  \<open>doc.go\<close> recommends: the constructor's service with the rules registered so far. It
  interprets the locale \<open>ratchet_service\<close>, whatever the configuration loader, the random
  generator, the clock and the event store are.
\<close>

definition memory_service ::
  "ConfigLoader \<Rightarrow> 'rg RandomGenerator \<Rightarrow> Clock \<Rightarrow> 'es EventStore option \<Rightarrow> Rule list \<Rightarrow>
   (MemoryTokenStore, MemorySessionStore, 'rg, 'es) RatchetServiceImpl" where
  "memory_service cl rg ck es rs =
     (NewRatchetServiceWithObservability cl memory_token_store memory_session_store rg ck es)
       \<lparr>rules := rs\<rparr>"

text \<open>A fresh world: empty stores, the given clock readings, UUIDs, entropy and event state.\<close>

definition fresh_world ::
  "(nat \<Rightarrow> time) \<Rightarrow> (nat \<Rightarrow> string) \<Rightarrow> 'rg \<Rightarrow> 'es \<Rightarrow> (MemoryTokenStore, MemorySessionStore, 'rg, 'es) world" where
  "fresh_world wall uuids rg es =
     \<lparr>w_heap = empty_heap, w_wall = wall, w_reads = 0, w_uuid = uuids, w_uuids = 0,
      w_ts = NewMemoryTokenStore, w_ss = NewMemorySessionStore, w_rg = rg, w_es = es\<rparr>"

lemma memory_service_sel [simp]:
  "configLoader (memory_service cl rg ck es rs) = cl"
  "tokenStore (memory_service cl rg ck es rs) = memory_token_store"
  "sessionStore (memory_service cl rg ck es rs) = memory_session_store"
  "randomGen (memory_service cl rg ck es rs) = rg"
  "clock (memory_service cl rg ck es rs) = ck"
  "rules (memory_service cl rg ck es rs) = rs"
  "eventStore (memory_service cl rg ck es rs) = es"
  by (simp_all add: memory_service_def NewRatchetServiceWithObservability_def)

interpretation ms: ratchet_service "memory_service cl rg ck es rs" token_entries sessions
  for cl rg ck es rs
  unfolding ratchet_service_def memory_service_sel
  by (intro conjI mts.token_store_axioms mss.session_store_axioms)

lemma RegisterRule_memory [simp]:
  "Rule_Validate r = None \<Longrightarrow>
   RegisterRule r (memory_service cl rg ck es rs) = (None, memory_service cl rg ck es (rs @ [r]))"
  by (simp add: RegisterRule_def memory_service_def NewRatchetServiceWithObservability_def)

end
