(* ===== verification/SessionIsolation.thy ===== *)
theory SessionIsolation
  imports MemoryService
begin

text \<open>
  Sessions do not affect each other: whatever is done in one session, the tokens, the history and
  the decisions of every other session stay as they are. The wrapper uses one session only; this is
  what the service promises to a program that uses several. Proved for any stores that keep their
  contracts, then read off for the in-memory stores.
\<close>

section \<open>The operations of a session\<close>

datatype service_op =
    OpValidate ToolName TokenValue
  | OpIssue ToolName
  | OpConsume ToolName
  | OpCreate

fun do_op ::
  "('ts, 'ss, 'rg, 'es) RatchetServiceImpl \<Rightarrow> SessionID \<times> service_op \<Rightarrow> ('ts, 'ss, 'rg, 'es) world \<Rightarrow>
   ('ts, 'ss, 'rg, 'es) world" where
  "do_op svc (sid, OpValidate tool tok) w = snd (ValidateToolCall svc sid tool tok w)"
| "do_op svc (sid, OpIssue tool) w = snd (IssueToken svc sid tool w)"
| "do_op svc (sid, OpConsume tool) w = snd (ConsumePrerequisiteToken svc sid tool w)"
| "do_op svc (sid, OpCreate) w = snd (CreateSession svc sid w)"

text \<open>What is kept of a session, and of the world.\<close>

definition leaves_session ::
  "('ts \<Rightarrow> SessionID \<Rightarrow> ToolName \<Rightarrow> (TokenValue \<times> time) list) \<Rightarrow> ('ss \<Rightarrow> SessionID \<Rightarrow> session option) \<Rightarrow>
   SessionID \<Rightarrow> ('ts, 'ss, 'rg, 'es) world \<Rightarrow> ('ts, 'ss, 'rg, 'es) world \<Rightarrow> bool" where
  "leaves_session entries sess sid w w' \<longleftrightarrow>
     entries (w_ts w') sid = entries (w_ts w) sid \<and> sess (w_ss w') sid = sess (w_ss w) sid \<and>
     tokens_in (sess (w_ss w')) (w_heap w') sid = tokens_in (sess (w_ss w)) (w_heap w) sid \<and>
     sessions_ok (sess (w_ss w')) (w_heap w') \<and> w_wall w' = w_wall w"

lemma leaves_session_trans:
  "leaves_session entries sess sid w w1 \<Longrightarrow> leaves_session entries sess sid w1 w2 \<Longrightarrow>
   leaves_session entries sess sid w w2"
  by (simp add: leaves_session_def)

lemma leaves_session_core:
  "core w' = core w \<Longrightarrow> sessions_ok (sess (w_ss w)) (w_heap w) \<Longrightarrow> leaves_session entries sess sid w w'"
  by (simp add: leaves_session_def core_eq_iff)

text \<open>Writing to the token map of one session does not touch the map of another.\<close>

lemma tokens_in_other:
  assumes "sessions_ok S h" and "S sid = Some s" and "sid' \<noteq> sid"
    and "\<And>s'. Tokens s' \<noteq> Tokens s \<Longrightarrow> session_tokens h' s' = session_tokens h s'"
  shows "tokens_in S h' sid' = tokens_in S h sid'"
proof (cases "S sid'")
  case (Some t)
  then have "Tokens t \<noteq> Tokens s" using sessions_ok_inj[OF assms(1) Some assms(2)] assms(3) by blast
  from assms(4)[OF this] Some show ?thesis by (simp add: tokens_in_found)
qed (simp add: tokens_in_def fun_eq_iff)

context ratchet_service
begin

lemma Issue_leaves:
  fixes tool :: ToolName
  assumes ok: "sessions_ok (sess (w_ss w)) (w_heap w)" and other: "sid' \<noteq> sid"
  shows "leaves_session entries sess sid' w (snd (IssueToken svc sid tool w))"
proof (cases "rg_GenerateToken (randomGen svc) (w_rg w)")
  case (Pair a rg)
  show ?thesis
  proof (cases a)
    case (Inl err)
    with Pair ok show ?thesis by (simp add: IssueToken_no_entropy leaves_session_def)
  next
    case (Inr tok)
    note gen = Pair[unfolded Inr]
    show ?thesis
    proof (cases "sess (w_ss w) sid")
      case (Some s)
      have "tokens_in (sess (w_ss w)) (AddToken s tool tok (w_heap w)) sid' = tokens_in (sess (w_ss w)) (w_heap w) sid'"
        by (rule tokens_in_other[OF ok Some other]) (simp add: fun_eq_iff)
      moreover have "ID s = sid" using sessions_okD[OF ok Some] by simp
      moreover from this have "entries (w_ts (snd (IssueToken svc sid tool w))) sid' = entries (w_ts w) sid'"
        using other IssueToken_result(2)[OF gen Some, of tool] by (intro ext) simp
      moreover have "sessions_ok (sess (w_ss w)) (AddToken s tool tok (w_heap w))"
        by (rule sessions_ok_heap[OF ok]) simp
      ultimately show ?thesis
        using IssueToken_result(3,4,6)[OF gen Some, of tool] by (simp add: leaves_session_def)
    next
      case None
      obtain ts where store: "ts_Store (tokenStore svc) sid tool tok
          (ck_Now (clock svc) (w_wall w (w_reads w)) + token_expiry svc tool) (w_ts w) = (None, ts)"
        using ts.store_ok by (metis prod.collapse)
      have "entries ts sid' tl = entries (w_ts w) sid' tl" for tl
        using ts.store_entries[of sid tool tok _ "w_ts w" sid' tl] other by (metis store snd_conv)
      with ok None gen store show ?thesis
        by (simp add: leaves_session_def IssueToken_def Let_def clock_Now_def time_Now_def ss.get_sess fun_eq_iff)
    qed
  qed
qed

lemma drop_leaves:
  assumes ok: "sessions_ok (sess (w_ss w)) (w_heap w)" and other: "sid' \<noteq> sid"
  shows "leaves_session entries sess sid' w (snd (drop_session_token svc sid p w))"
proof (cases "sess (w_ss w) sid")
  case None
  with ok show ?thesis by (simp add: drop_session_token_def ss.get_sess leaves_session_def)
next
  case (Some s)
  then have "ID s = sid" using sessions_okD[OF ok Some] by simp
  note res = drop_session_token_result[OF Some this, of p]
  have "tokens_in (sess (w_ss w)) (w_heap (snd (drop_session_token svc sid p w))) sid' =
      tokens_in (sess (w_ss w)) (w_heap w) sid'"
    by (rule tokens_in_other[OF ok Some other]) (simp add: fun_eq_iff res(2))
  moreover have "sessions_ok (sess (w_ss w)) (w_heap (snd (drop_session_token svc sid p w)))"
    by (rule sessions_ok_heap[OF ok]) (simp add: res(7))
  ultimately show ?thesis by (simp add: leaves_session_def res(3-6))
qed

lemma Consume_leaves:
  assumes ok: "sessions_ok (sess (w_ss w)) (w_heap w)" and other: "sid' \<noteq> sid"
  shows "leaves_session entries sess sid' w (snd (ConsumePrerequisiteToken svc sid tool w))"
proof (cases "\<exists>r. findRule svc tool = Some r \<and> Prerequisite r \<noteq> '''' \<and> OneTimeUse r \<and>
    live (w_wall w (w_reads w)) (entries (w_ts w) sid (Prerequisite r)) \<noteq> []")
  case False
  then have "core (snd (ConsumePrerequisiteToken svc sid tool w)) = core w"
    by (auto simp: ConsumePrerequisiteToken_def time_Now_def Let_def ts.valid_tokens core_def split: option.splits)
  then show ?thesis using ok by (rule leaves_session_core)
next
  case True
  then obtain r where r: "findRule svc tool = Some r" "Prerequisite r \<noteq> ''''" "OneTimeUse r"
    and live: "live (w_wall w (w_reads w)) (entries (w_ts w) sid (Prerequisite r)) \<noteq> []" by blast
  let ?p = "Prerequisite r" and ?v = "live (w_wall w (w_reads w)) (entries (w_ts w) sid (Prerequisite r))"
  have "ts_GetValidTokens (tokenStore svc) (w_wall w (w_reads w)) sid ?p (w_ts w) = Inr ?v"
    by (simp add: ts.valid_tokens)
  from ts.remove_last_valid[OF this live] obtain ts where
    rm: "ts_RemoveToken (tokenStore svc) sid ?p (last ?v) (w_ts w) = (None, ts)" by (metis prod.collapse)
  have ent: "entries ts sid' tl = entries (w_ts w) sid' tl" for tl
    using ts.remove_entries[of sid ?p "last ?v" "w_ts w" sid' tl] other by (simp add: rm)
  let ?w = "emitEvent svc EventTypeTokenConsumed sid ?p (last ?v) [''consumed_by'' \<mapsto> MetaText tool]
              (w\<lparr>w_reads := Suc (w_reads w), w_ts := ts\<rparr>)"
  have "leaves_session entries sess sid' w ?w" using ok by (simp add: leaves_session_def ent fun_eq_iff)
  moreover have "leaves_session entries sess sid' ?w (snd (drop_session_token svc sid ?p ?w))"
    by (rule drop_leaves[OF _ other]) (use ok in simp)
  moreover have "ConsumePrerequisiteToken svc sid tool w = drop_session_token svc sid ?p ?w"
    using r live rm by (simp add: ConsumePrerequisiteToken_def time_Now_def Let_def ts.valid_tokens)
  ultimately show ?thesis using leaves_session_trans by simp
qed

lemma Create_leaves:
  assumes ok: "sessions_ok (sess (w_ss w)) (w_heap w)" and other: "sid' \<noteq> sid"
  shows "leaves_session entries sess sid' w (snd (CreateSession svc sid w))"
proof (cases "sess (w_ss w) sid")
  case (Some s)
  with ok show ?thesis by (simp add: CreateSession_existing leaves_session_def)
next
  case None
  note res = CreateSession_fresh[OF None]
  let ?s = "\<lparr>ID = sid, Tokens = next_map (w_heap w), ToolHistory = [], CreatedAt = w_wall w (w_reads w)\<rparr>"
  have "sessions_ok ((sess (w_ss w))(sid \<mapsto> ?s)) (snd (alloc_map (w_heap w)))"
    by (rule sessions_ok_new[OF ok None]) simp_all
  moreover have "tokens_in ((sess (w_ss w))(sid \<mapsto> ?s)) (snd (alloc_map (w_heap w))) sid' =
      tokens_in (sess (w_ss w)) (w_heap w) sid'"
  proof (cases "sess (w_ss w) sid'")
    case (Some t)
    then have "Tokens t < next_map (w_heap w)" using sessions_okD[OF ok] by blast
    with Some other show ?thesis by (simp add: tokens_in_found session_tokens_def fun_eq_iff)
  qed (use other in \<open>simp add: tokens_in_def fun_eq_iff\<close>)
  ultimately show ?thesis using other by (simp add: leaves_session_def res)
qed

lemma op_leaves:
  assumes "sessions_ok (sess (w_ss w)) (w_heap w)" and "sid' \<noteq> fst op"
  shows "leaves_session entries sess sid' w (do_op svc op w)"
proof (cases op)
  case (Pair sid o')
  with assms show ?thesis
    by (cases o') (simp_all add: leaves_session_core ValidateToolCall_core Issue_leaves Consume_leaves Create_leaves)
qed

lemma ops_leave:
  "sessions_ok (sess (w_ss w)) (w_heap w) \<Longrightarrow> sid' \<notin> fst ` set ops \<Longrightarrow>
   leaves_session entries sess sid' w (fold (do_op svc) ops w)"
proof (induction ops arbitrary: w)
  case Nil
  then show ?case by (simp add: leaves_session_def)
next
  case (Cons op ops)
  have one: "leaves_session entries sess sid' w (do_op svc op w)" using Cons.prems by (intro op_leaves) auto
  then have "sessions_ok (sess (w_ss (do_op svc op w))) (w_heap (do_op svc op w))" by (simp add: leaves_session_def)
  from Cons.IH[OF this] Cons.prems(2) leaves_session_trans[OF one] show ?case by simp
qed

text \<open>A decision reads its own session only.\<close>

lemma validate_leaves:
  assumes "leaves_session entries sess sid w w'" and "w_wall w = (\<lambda>_. t)"
  shows "fst (ValidateToolCall svc sid tool tok w') = fst (ValidateToolCall svc sid tool tok w)"
proof -
  have "w_wall w' = (\<lambda>_. t)" "entries (w_ts w') sid = entries (w_ts w) sid" "sess (w_ss w') sid = sess (w_ss w) sid"
    using assms by (simp_all add: leaves_session_def)
  then show ?thesis unfolding ValidateToolCall_result assms(2) by (simp only: Let_def)
qed

end

section \<open>The in-memory service\<close>

text \<open>
  C5: Sessions are isolated: after any operations in other sessions, a session has the same tokens in
  the store and in its own lists, the same history, and at the same instant every tool call is
  decided in it as before.
\<close>

theorem sessions_isolated:
  assumes "sessions_ok (sessions (w_ss w)) (w_heap w)" and "sid \<notin> fst ` set ops" and "w_wall w = (\<lambda>_. t)"
  shows "case fold (do_op (memory_service cl rg ck es rs)) ops w of w' \<Rightarrow>
    token_entries (w_ts w') sid = token_entries (w_ts w) sid \<and>
    tokens_in (sessions (w_ss w')) (w_heap w') sid = tokens_in (sessions (w_ss w)) (w_heap w) sid \<and>
    history_of (sessions (w_ss w')) sid = history_of (sessions (w_ss w)) sid \<and>
    fst (ValidateToolCall (memory_service cl rg ck es rs) sid tool tok w') =
      fst (ValidateToolCall (memory_service cl rg ck es rs) sid tool tok w)"
proof -
  have kept: "leaves_session token_entries sessions sid w (fold (do_op (memory_service cl rg ck es rs)) ops w)"
    by (rule ms.ops_leave[OF assms(1,2)])
  from kept ms.validate_leaves[OF kept assms(3), of cl rg ck es rs tool tok] show ?thesis
    by (simp add: leaves_session_def history_of_def)
qed

text \<open>An example: \<open>a\<close> issues and spends tokens while \<open>b\<close> has nothing.\<close>

definition iso_ops :: "(SessionID \<times> service_op) list" where
  "iso_ops = [(''a'', OpCreate), (''a'', OpIssue ''login''), (''a'', OpValidate ''use'' ''''), (''a'', OpConsume ''use'')]"

definition iso_world :: "(MemoryTokenStore, MemorySessionStore, nat, unit) world" where
  "iso_world = fresh_world (\<lambda>_. 7) (\<lambda>_. '''') 0 ()"

definition iso_random :: "nat RandomGenerator" where
  "iso_random = \<lparr>rg_GenerateToken = (\<lambda>n. (Inr (replicate n (CHR ''x'')), Suc n)),
                 rg_GenerateSessionID = (\<lambda>n. (Inr ''s'', n))\<rparr>"

definition iso_service :: "(MemoryTokenStore, MemorySessionStore, nat, unit) RatchetServiceImpl" where
  "iso_service = memory_service
     \<lparr>cl_Load = (\<lambda>_. Inr []), cl_LoadConfig = (\<lambda>_. Inl (NewError '''')), cl_Validate = (\<lambda>_. None)\<rparr>
     iso_random \<lparr>ck_Now = id\<rparr> None
     [\<lparr>Tool = ''use'', Prerequisite = ''login'', Expiry = 9, ErrorMessage = '''', OneTimeUse = True\<rparr>]"

theorem sessions_isolated_witness:
  "token_entries (w_ts (fold (do_op iso_service) iso_ops iso_world)) ''b'' ''login'' = [] \<and>
   fst (ValidateToolCall iso_service ''b'' ''use'' '''' (fold (do_op iso_service) iso_ops iso_world)) =
     fst (ValidateToolCall iso_service ''b'' ''use'' '''' iso_world)"
  using sessions_isolated[of iso_world "''b''" iso_ops 7]
  unfolding iso_service_def
  by (simp add: iso_world_def iso_ops_def fresh_world_def NewMemorySessionStore_def)

end
