(* ===== verification/CryptoRandom.thy ===== *)
theory CryptoRandom
  imports Ports
begin

text \<open>
  \<open>adapters/crypto\_random.go\<close> and \<open>adapters/real\_clock.go\<close>: tokens and session IDs are the
  hexadecimal text of \<open>MinTokenLength / 2\<close> random bytes; the clock is the system clock.

  \<open>crypto/rand\<close> is a source of answers: the \<open>i\<close>-th call of \<open>rand.Read\<close> for \<open>n\<close> bytes either fails
  or fills the buffer, which the source's bytes do (\<open>fills\<close> cuts or pads them to the buffer).
\<close>

section \<open>Hexadecimal text (encoding/hex)\<close>

definition hex_chars :: "8 word \<Rightarrow> string" where
  "hex_chars b = [hex_digit (unat b div 16), hex_digit (unat b mod 16)]"

definition EncodeToString :: "8 word list \<Rightarrow> string" where
  "EncodeToString bs = concat (map hex_chars bs)"

definition hex_val :: "char \<Rightarrow> nat" where
  "hex_val c = (let n = of_char c in if n \<ge> 97 then n - 87 else n - 48)"

text \<open>The inverse, as \<open>hex.DecodeString\<close> on lower-case digits.\<close>

fun DecodeString :: "string \<Rightarrow> 8 word list" where
  "DecodeString (a # b # s) = word_of_nat (16 * hex_val a + hex_val b) # DecodeString s"
| "DecodeString _ = []"

section \<open>The generator\<close>

record entropy =
  rand_answers :: "nat \<Rightarrow> error + 8 word list"
  rand_calls :: nat

text \<open>A buffer of \<open>n\<close> bytes, zero where the answer is short.\<close>

definition fills :: "nat \<Rightarrow> 8 word list \<Rightarrow> 8 word list" where
  "fills n bs = take n bs @ replicate (n - length bs) 0"

definition rand_Read :: "nat \<Rightarrow> entropy \<Rightarrow> (error + 8 word list) \<times> entropy" where
  "rand_Read n r =
     (map_sum id (fills n) (rand_answers r (rand_calls r)), r\<lparr>rand_calls := Suc (rand_calls r)\<rparr>)"

definition GenerateToken :: "entropy \<Rightarrow> (error + TokenValue) \<times> entropy" where
  "GenerateToken r =
     (case rand_Read (MinTokenLength div 2) r of
        (Inl err, r') \<Rightarrow> (Inl err, r')
      | (Inr bytes, r') \<Rightarrow> (Inr (EncodeToString bytes), r'))"

definition GenerateSessionID :: "entropy \<Rightarrow> (error + SessionID) \<times> entropy" where
  "GenerateSessionID r =
     (case GenerateToken r of
        (Inl err, r') \<Rightarrow> (Inl err, r')
      | (Inr token, r') \<Rightarrow> (Inr token, r'))"

definition crypto_random :: "entropy RandomGenerator" where
  "crypto_random = \<lparr>rg_GenerateToken = GenerateToken, rg_GenerateSessionID = GenerateSessionID\<rparr>"

section \<open>The clock\<close>

definition RealClock_Now :: "time \<Rightarrow> time" where
  "RealClock_Now now = now"

definition real_clock :: Clock where
  "real_clock = \<lparr>ck_Now = RealClock_Now\<rparr>"

section \<open>Tokens are long enough and lose no randomness\<close>

lemma length_EncodeToString [simp]: "length (EncodeToString bs) = 2 * length bs"
  by (induction bs) (simp_all add: EncodeToString_def hex_chars_def)

lemma length_fills [simp]: "length (fills n bs) = n"
  by (simp add: fills_def)

lemma hex_val_digit [simp]: "n < 16 \<Longrightarrow> hex_val (hex_digit n) = n"
  by (simp add: hex_val_def hex_digit_def Let_def)

lemma Decode_Encode: "DecodeString (EncodeToString bs) = bs"
proof (induction bs)
  case Nil
  then show ?case by (simp add: EncodeToString_def)
next
  case (Cons b bs)
  have "unat b < 256" using unsigned_less[of b, where 'a = nat] by simp
  then have "unat b div 16 < 16" by (simp add: div_less_iff_less_mult)
  with Cons show ?case by (simp add: EncodeToString_def hex_chars_def)
qed

lemma inj_EncodeToString: "inj EncodeToString"
  by (rule inj_on_inverseI[where g = DecodeString]) (rule Decode_Encode)

lemma GenerateToken_length: "fst (GenerateToken r) = Inr tok \<Longrightarrow> length tok = MinTokenLength"
  by (cases "rand_answers r (rand_calls r)")
    (auto simp: GenerateToken_def rand_Read_def MinTokenLength_def)

lemma GenerateSessionID_eq: "GenerateSessionID r = GenerateToken r"
  by (auto simp: GenerateSessionID_def split: prod.splits sum.splits)

interpretation cr: random_generator crypto_random
  by unfold_locales
    (auto simp: crypto_random_def TokenValue_Validate_def SessionID_Validate_def GenerateSessionID_eq
      MinTokenLength_def dest: GenerateToken_length)

section \<open>Properties\<close>

text \<open>
  C39: A generated token is valid: exactly 32 characters. It encodes the sixteen bytes that were
  drawn without loss: decoding the text gives them back, so different bytes give different tokens.
\<close>

theorem token_roundtrip:
  assumes "GenerateToken r = (Inr tok, r')"
  shows "length tok = MinTokenLength \<and> TokenValue_Validate tok = None \<and>
    (\<exists>bs. fst (rand_Read 16 r) = Inr bs \<and> length bs = 16 \<and> tok = EncodeToString bs \<and> DecodeString tok = bs)"
proof -
  from assms obtain bs where bs: "fst (rand_Read 16 r) = Inr bs" "tok = EncodeToString bs"
    by (auto simp: GenerateToken_def MinTokenLength_def split: prod.splits sum.splits)
  then have "length bs = 16"
    by (cases "rand_answers r (rand_calls r)") (auto simp: rand_Read_def)
  moreover have "length tok = MinTokenLength" using GenerateToken_length[of r tok] assms by simp
  ultimately show ?thesis using bs by (simp add: Decode_Encode TokenValue_Validate_def)
qed

theorem token_roundtrip_witness:
  "length ''0a000000000000000000000000000000'' = MinTokenLength \<and>
   TokenValue_Validate ''0a000000000000000000000000000000'' = None"
proof -
  let ?r = "\<lparr>rand_answers = (\<lambda>_. Inr [10]), rand_calls = 0\<rparr>"
  have "fst (GenerateToken ?r) = Inr ''0a000000000000000000000000000000''" by code_simp
  then have "GenerateToken ?r = (Inr ''0a000000000000000000000000000000'', snd (GenerateToken ?r))"
    by (metis prod.collapse)
  from token_roundtrip[OF this] show ?thesis by blast
qed

end
