(* ===== verification/WrappedRuns.thy ===== *)
theory WrappedRuns
  imports MemoryService CryptoRandom
begin

text \<open>
  Runs of the server's wrapped tools over the in-memory stores, the system clock and the
  cryptographic generator: requests are served one after the other, each by the wrapped handler
  of its tool, and time may pass between them. Every such run is a run of the machine of
  \<open>RatchetSpec\<close>, so what is proved there holds of the program: order and freshness, one-time
  use, dead circles. The session's token lists mirror the token store.
\<close>

section \<open>Serving requests\<close>

datatype 'inp request = CallTool ToolName 'inp | Idle nat

text \<open>
  The log holds the calls whose handler and validation succeeded, with the clock reading that is
  due when the call starts and the one that is due when it ends.
\<close>

fun serve ::
  "'out \<Rightarrow> (ToolName \<Rightarrow> ('inp, 'res, 'out, 'ts, 'ss, 'rg, 'es) handler) \<Rightarrow>
   ('ts, 'ss, 'rg, 'es) RatchetServiceImpl \<Rightarrow> 'inp request \<Rightarrow>
   call list \<times> ('ts, 'ss, 'rg, 'es) world \<Rightarrow> call list \<times> ('ts, 'ss, 'rg, 'es) world" where
  "serve zero hs svc (Idle n) (log, w) = (log, w\<lparr>w_reads := w_reads w + n\<rparr>)"
| "serve zero hs svc (CallTool tool input) (log, w) =
     (case WrapWithRatchet zero tool (hs tool) svc (sessionStore svc) input w of
        (Return (res, out, None), w') \<Rightarrow>
          (log @ [\<lparr>c_tool = tool, c_start = w_wall w (w_reads w), c_done = w_wall w' (w_reads w')\<rparr>], w')
      | (Return (res, out, Some err), w') \<Rightarrow> (log, w')
      | (Panic, w') \<Rightarrow> (log, w'))"

definition serve_all ::
  "'out \<Rightarrow> (ToolName \<Rightarrow> ('inp, 'res, 'out, 'ts, 'ss, 'rg, 'es) handler) \<Rightarrow>
   ('ts, 'ss, 'rg, 'es) RatchetServiceImpl \<Rightarrow> 'inp request list \<Rightarrow>
   ('ts, 'ss, 'rg, 'es) world \<Rightarrow> call list \<times> ('ts, 'ss, 'rg, 'es) world" where
  "serve_all zero hs svc rqs w = fold (serve zero hs svc) rqs ([], w)"

text \<open>The service that \<open>main.go\<close> builds, for any loader, event store and rules.\<close>

definition demo_service ::
  "ConfigLoader \<Rightarrow> 'es EventStore option \<Rightarrow> Rule list \<Rightarrow>
   (MemoryTokenStore, MemorySessionStore, entropy, 'es) RatchetServiceImpl" where
  "demo_service cl es rs = memory_service cl crypto_random real_clock es rs"

text \<open>Entropy that never gives the same sixteen bytes twice.\<close>

definition never_repeats :: "entropy \<Rightarrow> bool" where
  "never_repeats r \<longleftrightarrow>
     (\<forall>i j a b. rand_answers r i = Inr a \<longrightarrow> rand_answers r j = Inr b \<longrightarrow> fills 16 a = fills 16 b \<longrightarrow> i = j)"

section \<open>Where stored tokens come from\<close>

text \<open>Every stored token is the text of an earlier answer of the source.\<close>

definition drawn :: "entropy \<Rightarrow> TokenValue \<Rightarrow> bool" where
  "drawn r tok \<longleftrightarrow> (\<exists>i<rand_calls r. \<exists>bs. rand_answers r i = Inr bs \<and> tok = EncodeToString (fills 16 bs))"

lemma GenerateToken_Inr:
  "fst (GenerateToken r) = Inr tok \<longleftrightarrow>
     (\<exists>bs. rand_answers r (rand_calls r) = Inr bs \<and> tok = EncodeToString (fills 16 bs))"
  by (cases "rand_answers r (rand_calls r)") (auto simp: GenerateToken_def rand_Read_def MinTokenLength_def)

lemma GenerateToken_state: "snd (GenerateToken r) = r\<lparr>rand_calls := Suc (rand_calls r)\<rparr>"
  by (auto simp: GenerateToken_def rand_Read_def split: sum.splits prod.splits)

lemma drawn_later: "drawn r tok \<Longrightarrow> drawn (snd (GenerateToken r)) tok"
  by (auto simp: drawn_def GenerateToken_state less_Suc_eq)

lemma drawn_now: "fst (GenerateToken r) = Inr tok \<Longrightarrow> drawn (snd (GenerateToken r)) tok"
  by (auto simp: drawn_def GenerateToken_Inr GenerateToken_state)

lemma fresh_token:
  assumes "never_repeats r" and "fst (GenerateToken r) = Inr tok"
  shows "\<not> drawn r tok"
proof
  assume "drawn r tok"
  then obtain i bs where i: "i < rand_calls r" "rand_answers r i = Inr bs"
    "tok = EncodeToString (fills 16 bs)" by (auto simp: drawn_def)
  moreover from assms(2) obtain bs' where "rand_answers r (rand_calls r) = Inr bs'"
    "tok = EncodeToString (fills 16 bs')" by (auto simp: GenerateToken_Inr)
  ultimately show False using assms(1) inj_EncodeToString
    unfolding never_repeats_def by (metis injD less_irrefl_nat)
qed

section \<open>The invariant of a run\<close>

text \<open>
  \<open>uniq\<close>: the entropy never repeats an answer. Only then do tokens differ and the session's
  lists mirror the store.
\<close>

definition run_ok ::
  "Rule list \<Rightarrow> bool \<Rightarrow> call list \<times> (MemoryTokenStore, MemorySessionStore, entropy, 'es) world \<Rightarrow> bool" where
  "run_ok rs uniq = (\<lambda>(log, w).
     ratchet_reach rs uniq (ratchet_view token_entries log w) \<and>
     map c_tool log = history_of (sessions (w_ss w)) demo_session \<and>
     sessions_ok (sessions (w_ss w)) (w_heap w) \<and> mono (w_wall w) \<and>
     (uniq \<longrightarrow> never_repeats (w_rg w)) \<and>
     (\<forall>t e. e \<in> set (token_entries (w_ts w) demo_session t) \<longrightarrow> drawn (w_rg w) (fst e)) \<and>
     (uniq \<longrightarrow> (\<forall>t. tokens_in (sessions (w_ss w)) (w_heap w) demo_session t =
                   map fst (token_entries (w_ts w) demo_session t))))"

lemma demo_service_sel [simp]:
  "sessionStore (demo_service cl es rs) = memory_session_store"
  "rules (demo_service cl es rs) = rs"
  "randomGen (demo_service cl es rs) = crypto_random"
  "clock (demo_service cl es rs) = real_clock"
  by (simp_all add: demo_service_def)

lemma demo_clock [simp]: "ck_Now (clock (memory_service cl crypto_random real_clock es rs)) t = t"
  by (simp add: real_clock_def RealClock_Now_def)

lemma run_ok_start:
  assumes "mono wall" and "uniq \<Longrightarrow> never_repeats rg"
  shows "run_ok rs uniq ([], fresh_world wall uuids rg es0)"
proof -
  have "ratchet_view token_entries [] (fresh_world wall uuids rg es0) = init_ratchet (wall 0)"
    by (simp add: ratchet_view_def init_ratchet_def fresh_world_def fun_eq_iff)
  then show ?thesis
    using assms ratchet_reach.start
    by (simp add: run_ok_def fresh_world_def NewMemorySessionStore_def history_of_def tokens_in_def)
qed

lemma run_ok_idle:
  assumes "run_ok rs uniq (log, w)"
  shows "run_ok rs uniq (log, w\<lparr>w_reads := w_reads w + n\<rparr>)"
proof -
  have "ratchet_view token_entries log (w\<lparr>w_reads := w_reads w + n\<rparr>) =
      (ratchet_view token_entries log w)\<lparr>now := w_wall w (w_reads w + n)\<rparr>"
    by (simp add: ratchet_view_def)
  moreover have "now (ratchet_view token_entries log w) \<le> w_wall w (w_reads w + n)"
    using assms by (simp add: run_ok_def ratchet_view_def monoD)
  ultimately have "ratchet_step rs uniq (ratchet_view token_entries log w)
      (ratchet_view token_entries log (w\<lparr>w_reads := w_reads w + n\<rparr>))"
    using ratchet_step.pass by metis
  with assms show ?thesis by (auto simp: run_ok_def intro: ratchet_reach.step)
qed

lemma issued_demo: "issued (demo_service cl es rs) w = Some tok \<longleftrightarrow> fst (GenerateToken (w_rg w)) = Inr tok"
  by (simp add: issued_def crypto_random_def split: sum.splits)

text \<open>A served call draws at most one token, and stores no other new one.\<close>

lemma drawn_mint_consume:
  assumes "\<forall>t e. e \<in> set (b t) \<longrightarrow> drawn r (fst e)"
    and "\<And>tok'. tok = Some tok' \<Longrightarrow> fst (GenerateToken r) = Inr tok'"
    and "e \<in> set (mint rs tool ti tok (consume rs tool tc b) t)"
  shows "drawn (snd (GenerateToken r)) (fst e)"
proof (cases "e \<in> set (consume rs tool tc b t)")
  case True
  then have "e \<in> set (b t)" using consume_subset by blast
  with assms(1) show ?thesis by (blast intro: drawn_later)
next
  case False
  with assms(3) obtain tok' where "tok = Some tok'" "fst e = tok'"
    by (auto simp: mint_def split: option.splits if_splits)
  with assms(2) show ?thesis by (simp add: drawn_now)
qed

text \<open>Spending and issuing keep the session's lists and the store alike.\<close>

lemma mirror_mint_consume:
  assumes "bag_sorted rs r" and "distinct_tokens r" and "\<forall>t. m t = map fst (bag r t)"
  shows "add_token tool tok (drop_token (spent rs tool tc (bag r)) m) t =
    map fst (mint rs tool ti tok (consume rs tool tc (bag r)) t)"
  using assms(3)
  by (auto simp: consume_butlast[OF assms(1,2)] add_token_def drop_token_def mint_def map_butlast
      split: option.splits)

lemma run_ok_call:
  fixes w :: "(MemoryTokenStore, MemorySessionStore, entropy, 'es) world"
  assumes ok: "run_ok rs uniq (log, w)" and leaves: "leaves_ratchet handler"
    and call: "WrapWithRatchet zero tool handler (demo_service cl es rs) memory_session_store input w =
      (Return (res, out, e), w')"
  shows "run_ok rs uniq (if e = None
      then log @ [\<lparr>c_tool = tool, c_start = w_wall w (w_reads w), c_done = w_wall w' (w_reads w')\<rparr>] else log, w')"
proof -
  let ?svc = "demo_service cl es rs" and ?es = "token_entries (w_ts w) demo_session"
  let ?log = "if e = None
      then log @ [\<lparr>c_tool = tool, c_start = w_wall w (w_reads w), c_done = w_wall w' (w_reads w')\<rparr>] else log"
  from ok have reach: "ratchet_reach rs uniq (ratchet_view token_entries log w)"
    and log: "map c_tool log = history_of (sessions (w_ss w)) demo_session"
    and sok: "sessions_ok (sessions (w_ss w)) (w_heap w)" and mono: "mono (w_wall w)"
    and rep: "uniq \<Longrightarrow> never_repeats (w_rg w)"
    and drawn: "\<forall>t e. e \<in> set (?es t) \<longrightarrow> drawn (w_rg w) (fst e)"
    and mirror: "uniq \<Longrightarrow> \<forall>t. tokens_in (sessions (w_ss w)) (w_heap w) demo_session t = map fst (?es t)"
    by (simp_all add: run_ok_def)
  note call'' = call[unfolded demo_service_def, folded memory_service_sel(3)[of cl crypto_random real_clock es rs]]
  have new: "\<And>tok t. uniq \<Longrightarrow> issued ?svc w = Some tok \<Longrightarrow> tok \<notin> fst ` set (?es t)"
    using fresh_token[OF rep] drawn by (fastforce simp: issued_demo)
  note step = ms.wrapped_step[OF call'' leaves sok log demo_clock mono new[unfolded demo_service_def]]
  have rest: "(\<forall>t x. x \<in> set (token_entries (w_ts w') demo_session t) \<longrightarrow> drawn (w_rg w') (fst x)) \<and>
    (uniq \<longrightarrow> never_repeats (w_rg w')) \<and>
    (uniq \<longrightarrow> (\<forall>t. tokens_in (sessions (w_ss w')) (w_heap w') demo_session t =
      map fst (token_entries (w_ts w') demo_session t)))"
  proof (cases e)
    case (Some err)
    from ms.WrapWithRatchet_phases[OF call'' leaves sok] Some
    have "token_entries (w_ts w') = token_entries (w_ts w)" "w_rg w' = w_rg w"
      "tokens_in (sessions (w_ss w')) (w_heap w') = tokens_in (sessions (w_ss w)) (w_heap w)"
      by (auto simp only: option.distinct)
    with drawn mirror rep show ?thesis by simp
  next
    case None
    from log have "c_tool ` set log = set (history_of (sessions (w_ss w)) demo_session)"
      by (metis list.set_map)
    from ms.wrapped_served[OF call''[unfolded None] leaves sok this demo_clock] obtain nc ni where
      en: "token_entries (w_ts w') demo_session = mint rs tool (w_wall w ni) (issued ?svc w)
           (consume rs tool (w_wall w nc) ?es)"
      and tk: "tokens_in (sessions (w_ss w')) (w_heap w') demo_session = add_token tool (issued ?svc w)
           (drop_token (spent rs tool (w_wall w nc) ?es)
              (tokens_in (sessions (w_ss w)) (w_heap w) demo_session))"
      and rg: "w_rg w' = snd (GenerateToken (w_rg w))"
      unfolding demo_service_def memory_service_sel crypto_random_def RandomGenerator.simps by blast
    have "drawn (w_rg w') (fst x)" if "x \<in> set (token_entries (w_ts w') demo_session t)" for x t
      unfolding rg by (rule drawn_mint_consume[OF drawn _ that[unfolded en]]) (simp add: issued_demo)
    moreover have "never_repeats (w_rg w')" if uniq
      using rep[OF that] by (simp add: rg GenerateToken_state never_repeats_def)
    moreover have "tokens_in (sessions (w_ss w')) (w_heap w') demo_session t =
        map fst (token_entries (w_ts w') demo_session t)" if uniq for t
    proof -
      have "distinct_tokens (ratchet_view token_entries log w)"
        using reach that by (intro reach_distinct_tokens) simp
      note mm = mirror_mint_consume[OF reach_bag_sorted[OF reach] this, unfolded ratchet_view_def ratchet.simps]
      show ?thesis unfolding en tk by (rule mm) (rule mirror[OF that])
    qed
    ultimately show ?thesis by blast
  qed
  show ?thesis
    using step reach rest mono
    unfolding run_ok_def memory_service_sel
    by (auto intro: ratchet_reach.step)
qed

lemma run_ok_serve:
  assumes "run_ok rs uniq lw" and "\<And>tool. leaves_ratchet (hs tool)"
  shows "run_ok rs uniq (serve zero hs (demo_service cl es rs) rq lw)"
proof -
  obtain log w where lw: "lw = (log, w)" by fastforce
  show ?thesis
  proof (cases rq)
    case (Idle n)
    with assms(1) lw show ?thesis by (simp add: run_ok_idle)
  next
    case (CallTool tool input)
    obtain v w' where call: "WrapWithRatchet zero tool (hs tool) (demo_service cl es rs)
        memory_session_store input w = (v, w')" by fastforce
    have "v \<noteq> Panic"
      using WrapWithRatchet_returns[of zero tool "hs tool" "demo_service cl es rs" memory_session_store input w]
      by (simp add: call)
    then obtain res out e where v: "v = Return (res, out, e)" by (metis go_result.exhaust prod.exhaust)
    from run_ok_call[OF assms(1)[unfolded lw] assms(2) call[unfolded v]] call v CallTool lw
    show ?thesis by (cases e) simp_all
  qed
qed

lemma run_ok_serve_all:
  assumes "mono wall" and "uniq \<Longrightarrow> never_repeats rg" and "\<And>tool. leaves_ratchet (hs tool)"
  shows "run_ok rs uniq (serve_all zero hs (demo_service cl es rs) rqs (fresh_world wall uuids rg es0))"
proof -
  have "run_ok rs uniq (fold (serve zero hs (demo_service cl es rs)) rqs lw)" if "run_ok rs uniq lw" for lw
    using that by (induction rqs arbitrary: lw) (simp_all add: run_ok_serve assms(3))
  then show ?thesis unfolding serve_all_def by (simp add: run_ok_start assms(1,2))
qed

end
