(* ===== verification/Guarantees.thy ===== *)
theory Guarantees
  imports WrappedRuns
begin

text \<open>
  The guarantees of the ratchet for runs of wrapped tools over the in-memory stores: they are
  runs of the abstract machine; calls come in the order the rules demand and within the expiry
  of their prerequisite; a one-time-use prerequisite pays for one call; tools in a circle are
  never called; without circles every tool can be called; the session mirrors the token store.

  The concrete run of the witnesses: three tools, one of them restricted by a one-time-use rule,
  a clock that counts nanoseconds, a source of 200 different answers.
\<close>

section \<open>A concrete run\<close>

definition ex_rule :: Rule where
  "ex_rule = \<lparr>Tool = ''use'', Prerequisite = ''login'', Expiry = 10 * Second, ErrorMessage = '''',
              OneTimeUse = True\<rparr>"

definition ex_entropy :: entropy where
  "ex_entropy = \<lparr>rand_answers = (\<lambda>i. if i < 200 then Inr [word_of_nat i] else Inl (NewError ''no entropy'')),
                 rand_calls = 0\<rparr>"

definition ex_handler :: "ToolName \<Rightarrow> (unit, unit, unit, 'ts, 'ss, 'rg, 'es) handler" where
  "ex_handler tool input w = ((Some (), (), None), w)"

definition ex_loader :: ConfigLoader where
  "ex_loader = \<lparr>cl_Load = (\<lambda>_. Inr []),
                cl_LoadConfig = (\<lambda>_. Inr \<lparr>Rules = [], Observability = \<lparr>Enabled = False, StorageType = '''', RetentionDays = 0\<rparr>\<rparr>),
                cl_Validate = (\<lambda>_. None)\<rparr>"

definition ex_world :: "(MemoryTokenStore, MemorySessionStore, entropy, unit) world" where
  "ex_world = fresh_world (\<lambda>i. int i) (\<lambda>_. ''uuid'') ex_entropy ()"

definition ex_requests :: "unit request list" where
  "ex_requests = [CallTool ''use'' (), CallTool ''login'' (), CallTool ''use'' (), CallTool ''use'' (), CallTool ''other'' ()]"

definition ex_run :: "call list \<times> (MemoryTokenStore, MemorySessionStore, entropy, unit) world" where
  "ex_run = serve_all () ex_handler (demo_service ex_loader None [ex_rule]) ex_requests ex_world"

lemma ex_handler_leaves [simp]: "leaves_ratchet (ex_handler tool)"
  by (simp add: leaves_ratchet_def ex_handler_def)

lemma ex_entropy_never_repeats [simp]: "never_repeats ex_entropy"
proof -
  have "i = j" if "i < 200" "j < 200" "fills 16 [word_of_nat i :: 8 word] = fills 16 [word_of_nat j]" for i j :: nat
  proof -
    from that(3) have "unat (word_of_nat i :: 8 word) = unat (word_of_nat j :: 8 word)"
      by (simp add: fills_def)
    with that(1,2) show ?thesis by (simp add: unat_of_nat)
  qed
  then show ?thesis by (auto simp: never_repeats_def ex_entropy_def split: if_splits)
qed

lemma mono_int: "mono (\<lambda>i. int i)"
  by (simp add: mono_def)

lemma ex_calls: "map c_tool (fst ex_run) = [''login'', ''use'', ''other'']"
  by code_simp

section \<open>Runs of the program are runs of the machine\<close>

lemma serve_all_run_ok:
  assumes "mono wall" and "uniq \<Longrightarrow> never_repeats rg" and "\<And>tool. leaves_ratchet (hs tool)"
    and "serve_all zero hs (demo_service cl es rs) rqs (fresh_world wall uuids rg es0) = (log, w)"
  shows "run_ok rs uniq (log, w)"
  unfolding assms(4)[symmetric] by (rule run_ok_serve_all) (rule assms(1-3), assumption?)+

lemma run_justified:
  assumes "mono wall" and "\<And>tool. leaves_ratchet (hs tool)"
    and "serve_all zero hs (demo_service cl es rs) rqs (fresh_world wall uuids rg es0) = (log, w)"
    and "i < length log"
  shows "justified rs log i"
proof -
  have "run_ok rs False (log, w)" by (rule serve_all_run_ok[OF assms(1) _ assms(2,3)]) simp
  then have "ratchet_reach rs False (ratchet_view token_entries log w)" by (simp add: run_ok_def)
  from reach_justified[OF this] assms(4) show ?thesis by (simp add: ratchet_view_def)
qed

lemma ex_run_eq:
  "serve_all () ex_handler (demo_service ex_loader None [ex_rule]) ex_requests
     (fresh_world (\<lambda>i. int i) (\<lambda>_. ''uuid'') ex_entropy ()) = (fst ex_run, snd ex_run)"
  by (simp add: ex_run_def ex_world_def)

text \<open>
  C1: Whatever requests are served, in whatever order and with whatever outcomes, the world that
  results stands for a reachable state of the abstract ratchet: every call the program let
  through is a step that the machine allows. The session's history is the log of these calls.
\<close>

theorem run_refines_ratchet:
  assumes "mono wall" and "uniq \<Longrightarrow> never_repeats rg" and "\<And>tool. leaves_ratchet (hs tool)"
    and "serve_all zero hs (demo_service cl es rs) rqs (fresh_world wall uuids rg es0) = (log, w)"
  shows "ratchet_reach rs uniq (ratchet_view token_entries log w) \<and>
    map c_tool log = history_of (sessions (w_ss w)) demo_session"
  using serve_all_run_ok[OF assms] by (simp add: run_ok_def)

theorem run_refines_ratchet_witness:
  "ratchet_reach [ex_rule] True (ratchet_view token_entries (fst ex_run) (snd ex_run)) \<and>
   map c_tool (fst ex_run) = [''login'', ''use'', ''other''] \<and>
   history_of (sessions (w_ss (snd ex_run))) demo_session = [''login'', ''use'', ''other'']"
  using run_refines_ratchet[where uniq = True, OF mono_int ex_entropy_never_repeats ex_handler_leaves
      ex_run_eq] ex_calls by metis

text \<open>
  C2: The ratchet property. A call of a tool whose rules all name a prerequisite comes after a
  call of one of these prerequisites, and it starts earlier than that call's end plus the expiry
  of the prerequisite's tokens.
\<close>

theorem restricted_call_justified:
  assumes "mono wall" and "\<And>tool. leaves_ratchet (hs tool)"
    and "serve_all zero hs (demo_service cl es rs) rqs (fresh_world wall uuids rg es0) = (log, w)"
    and "i < length log" and "restricted rs (c_tool (log ! i))"
  shows "\<exists>ru\<in>set (rules_for rs (c_tool (log ! i))). \<exists>j<i.
    c_tool (log ! j) = Prerequisite ru \<and>
    c_start (log ! i) < c_done (log ! j) + rule_expiry rs (Prerequisite ru)"
  using run_justified[OF assms(1-4)] assms(5) by (simp add: justified_def)

theorem restricted_call_justified_witness:
  "\<exists>ru\<in>set (rules_for [ex_rule] (c_tool (fst ex_run ! 1))). \<exists>j<1.
    c_tool (fst ex_run ! j) = Prerequisite ru \<and>
    c_start (fst ex_run ! 1) < c_done (fst ex_run ! j) + rule_expiry [ex_rule] (Prerequisite ru)"
proof -
  have len: "length (map c_tool (fst ex_run)) = 3" and nth: "map c_tool (fst ex_run) ! 1 = ''use''"
    by (simp_all add: ex_calls)
  then have "1 < length (fst ex_run)" "c_tool (fst ex_run ! 1) = ''use''" by simp_all
  moreover have "restricted [ex_rule] ''use''"
    by (simp add: restricted_def rules_for_def ex_rule_def)
  ultimately show ?thesis
    using restricted_call_justified[OF mono_int ex_handler_leaves ex_run_eq, of 1]
    by simp
qed

text \<open>
  C4: One-time use. When a tool's only rule is one-time-use, the tool has been called at most as
  often as its prerequisite, as long as the random source repeats no answer.
\<close>

theorem one_time_use_count:
  assumes "mono wall" and "never_repeats rg" and "\<And>tool. leaves_ratchet (hs tool)"
    and "serve_all zero hs (demo_service cl es rs) rqs (fresh_world wall uuids rg es0) = (log, w)"
    and "rules_for rs tool = [ru]" and "OneTimeUse ru"
    and "Prerequisite ru \<noteq> ''''" and "Prerequisite ru \<noteq> tool"
  shows "count_list (map c_tool log) tool \<le> count_list (map c_tool log) (Prerequisite ru)"
proof -
  have "run_ok rs True (log, w)" by (rule serve_all_run_ok[OF assms(1,2,3,4)])
  then have "ratchet_reach rs True (ratchet_view token_entries log w)" by (simp add: run_ok_def)
  from reach_paid[OF assms(5,7,6,8) this] show ?thesis
    by (simp add: paid_def times_called_def ratchet_view_def)
qed

theorem one_time_use_count_witness:
  "count_list (map c_tool (fst ex_run)) ''use'' \<le> count_list (map c_tool (fst ex_run)) ''login'' \<and>
   count_list (map c_tool (fst ex_run)) ''use'' = 1"
proof -
  have "rules_for [ex_rule] ''use'' = [ex_rule]" "OneTimeUse ex_rule" "Prerequisite ex_rule = ''login''"
    by (simp_all add: rules_for_def ex_rule_def)
  then show ?thesis
    using one_time_use_count[OF mono_int ex_entropy_never_repeats ex_handler_leaves
        ex_run_eq, of "''use''" ex_rule] by (simp add: ex_calls)
qed

text \<open>
  C9: Tools whose rules wait for each other are never called: if every tool of a set is restricted
  and all prerequisites are in the set, no call of the set is ever let through. The demo server
  does not check its configuration for such circles.
\<close>

theorem circle_never_called:
  assumes "mono wall" and "\<And>tool. leaves_ratchet (hs tool)"
    and "serve_all zero hs (demo_service cl es rs) rqs (fresh_world wall uuids rg es0) = (log, w)"
    and "\<And>tool. tool \<in> S \<Longrightarrow> restricted rs tool \<and> Prerequisite ` set (rules_for rs tool) \<subseteq> S"
  shows "c_tool ` set log \<inter> S = {}"
proof -
  have "run_ok rs False (log, w)" by (rule serve_all_run_ok[OF assms(1) _ assms(2,3)]) simp
  then have "ratchet_reach rs False (ratchet_view token_entries log w)" by (simp add: run_ok_def)
  from dead_circle[OF this assms(4)] have "i < length log \<Longrightarrow> c_tool (log ! i) \<notin> S" for i
    by (simp add: ratchet_view_def)
  then show ?thesis by (auto simp: in_set_conv_nth)
qed

definition ex_circle :: "Rule list" where
  "ex_circle =
     [\<lparr>Tool = ''a'', Prerequisite = ''b'', Expiry = 0, ErrorMessage = '''', OneTimeUse = False\<rparr>,
      \<lparr>Tool = ''b'', Prerequisite = ''a'', Expiry = 0, ErrorMessage = '''', OneTimeUse = False\<rparr>]"

theorem circle_never_called_witness:
  "c_tool ` set (fst (serve_all () ex_handler (demo_service ex_loader None ex_circle)
     [CallTool ''a'' (), CallTool ''b'' (), CallTool ''a'' ()] ex_world)) \<inter> {''a'', ''b''} = {}"
  unfolding ex_world_def
  by (rule circle_never_called[OF mono_int ex_handler_leaves prod.collapse[symmetric]])
    (auto simp: restricted_def rules_for_def ex_circle_def)

text \<open>
  C11: The session mirrors the token store: after any run, the token list the session keeps for a
  tool is the list of the store's entries for it, in the same order.
\<close>

theorem session_mirrors_store:
  assumes "mono wall" and "never_repeats rg" and "\<And>tool. leaves_ratchet (hs tool)"
    and "serve_all zero hs (demo_service cl es rs) rqs (fresh_world wall uuids rg es0) = (log, w)"
  shows "tokens_in (sessions (w_ss w)) (w_heap w) demo_session t =
    map fst (token_entries (w_ts w) demo_session t)"
proof -
  have "run_ok rs True (log, w)" by (rule serve_all_run_ok[OF assms])
  then show ?thesis by (simp add: run_ok_def)
qed

theorem session_mirrors_store_witness:
  "tokens_in (sessions (w_ss (snd ex_run))) (w_heap (snd ex_run)) demo_session ''other'' =
    map fst (token_entries (w_ts (snd ex_run)) demo_session ''other'')"
  by (rule session_mirrors_store[OF mono_int ex_entropy_never_repeats ex_handler_leaves
      ex_run_eq])

section \<open>Without circles every tool can be called\<close>

text \<open>The states of runs with a clock that stands still and a source that never fails.\<close>

definition calm ::
  "Rule list \<Rightarrow> time \<Rightarrow> call list \<times> (MemoryTokenStore, MemorySessionStore, entropy, 'es) world \<Rightarrow> bool" where
  "calm rs t = (\<lambda>(log, w). run_ok rs False (log, w) \<and> w_wall w = (\<lambda>_. t) \<and>
     (\<forall>i. \<exists>bs. rand_answers (w_rg w) i = Inr bs))"

text \<open>The tool was called and a token of it is valid.\<close>

definition ready :: "time \<Rightarrow> ToolName \<Rightarrow> call list \<times> (MemoryTokenStore, 'ss, 'rg, 'es) world \<Rightarrow> bool" where
  "ready t tool = (\<lambda>(log, w).
     tool \<in> c_tool ` set log \<and> live t (token_entries (w_ts w) demo_session tool) \<noteq> [])"

text \<open>A call of the tool uses up no token: it has no rules or its first is not one-time-use.\<close>

definition pays_nothing :: "Rule list \<Rightarrow> ToolName \<Rightarrow> bool" where
  "pays_nothing rs tool = (case first_rule rs tool of None \<Rightarrow> True | Some ru \<Rightarrow> \<not> OneTimeUse ru)"

lemma pays_nothing_consume: "pays_nothing rs tool \<Longrightarrow> consume rs tool t en = en"
  by (simp add: pays_nothing_def consume_def spent_def split: option.splits)

lemma calm_call:
  fixes lw :: "call list \<times> (MemoryTokenStore, MemorySessionStore, entropy, 'es) world"
    and zero :: 'out and input :: 'inp and cl :: ConfigLoader and es :: "'es EventStore option"
    and hs :: "ToolName \<Rightarrow> ('inp, 'res, 'out, MemoryTokenStore, MemorySessionStore, entropy, 'es) handler"
  assumes calm: "calm rs t lw" and leaves: "\<And>tool. leaves_ratchet (hs tool)"
    and handler: "\<And>tool inp w. snd (snd (fst (hs tool inp w))) = None"
    and allowed: "restricted rs tool \<Longrightarrow> \<exists>ru\<in>set (rules_for rs tool). ready t (Prerequisite ru) lw"
  defines "lw' \<equiv> serve zero hs (demo_service cl es rs) (CallTool tool input) lw"
  shows "calm rs t lw' \<and> ready t tool lw' \<and> map c_tool (fst lw') = map c_tool (fst lw) @ [tool] \<and>
    (pays_nothing rs tool \<longrightarrow> (\<forall>p. ready t p lw \<longrightarrow> ready t p lw'))"
proof -
  obtain log w where lw: "lw = (log, w)" by fastforce
  from calm lw have ok: "run_ok rs False (log, w)" and frozen: "w_wall w = (\<lambda>_. t)"
    and rand: "\<forall>i. \<exists>bs. rand_answers (w_rg w) i = Inr bs" by (simp_all add: calm_def)
  from ok have log: "map c_tool log = history_of (sessions (w_ss w)) demo_session"
    and sok: "sessions_ok (sessions (w_ss w)) (w_heap w)" by (simp_all add: run_ok_def)
  have log': "c_tool ` set log = set (history_of (sessions (w_ss w)) demo_session)"
    using log by (metis list.set_map)
  have "allowed rs tool t (ratchet_view token_entries log w)"
    using allowed lw by (auto simp: allowed_def ratchet_view_def ready_def)
  then obtain res out w' where call: "WrapWithRatchet zero tool (hs tool) (demo_service cl es rs)
      memory_session_store input w = (Return (res, out, None), w')"
    using ms.wrapped_succeeds[OF sok frozen log', where rs = rs and tool = tool and handler = "hs tool"
        and cl = cl and rg = crypto_random and ck = real_clock and es = es and zero = zero and input = input]
      handler unfolding demo_service_def memory_service_sel by blast
  from ms.wrapped_served[OF call[unfolded demo_service_def,
        folded memory_service_sel(3)[of cl crypto_random real_clock es rs]] leaves sok log' demo_clock]
  obtain nc ni where
      en: "token_entries (w_ts w') demo_session = mint rs tool (w_wall w ni) (issued (demo_service cl es rs) w)
           (consume rs tool (w_wall w nc) (token_entries (w_ts w) demo_session))"
      and wall: "w_wall w' = w_wall w" and rg: "w_rg w' = snd (GenerateToken (w_rg w))"
    unfolding demo_service_def memory_service_sel crypto_random_def RandomGenerator.simps by blast
  obtain tok where "issued (demo_service cl es rs) w = Some tok"
    using rand by (metis issued_demo GenerateToken_Inr)
  then have live: "live t (token_entries (w_ts w') demo_session tool) \<noteq> []"
    unfolding en by (simp add: mint_def frozen rule_expiry_pos)
  have lw': "lw' = (log @ [\<lparr>c_tool = tool, c_start = w_wall w (w_reads w), c_done = w_wall w' (w_reads w')\<rparr>], w')"
    by (simp add: lw'_def lw call)
  have keeps: "live t (token_entries (w_ts w') demo_session p) \<noteq> []"
    if "pays_nothing rs tool" "live t (token_entries (w_ts w) demo_session p) \<noteq> []" for p
    using that unfolding en pays_nothing_consume[OF that(1)] by (auto simp: mint_def live_def split: option.splits)
  have "run_ok rs False lw'"
    unfolding lw'_def lw by (rule run_ok_serve[OF ok leaves])
  with lw lw' live keeps wall frozen rg rand show ?thesis
    by (auto simp: calm_def ready_def GenerateToken_state)
qed

lemma calm_reach:
  assumes acyclic: "acyclic (dependencies rs)" and leaves: "\<And>tool. leaves_ratchet (hs tool)"
    and handler: "\<And>tool inp w. snd (snd (fst (hs tool inp w))) = None"
  shows "calm rs t lw \<Longrightarrow> \<exists>tools. let lw' = fold (serve zero hs (demo_service cl es rs))
      (map (\<lambda>tl. CallTool tl input) (tools @ [tool])) lw
    in calm rs t lw' \<and> ready t tool lw' \<and> map c_tool (fst lw') = map c_tool (fst lw) @ tools @ [tool]"
proof (induction tool arbitrary: lw rule: wf_induct_rule[OF finite_acyclic_wf_converse[OF _ acyclic]])
  case 1
  show "finite (dependencies rs)" by (simp add: dependencies_def)
next
  case (2 tool)
  show ?case
  proof (cases "restricted rs tool")
    case True
    then have "rules_for rs tool \<noteq> []" by (simp add: restricted_def)
    then obtain ru where ru: "ru \<in> set (rules_for rs tool)" by fastforce
    then have "(Prerequisite ru, tool) \<in> (dependencies rs)\<inverse>"
      by (auto simp: rules_for_def dependencies_def)
    from 2(1)[OF this 2(2)] obtain tools where t: "let lw' = fold (serve zero hs (demo_service cl es rs))
        (map (\<lambda>tl. CallTool tl input) (tools @ [Prerequisite ru])) lw
      in calm rs t lw' \<and> ready t (Prerequisite ru) lw' \<and>
        map c_tool (fst lw') = map c_tool (fst lw) @ tools @ [Prerequisite ru]" by blast
    let ?lw = "fold (serve zero hs (demo_service cl es rs))
        (map (\<lambda>tl. CallTool tl input) (tools @ [Prerequisite ru])) lw"
    from t have "calm rs t ?lw" "ready t (Prerequisite ru) ?lw"
      "map c_tool (fst ?lw) = map c_tool (fst lw) @ tools @ [Prerequisite ru]" by (simp_all only: Let_def)
    with ru calm_call[where hs = hs and tool = tool and zero = zero and cl = cl and es = es and input = input,
        OF \<open>calm rs t ?lw\<close> leaves handler] show ?thesis
      by (intro exI[of _ "tools @ [Prerequisite ru]"]) (auto simp: Let_def)
  next
    case False
    with calm_call[where hs = hs and tool = tool and zero = zero and cl = cl and es = es and input = input,
        OF 2(2) leaves handler] show ?thesis
      by (intro exI[of _ "[]"]) (simp add: Let_def)
  qed
qed

text \<open>
  C10: Liveness. If the rules have no circle, no tool is locked out: there is a sequence of calls
  that ends with a call of the tool and is let through to the end, when the handlers succeed, the random
  source works and no token expires meanwhile (the clock stands still).
\<close>

theorem every_tool_callable:
  assumes "acyclic (dependencies rs)" and "\<And>tool. leaves_ratchet (hs tool)"
    and "\<And>tool inp w. snd (snd (fst (hs tool inp w))) = None"
    and "\<And>i. \<exists>bs. rand_answers rg i = Inr bs"
  shows "\<exists>tools. map c_tool (fst (serve_all zero hs (demo_service cl es rs)
    (map (\<lambda>tl. CallTool tl input) (tools @ [tool])) (fresh_world (\<lambda>_. t) uuids rg es0))) = tools @ [tool]"
proof -
  have "calm rs t ([], fresh_world (\<lambda>_. t) uuids rg es0)"
    using run_ok_start[of "\<lambda>_. t" False] assms(4) by (simp add: calm_def mono_def fresh_world_def)
  from calm_reach[where hs = hs and tool = tool and zero = zero and cl = cl and es = es and input = input,
      OF assms(1-3) this] obtain tools where
    "map c_tool (fst (fold (serve zero hs (demo_service cl es rs)) (map (\<lambda>tl. CallTool tl input) (tools @ [tool]))
       ([], fresh_world (\<lambda>_. t) uuids rg es0))) = tools @ [tool]" by (auto simp only: Let_def fst_conv list.map append_Nil)
  then show ?thesis unfolding serve_all_def by blast
qed

theorem every_tool_callable_witness:
  "\<exists>tools. map c_tool (fst (serve_all () ex_handler (demo_service ex_loader None [ex_rule])
     (map (\<lambda>tl. CallTool tl ()) (tools @ [''use'']))
     (fresh_world (\<lambda>_. 7) (\<lambda>_. ''uuid'') \<lparr>rand_answers = (\<lambda>_. Inr []), rand_calls = 0\<rparr> ()))) = tools @ [''use'']"
proof (rule every_tool_callable)
  have "dependencies [ex_rule] = {(''use'', ''login'')}" by (simp add: dependencies_def ex_rule_def)
  then show "acyclic (dependencies [ex_rule])" by (auto simp: acyclic_def elim: tranclE)
qed (simp_all add: ex_handler_def)

section \<open>Refused calls, rules out of order\<close>

text \<open>
  C14: A call that is refused, or whose handler fails, leaves no trace in the ratchet: tokens in the
  store and in every session, all histories and the random source are as before. It can only have
  created the session, which is empty then.
\<close>

theorem refused_call_changes_nothing:
  assumes "WrapWithRatchet zero tool handler (memory_service cl rg ck es rs) memory_session_store input w =
      (Return (res, out, Some err), w')"
    and "leaves_ratchet handler" and "sessions_ok (sessions (w_ss w)) (w_heap w)"
  shows "token_entries (w_ts w') = token_entries (w_ts w) \<and>
    history_of (sessions (w_ss w')) = history_of (sessions (w_ss w)) \<and>
    tokens_in (sessions (w_ss w')) (w_heap w') = tokens_in (sessions (w_ss w)) (w_heap w) \<and>
    w_rg w' = w_rg w"
  using assms(1)[folded memory_service_sel(3)[of cl rg ck es rs]] assms(2,3)
  by (rule ms.WrapWithRatchet_phases) (simp_all only: option.distinct simp_thms)

theorem refused_call_changes_nothing_witness:
  "case WrapWithRatchet () ''use'' (ex_handler ''use'') (memory_service ex_loader crypto_random real_clock None [ex_rule])
       memory_session_store () ex_world of (v, w') \<Rightarrow>
     v = Return (None, (), Some (WrapError ''ratchet validation failed''
           (NewError ''prerequisite tool login must be called first''))) \<and>
     token_entries (w_ts w') = token_entries (w_ts ex_world) \<and> w_rg w' = w_rg ex_world"
proof -
  let ?call = "WrapWithRatchet () ''use'' (ex_handler ''use'')
    (memory_service ex_loader crypto_random real_clock None [ex_rule]) memory_session_store () ex_world"
  have v: "fst ?call = Return (None, (), Some (WrapError ''ratchet validation failed''
           (NewError ''prerequisite tool login must be called first'')))" by code_simp
  then have call: "?call = (Return (None, (), Some (WrapError ''ratchet validation failed''
           (NewError ''prerequisite tool login must be called first''))), snd ?call)" by (metis prod.collapse)
  have "sessions_ok (sessions (w_ss ex_world)) (w_heap ex_world)"
    by (simp add: ex_world_def fresh_world_def NewMemorySessionStore_def)
  from refused_call_changes_nothing[OF call ex_handler_leaves this] v show ?thesis by (simp add: split_beta)
qed

definition ex_other_rule :: Rule where
  "ex_other_rule = ex_rule\<lparr>Prerequisite := ''admin'', OneTimeUse := False\<rparr>"

lemma calm_repeat:
  assumes leaves: "\<And>tool. leaves_ratchet (hs tool)"
    and handler: "\<And>tool inp w. snd (snd (fst (hs tool inp w))) = None"
    and ru: "ru \<in> set (rules_for rs tool)" and free: "pays_nothing rs tool"
  shows "calm rs t lw \<Longrightarrow> ready t (Prerequisite ru) lw \<Longrightarrow>
    map c_tool (fst (fold (serve zero hs (demo_service cl es rs)) (replicate n (CallTool tool input)) lw)) =
    map c_tool (fst lw) @ replicate n tool"
proof (induction n arbitrary: lw)
  case 0
  show ?case by simp
next
  case (Suc n)
  let ?lw = "serve zero hs (demo_service cl es rs) (CallTool tool input) lw"
  from calm_call[where hs = hs and tool = tool and zero = zero and cl = cl and es = es and input = input,
      OF Suc.prems(1) leaves handler] ru Suc.prems(2) free
  have "calm rs t ?lw" "ready t (Prerequisite ru) ?lw" "map c_tool (fst ?lw) = map c_tool (fst lw) @ [tool]" by blast+
  with Suc.IH[of ?lw] show ?case by (simp only: replicate.simps fold_simps o_apply) simp
qed

text \<open>
  C19: A one-time-use rule binds only when it is the tool's first rule. Whenever the first rule is not
  one-time-use, a single call of the prerequisite of another rule pays for any number of calls of the
  tool, be that rule one-time-use or not and the first rule never satisfied. (No token expires
  meanwhile, the handlers and the random source work.) In front, it would: see C4.
\<close>

theorem one_time_rule_not_first:
  assumes "rules_for rs tool = first # rest" and "\<not> OneTimeUse first" and "ru \<in> set rest"
    and "\<not> restricted rs (Prerequisite ru)"
    and "\<And>tool. leaves_ratchet (hs tool)" and "\<And>tool inp w. snd (snd (fst (hs tool inp w))) = None"
    and "\<And>i. \<exists>bs. rand_answers rg i = Inr bs"
  shows "map c_tool (fst (serve_all zero hs (demo_service cl es rs)
    (map (\<lambda>tl. CallTool tl input) (Prerequisite ru # replicate n tool)) (fresh_world (\<lambda>_. t) uuids rg es0))) =
    Prerequisite ru # replicate n tool"
proof -
  let ?start = "([], fresh_world (\<lambda>_. t) uuids rg es0)"
  let ?lw = "serve zero hs (demo_service cl es rs) (CallTool (Prerequisite ru) input) ?start"
  have "calm rs t ?start" using run_ok_start[of "\<lambda>_. t" False] assms(7) by (simp add: calm_def mono_def fresh_world_def)
  from calm_call[where hs = hs and tool = "Prerequisite ru" and zero = zero and cl = cl and es = es and input = input,
      OF this assms(5,6)] assms(4)
  have lw: "calm rs t ?lw" "ready t (Prerequisite ru) ?lw" "map c_tool (fst ?lw) = [Prerequisite ru]"
    by (simp_all only: fst_conv list.map append_Nil)
  moreover have "ru \<in> set (rules_for rs tool)" "pays_nothing rs tool"
    using assms(2,3) by (simp_all add: assms(1) pays_nothing_def first_rule_hd)
  ultimately have "map c_tool (fst (fold (serve zero hs (demo_service cl es rs)) (replicate n (CallTool tool input)) ?lw)) =
      [Prerequisite ru] @ replicate n tool"
    using calm_repeat[where hs = hs and zero = zero and cl = cl and es = es and n = n and input = input, OF assms(5,6) _ _ lw(1,2)]
    by (simp only: lw(3))
  then show ?thesis by (simp only: serve_all_def list.map map_replicate fold_simps o_apply append_Cons append_Nil)
qed

theorem one_time_rule_not_first_witness:
  "OneTimeUse ex_rule \<and> restricted [ex_other_rule, ex_rule] ''use'' \<and>
   map c_tool (fst (serve_all () ex_handler (demo_service ex_loader None [ex_other_rule, ex_rule])
     (map (\<lambda>tl. CallTool tl ()) (''login'' # replicate 5 ''use'')) (fresh_world (\<lambda>_. 7) (\<lambda>_. ''uuid'') \<lparr>rand_answers = (\<lambda>_. Inr []), rand_calls = 0\<rparr> ()))) =
   ''login'' # replicate 5 ''use''"
proof -
  have r: "rules_for [ex_other_rule, ex_rule] ''use'' = [ex_other_rule, ex_rule]" "\<not> OneTimeUse ex_other_rule"
    "\<not> restricted [ex_other_rule, ex_rule] (Prerequisite ex_rule)" "Prerequisite ex_rule = ''login''"
    by (simp_all add: rules_for_def restricted_def ex_other_rule_def ex_rule_def)
  show ?thesis
    using one_time_rule_not_first[OF r(1,2) _ r(3) ex_handler_leaves,
        where rg = "\<lparr>rand_answers = (\<lambda>_. Inr []), rand_calls = 0\<rparr>" and zero = "()" and cl = ex_loader and es = None
          and input = "()" and n = 5 and t = 7 and uuids = "\<lambda>_. ''uuid''" and ?es0.0 = "()"] r
    by (simp add: ex_handler_def ex_rule_def restricted_def ex_other_rule_def)
qed

end
