(* ===== verification/MemoryEventStore.thy ===== *)
theory MemoryEventStore
  imports Ports "HOL-Library.Sublist"
begin

text \<open>
  \<open>adapters/memory\_event\_store.go\<close>: the in-memory event log with its query loop, its
  statistics, the in-place pruning of expired events and the pruning goroutine with its stop
  channel. The query and statistics loops are shown equal to the reference functions of
  \<open>Ports\<close> (the store interprets the locale \<open>event_store\<close>), the in-place pruning loop equal to
  a filter, and a stopped pruner never prunes again.
\<close>

section \<open>State\<close>

text \<open>
  \<open>stopCh\<close> is a channel with room for one value. Nothing is ever sent on it; it is open or
  closed. \<open>pruner\<close> tells whether the background goroutine is running.
\<close>

record MemoryEventStore =
  events :: "Event list"
  retentionDays :: int
  stopCh_closed :: bool
  pruner :: bool

definition pruneInterval :: duration where
  "pruneInterval = 5 * Minute"

definition NewMemoryEventStore :: "int \<Rightarrow> MemoryEventStore" where
  "NewMemoryEventStore days =
     \<lparr>events = [], retentionDays = days, stopCh_closed = False, pruner = (days > 0)\<rparr>"

section \<open>Operations\<close>

definition MemoryEventStore_Store :: "Event \<Rightarrow> MemoryEventStore \<Rightarrow> error option \<times> MemoryEventStore" where
  "MemoryEventStore_Store e m = (None, m\<lparr>events := events m @ [e]\<rparr>)"

definition matchesFilter :: "Event \<Rightarrow> EventFilter \<Rightarrow> bool" where
  "matchesFilter e f =
     (if length (EventTypes f) > 0 \<and> \<not> List.member (EventTypes f) (EvType e) then False
      else if length (ToolNames f) > 0 \<and> \<not> List.member (ToolNames f) (EvTool e) then False
      else if \<not> time_IsZero (StartTime f) \<and> time_Before (Timestamp e) (StartTime f) then False
      else if \<not> time_IsZero (EndTime f) \<and> time_After (Timestamp e) (EndTime f) then False
      else True)"

text \<open>The loop of \<open>GetEvents\<close>: skip other sessions and refused events, stop at the limit.\<close>

fun get_events_loop ::
  "SessionID \<Rightarrow> EventFilter option \<Rightarrow> Event list \<Rightarrow> Event list \<Rightarrow> Event list" where
  "get_events_loop sid flt result [] = result"
| "get_events_loop sid flt result (e # es) =
     (if EvSession e \<noteq> sid then get_events_loop sid flt result es
      else if (case flt of None \<Rightarrow> False | Some f \<Rightarrow> \<not> matchesFilter e f) then get_events_loop sid flt result es
      else let result' = result @ [e]
           in if (case flt of None \<Rightarrow> False
                  | Some f \<Rightarrow> 0 < sint (Limit f) \<and> sint (Limit f) \<le> int (length result'))
              then result'
              else get_events_loop sid flt result' es)"

definition MemoryEventStore_GetEvents ::
  "SessionID \<Rightarrow> EventFilter option \<Rightarrow> MemoryEventStore \<Rightarrow> error + Event list" where
  "MemoryEventStore_GetEvents sid flt m = Inr (get_events_loop sid flt [] (events m))"

text \<open>The loop of \<open>GetStats\<close> over the statistics and the set of sessions seen.\<close>

fun stats_step :: "EventStats \<times> SessionID set \<Rightarrow> Event \<Rightarrow> EventStats \<times> SessionID set" where
  "stats_step (st, seen) e =
     (let st = st\<lparr>TotalEvents := TotalEvents st + 1,
                   EventsByType := bump (EvType e) (EventsByType st)\<rparr>;
          st = (if EvTool e \<noteq> '''' then st\<lparr>EventsByTool := bump (EvTool e) (EventsByTool st)\<rparr> else st);
          seen = insert (EvSession e) seen;
          st = (if EvType e = EventTypeTokenCreated then st\<lparr>TokensIssued := TokensIssued st + 1\<rparr>
                else if EvType e = EventTypeTokenConsumed then st\<lparr>TokensConsumed := TokensConsumed st + 1\<rparr>
                else st)
      in (st, seen))"

definition empty_stats :: EventStats where
  "empty_stats = \<lparr>TotalEvents = 0, EventsByType = Map.empty, EventsByTool = Map.empty,
                   ActiveSessions = 0, TokensIssued = 0, TokensConsumed = 0\<rparr>"

definition MemoryEventStore_GetStats :: "MemoryEventStore \<Rightarrow> error + EventStats" where
  "MemoryEventStore_GetStats m =
     (let (st, seen) = foldl stats_step (empty_stats, {}) (events m)
      in Inr (st\<lparr>ActiveSessions := card seen\<rparr>))"

text \<open>
  \<open>pruneExpired\<close> filters the slice in place: \<open>kept := m.events[:0]\<close> shares the array, so the
  kept events are written over the front of the array that the loop reads.
\<close>

function prune_loop :: "time \<Rightarrow> Event list \<Rightarrow> nat \<Rightarrow> nat \<Rightarrow> Event list \<times> nat" where
  "prune_loop cutoff arr i kept =
     (if i < length arr then
        (let e = arr ! i
         in if time_After (Timestamp e) cutoff then prune_loop cutoff (arr[kept := e]) (Suc i) (Suc kept)
            else prune_loop cutoff arr (Suc i) kept)
      else (arr, kept))"
  by pat_completeness auto
termination
  by (relation "measure (\<lambda>(cutoff, arr, i, kept). length arr - i)") auto

declare prune_loop.simps [simp del]

text \<open>With the reading \<open>now\<close> of \<open>time.Now()\<close>, in a location with the offsets \<open>zone\<close>.\<close>

definition pruneExpired :: "(time \<Rightarrow> duration) \<Rightarrow> time \<Rightarrow> MemoryEventStore \<Rightarrow> MemoryEventStore" where
  "pruneExpired zone now m =
     (let cutoff = time_AddDate zone now (- retentionDays m);
          (arr, kept) = prune_loop cutoff (events m) 0 0
      in m\<lparr>events := take kept arr\<rparr>)"

text \<open>
  \<open>Stop\<close> receives from the channel if it can, and else closes it. Closing a closed channel
  would panic (\<open>None\<close>). A receive succeeds exactly when the channel is closed.
\<close>

definition close_stopCh :: "MemoryEventStore \<Rightarrow> MemoryEventStore option" where
  "close_stopCh m = (if stopCh_closed m then None else Some (m\<lparr>stopCh_closed := True\<rparr>))"

definition Stop :: "MemoryEventStore \<Rightarrow> MemoryEventStore option" where
  "Stop m = (if stopCh_closed m then Some m else close_stopCh m)"

text \<open>
  One turn of \<open>runPruner\<close>: the goroutine either prunes on a tick of the ticker or, once the
  channel is closed, ends. With both ready, Go chooses either.
\<close>

inductive runPruner :: "(time \<Rightarrow> duration) \<Rightarrow> MemoryEventStore \<Rightarrow> MemoryEventStore \<Rightarrow> bool" where
  tick: "pruner m \<Longrightarrow> runPruner zone m (pruneExpired zone now m)"
| stop: "pruner m \<Longrightarrow> stopCh_closed m \<Longrightarrow> runPruner zone m (m\<lparr>pruner := False\<rparr>)"

definition memory_event_store :: "MemoryEventStore EventStore" where
  "memory_event_store =
     \<lparr>es_Store = MemoryEventStore_Store,
      es_GetEvents = MemoryEventStore_GetEvents,
      es_GetStats = MemoryEventStore_GetStats\<rparr>"

section \<open>Queries\<close>

lemma matchesFilter_admits: "matchesFilter e f \<longleftrightarrow> admits (Some f) e"
  by (auto simp: matchesFilter_def admits_def)

lemma cap_short: "cap f xs = xs" if "\<And>g. f = Some g \<Longrightarrow> 0 < sint (Limit g) \<Longrightarrow> int (length xs) \<le> sint (Limit g)"
  using that by (auto simp: cap_def split: option.splits)

lemma get_events_loop_eq:
  assumes "\<And>g. flt = Some g \<Longrightarrow> 0 < sint (Limit g) \<Longrightarrow> int (length result) < sint (Limit g)"
  shows "get_events_loop sid flt result es =
           cap flt (result @ filter (\<lambda>e. EvSession e = sid \<and> admits flt e) es)"
  using assms
proof (induction es arbitrary: result)
  case Nil
  then show ?case by (auto intro!: cap_short[symmetric] order.strict_implies_order)
next
  case (Cons e es)
  show ?case
  proof (cases "EvSession e = sid \<and> admits flt e")
    case False
    with Cons show ?thesis
      by (auto simp: matchesFilter_admits admits_def split: option.splits)
  next
    case True
    let ?r = "result @ [e]"
    show ?thesis
    proof (cases "\<exists>g. flt = Some g \<and> 0 < sint (Limit g) \<and> sint (Limit g) \<le> int (length ?r)")
      case full: True
      then obtain g where g: "flt = Some g" "0 < sint (Limit g)" "sint (Limit g) \<le> int (length ?r)"
        by blast
      with Cons.prems[of g] have "nat (sint (Limit g)) = length ?r" by simp
      with True g show ?thesis
        by (simp add: cap_def matchesFilter_admits)
    next
      case room: False
      have "get_events_loop sid flt ?r es =
              cap flt (?r @ filter (\<lambda>e. EvSession e = sid \<and> admits flt e) es)"
        by (rule Cons.IH) (use room in force)
      with True room show ?thesis
        by (auto simp: matchesFilter_admits split: option.splits)
    qed
  qed
qed

lemma GetEvents_select:
  "MemoryEventStore_GetEvents sid flt m = Inr (select_events sid flt (events m))"
  by (simp add: MemoryEventStore_GetEvents_def select_events_def get_events_loop_eq)

section \<open>Statistics\<close>

lemma count_events_append [simp]: "count_events P (xs @ ys) = count_events P xs + count_events P ys"
  by (simp add: count_events_def)

lemma count_events_Nil [simp]: "count_events P [] = 0"
  by (simp add: count_events_def)

lemma count_events_single [simp]: "count_events P [e] = (if P e then 1 else 0)"
  by (simp add: count_events_def)

lemma stats_step_snoc:
  "stats_step ((stats_of es)\<lparr>ActiveSessions := 0\<rparr>, seen) e =
     ((stats_of (es @ [e]))\<lparr>ActiveSessions := 0\<rparr>, insert (EvSession e) seen)"
proof -
  have types: "EventTypeTokenCreated \<noteq> EventTypeTokenConsumed" by (simp add: event_types)
  have flip: "(\<lambda>x. c x + (if x = k then 1 else 0)) = (\<lambda>x. c x + (if k = x then 1 else 0))"
    for c :: "string \<Rightarrow> nat" and k by (simp add: fun_eq_iff)
  show ?thesis
    using types by (cases "EvTool e = []") (simp_all add: stats_of_def bump_counter flip)
qed

lemma stats_fold:
  "foldl stats_step (empty_stats, {}) es = ((stats_of es)\<lparr>ActiveSessions := 0\<rparr>, EvSession ` set es)"
proof (induction es rule: rev_induct)
  case Nil
  then show ?case by (simp add: stats_of_def empty_stats_def)
next
  case (snoc e es)
  then show ?case by (simp add: stats_step_snoc del: stats_step.simps)
qed

lemma GetStats_stats_of: "MemoryEventStore_GetStats m = Inr (stats_of (events m))"
  by (simp add: MemoryEventStore_GetStats_def stats_fold stats_of_def)

interpretation mes: event_store memory_event_store events
  by unfold_locales
    (simp_all add: memory_event_store_def MemoryEventStore_Store_def GetEvents_select GetStats_stats_of)

section \<open>Pruning\<close>

lemma prune_loop_filter:
  "kept \<le> i \<Longrightarrow> prune_loop cutoff arr i kept = (arr', k) \<Longrightarrow>
   take k arr' = take kept arr @ filter (\<lambda>e. cutoff < Timestamp e) (drop i arr)"
proof (induction cutoff arr i kept rule: prune_loop.induct)
  case (1 cutoff arr i kept)
  show ?case
  proof (cases "i < length arr")
    case False
    with "1.prems" show ?thesis by (simp add: prune_loop.simps[of cutoff arr i kept])
  next
    case True
    then have drop: "drop i arr = arr ! i # drop (Suc i) arr" by (rule Cons_nth_drop_Suc[symmetric])
    show ?thesis
    proof (cases "cutoff < Timestamp (arr ! i)")
      case keep: True
      let ?arr = "arr[kept := arr ! i]"
      have "take k arr' = take (Suc kept) ?arr @ filter (\<lambda>e. cutoff < Timestamp e) (drop (Suc i) ?arr)"
        using "1.IH"(1)[OF True refl] "1.prems" keep True
        by (simp add: prune_loop.simps[of cutoff arr i kept])
      moreover have "take (Suc kept) ?arr = take kept arr @ [arr ! i]"
        using "1.prems"(1) True by (simp add: take_Suc_conv_app_nth)
      ultimately show ?thesis using drop keep "1.prems"(1) by simp
    next
      case False
      with "1.IH"(2)[OF True refl] "1.prems" True drop show ?thesis
        by (simp add: prune_loop.simps[of cutoff arr i kept])
    qed
  qed
qed

lemma pruneExpired_filter:
  "pruneExpired zone now m =
     m\<lparr>events := filter (\<lambda>e. time_AddDate zone now (- retentionDays m) < Timestamp e) (events m)\<rparr>"
  using prune_loop_filter[of 0 0 _ "events m"]
  by (simp add: pruneExpired_def Let_def split: prod.splits)

section \<open>The pruner and its stop channel\<close>

inductive_cases runPrunerE: "runPruner zone m m'"
inductive_simps runPruner_iff: "runPruner zone m m'"

lemma runPruner_fields:
  "runPruner zone m m' \<Longrightarrow> retentionDays m' = retentionDays m \<and> stopCh_closed m' = stopCh_closed m
     \<and> set (events m') \<subseteq> set (events m)"
  by (auto simp: runPruner_iff pruneExpired_filter)

lemma Stop_total: "\<exists>m'. Stop m = Some m' \<and> stopCh_closed m' \<and> events m' = events m \<and> pruner m' = pruner m"
  by (simp add: Stop_def close_stopCh_def)

section \<open>What can happen to the store\<close>

text \<open>
  Storing, pruning and stopping in any order; \<open>kept\<close> is every event ever stored.
\<close>

inductive event_store_run :: "(time \<Rightarrow> duration) \<Rightarrow> int \<Rightarrow> Event list \<Rightarrow> MemoryEventStore \<Rightarrow> bool"
  for zone days where
  new: "event_store_run zone days [] (NewMemoryEventStore days)"
| store: "event_store_run zone days kept m \<Longrightarrow>
    event_store_run zone days (kept @ [e]) (snd (MemoryEventStore_Store e m))"
| prune: "event_store_run zone days kept m \<Longrightarrow> runPruner zone m m' \<Longrightarrow> event_store_run zone days kept m'"
| stop: "event_store_run zone days kept m \<Longrightarrow> Stop m = Some m' \<Longrightarrow> event_store_run zone days kept m'"

lemma event_store_run_inv:
  "event_store_run zone days kept m \<Longrightarrow>
     retentionDays m = days \<and> (pruner m \<longrightarrow> 0 < days) \<and> subseq (events m) kept \<and>
     (days \<le> 0 \<longrightarrow> events m = kept)"
proof (induction rule: event_store_run.induct)
  case new
  then show ?case by (simp add: NewMemoryEventStore_def)
next
  case (store kept m e)
  then show ?case by (simp add: MemoryEventStore_Store_def)
next
  case (prune kept m m')
  then show ?case
    by (auto simp: runPruner_iff pruneExpired_filter intro: subseq_order.trans[OF subseq_filter_left])
next
  case (stop kept m m')
  then show ?case by (auto simp: Stop_def close_stopCh_def split: if_splits)
qed

section \<open>Properties\<close>

text \<open>
  Queries: the loop over the log, with its early exit at the limit, returns the events of the
  session that the filter admits, in the order they were stored, the first \<open>Limit\<close> of them when
  the limit is positive and all of them otherwise.
\<close>

theorem get_events_reference:
  "MemoryEventStore_GetEvents sid flt m = Inr (select_events sid flt (events m))"
  by (rule GetEvents_select)

text \<open>
  Statistics: one pass of counters gives the totals of the log: all events, those of each type,
  those of each tool (events without a tool are not counted there), the number of different
  sessions, the tokens issued and consumed.
\<close>

theorem get_stats_reference: "MemoryEventStore_GetStats m = Inr (stats_of (events m))"
  by (rule GetStats_stats_of)

text \<open>
  C36: Pruning: filtering the slice in place, writing kept events over the front of the array the
  loop reads, leaves exactly the events younger than the retention period, in their order.
\<close>

theorem prune_in_place:
  "pruneExpired zone now m =
     m\<lparr>events := filter (\<lambda>e. time_AddDate zone now (- retentionDays m) < Timestamp e) (events m)\<rparr>"
  by (rule pruneExpired_filter)

text \<open>
  C37: No event is invented, reordered or duplicated by whatever sequence of storing, pruning and
  stopping, and with a retention of 0 days (or less) no event is ever lost.
\<close>

theorem retention_keeps:
  assumes "event_store_run zone days kept m"
  shows "subseq (events m) kept \<and> (days \<le> 0 \<longrightarrow> events m = kept)"
  using event_store_run_inv[OF assms] by simp

theorem retention_keeps_witness:
  "subseq (events (pruneExpired (\<lambda>_. 0) civil_day (NewMemoryEventStore 1))) []"
proof -
  have "event_store_run (\<lambda>_. 0) 1 [] (NewMemoryEventStore 1)" by (rule event_store_run.new)
  moreover have "runPruner (\<lambda>_. 0) (NewMemoryEventStore 1) (pruneExpired (\<lambda>_. 0) civil_day (NewMemoryEventStore 1))"
    by (rule runPruner.tick) (simp add: NewMemoryEventStore_def)
  ultimately show ?thesis using retention_keeps event_store_run.prune by blast
qed

lemma stop_turn: "stopCh_closed m \<Longrightarrow> runPruner zone m (m\<lparr>pruner := False\<rparr>) = pruner m"
  by (auto intro: runPruner.stop elim: runPrunerE)

text \<open>
  \<open>Stop\<close> called one after the other any number of times never panics, keeps the events, and
  leaves the channel closed, so that the pruning goroutine, if one runs, can end in one turn; once
  ended it takes no turn any more.
\<close>

theorem stop_repeatable:
  "\<exists>m'. ((\<lambda>x. Option.bind x Stop) ^^ Suc n) (Some m) = Some m' \<and> events m' = events m \<and> stopCh_closed m' \<and>
     runPruner zone m' (m'\<lparr>pruner := False\<rparr>) = pruner m \<and> \<not> runPruner zone (m'\<lparr>pruner := False\<rparr>) m''"
proof (induction n)
  case 0
  from Stop_total[of m] obtain m' where "Stop m = Some m'" "stopCh_closed m'" "events m' = events m"
    "pruner m' = pruner m" by blast
  then show ?case by (auto simp: stop_turn elim: runPrunerE)
next
  case (Suc n)
  then obtain m' where m': "((\<lambda>x. Option.bind x Stop) ^^ Suc n) (Some m) = Some m'" "events m' = events m"
    "stopCh_closed m'" "runPruner zone m' (m'\<lparr>pruner := False\<rparr>) = pruner m"
    "\<not> runPruner zone (m'\<lparr>pruner := False\<rparr>) m''" by blast
  have "((\<lambda>x. Option.bind x Stop) ^^ Suc (Suc n)) (Some m) = Stop m'"
    using m'(1) by (simp only: funpow.simps o_apply bind.bind_lunit)
  moreover have "Stop m' = Some m'" using m'(3) by (simp add: Stop_def)
  ultimately show ?case using m'(2-5) by (intro exI[of _ m']) (simp only: simp_thms)
qed

section \<open>Concurrent calls of Stop\<close>

text \<open>
  Several goroutines call \<open>Stop\<close>; the receive that may fail and the \<open>close\<close> are two steps, and no
  lock is held. A schedule is the list of callers in the order of their steps.
\<close>

datatype stop_phase = StopSelect | StopClose | StopReturned | StopPanicked

fun stop_next :: "MemoryEventStore \<times> stop_phase \<Rightarrow> MemoryEventStore \<times> stop_phase" where
  "stop_next (m, StopSelect) = (m, if stopCh_closed m then StopReturned else StopClose)"
| "stop_next (m, StopClose) =
     (case close_stopCh m of None \<Rightarrow> (m, StopPanicked) | Some m' \<Rightarrow> (m', StopReturned))"
| "stop_next (m, StopReturned) = (m, StopReturned)"
| "stop_next (m, StopPanicked) = (m, StopPanicked)"

definition stop_turn_of :: "nat \<Rightarrow> MemoryEventStore \<times> stop_phase list \<Rightarrow> MemoryEventStore \<times> stop_phase list" where
  "stop_turn_of i st =
     (if i < length (snd st)
      then let (m, ph) = stop_next (fst st, snd st ! i) in (m, (snd st)[i := ph])
      else st)"

definition stop_schedule :: "nat list \<Rightarrow> nat \<Rightarrow> MemoryEventStore \<Rightarrow> MemoryEventStore \<times> stop_phase list" where
  "stop_schedule acts n m = fold stop_turn_of acts (m, replicate n StopSelect)"

text \<open>Two turns of a caller in a row are \<open>Stop\<close>.\<close>

lemma stop_next_Stop:
  "stop_next (stop_next (m, StopSelect)) =
     (case Stop m of None \<Rightarrow> (m, StopPanicked) | Some m' \<Rightarrow> (m', StopReturned))"
  by (simp add: Stop_def close_stopCh_def)

definition stop_inv :: "MemoryEventStore \<Rightarrow> MemoryEventStore \<times> stop_phase list \<Rightarrow> bool" where
  "stop_inv m0 st \<longleftrightarrow>
     events (fst st) = events m0 \<and> pruner (fst st) = pruner m0 \<and>
     (\<forall>ph\<in>set (snd st). ph \<in> {StopReturned, StopPanicked} \<longrightarrow> stopCh_closed (fst st))"

lemma stop_inv_turn: "stop_inv m0 st \<Longrightarrow> stop_inv m0 (stop_turn_of i st)"
proof -
  assume inv: "stop_inv m0 st"
  obtain m phs where st: "st = (m, phs)" by fastforce
  obtain m' ph' where turn: "stop_next (m, phs ! i) = (m', ph')" by fastforce
  have "events m' = events m \<and> pruner m' = pruner m \<and> (stopCh_closed m \<longrightarrow> stopCh_closed m') \<and>
      (ph' \<in> {StopReturned, StopPanicked} \<longrightarrow> stopCh_closed m')" if "i < length phs"
  proof -
    from inv st have "\<forall>ph\<in>set phs. ph \<in> {StopReturned, StopPanicked} \<longrightarrow> stopCh_closed m"
      by (simp add: stop_inv_def)
    then have "phs ! i \<in> {StopReturned, StopPanicked} \<longrightarrow> stopCh_closed m"
      using nth_mem[OF that] by (rule bspec)
    with turn show ?thesis by (cases "phs ! i") (auto simp: close_stopCh_def split: if_splits)
  qed
  note step = this
  show ?thesis
  proof (cases "i < length phs")
    case True
    have "\<forall>ph\<in>set (phs[i := ph']). ph \<in> {StopReturned, StopPanicked} \<longrightarrow> stopCh_closed m'"
    proof
      fix ph assume "ph \<in> set (phs[i := ph'])"
      then consider "ph = ph'" | "ph \<in> set phs" using set_update_subset_insert[of phs i ph'] by blast
      then show "ph \<in> {StopReturned, StopPanicked} \<longrightarrow> stopCh_closed m'"
        using step[OF True] inv by cases (auto simp: stop_inv_def st)
    qed
    with True inv turn step[OF True] show ?thesis by (simp add: stop_inv_def stop_turn_of_def st)
  next
    case False
    with inv show ?thesis by (simp add: stop_turn_of_def st)
  qed
qed

text \<open>
  C38: However calls of \<open>Stop\<close> interleave, no event is lost and the channel is closed as soon as one
  call has ended. But \<open>Stop\<close> is not safe for concurrent use: of two callers that both find the
  channel open, one closes it twice and panics.
\<close>

theorem concurrent_stop:
  "events (fst (stop_schedule acts n m)) = events m \<and>
   (stopCh_closed (fst (stop_schedule acts n m)) \<or>
    set (snd (stop_schedule acts n m)) \<subseteq> {StopSelect, StopClose}) \<and>
   snd (stop_schedule [0, 1, 0, 1] 2 (NewMemoryEventStore days)) = [StopReturned, StopPanicked]"
proof (intro conjI)
  have "stop_inv m (fold stop_turn_of acts st)" if "stop_inv m st" for st
    using that by (induction acts arbitrary: st) (simp_all add: stop_inv_turn)
  then have inv: "stop_inv m (stop_schedule acts n m)" by (simp add: stop_schedule_def stop_inv_def)
  then show "events (fst (stop_schedule acts n m)) = events m" by (simp add: stop_inv_def)
  have "ph \<in> {StopSelect, StopClose} \<or> ph \<in> {StopReturned, StopPanicked}" for ph by (cases ph) simp_all
  with inv show "stopCh_closed (fst (stop_schedule acts n m)) \<or>
      set (snd (stop_schedule acts n m)) \<subseteq> {StopSelect, StopClose}"
    unfolding stop_inv_def by blast
  show "snd (stop_schedule [0, 1, 0, 1] 2 (NewMemoryEventStore days)) = [StopReturned, StopPanicked]"
    by (simp add: stop_schedule_def stop_turn_of_def numeral_2_eq_2 close_stopCh_def NewMemoryEventStore_def)
qed

end
