(* ===== verification/EventStores.thy ===== *)
theory EventStores
  imports MemoryEventStore
begin

text \<open>
  \<open>adapters/broadcasting\_event\_store.go\<close> and \<open>adapters/event\_store\_factory.go\<close>: the store
  that forwards each event it has persisted to a broadcaster, and the factory that picks a
  store from the observability configuration.

  The broadcaster is an interface of the program with the one method \<open>Broadcast\<close>; the demo
  server's implementation is in \<open>DemoServer\<close>.
\<close>

section \<open>Broadcasting\<close>

record 'bc EventBroadcaster =
  bc_Broadcast :: "SessionID \<Rightarrow> Event \<Rightarrow> 'bc \<Rightarrow> 'bc"

text \<open>The state is that of the base store and that of the broadcaster; a nil broadcaster is \<open>None\<close>.\<close>

definition BroadcastingEventStore_Store ::
  "'es EventStore \<Rightarrow> 'bc EventBroadcaster option \<Rightarrow> Event \<Rightarrow> 'es \<times> 'bc \<Rightarrow> error option \<times> 'es \<times> 'bc" where
  "BroadcastingEventStore_Store base broadcaster e st =
     (case es_Store base e (fst st) of
        (Some err, b') \<Rightarrow> (Some (WrapError ''failed to store event'' err), b', snd st)
      | (None, b') \<Rightarrow>
          (None, b', (case broadcaster of
                        None \<Rightarrow> snd st
                      | Some bc \<Rightarrow> bc_Broadcast bc (EvSession e) e (snd st))))"

definition BroadcastingEventStore_GetEvents ::
  "'es EventStore \<Rightarrow> SessionID \<Rightarrow> EventFilter option \<Rightarrow> 'es \<times> 'bc \<Rightarrow> error + Event list" where
  "BroadcastingEventStore_GetEvents base sid flt st = es_GetEvents base sid flt (fst st)"

definition BroadcastingEventStore_GetStats :: "'es EventStore \<Rightarrow> 'es \<times> 'bc \<Rightarrow> error + EventStats" where
  "BroadcastingEventStore_GetStats base st = es_GetStats base (fst st)"

definition NewBroadcastingEventStore ::
  "'es EventStore \<Rightarrow> 'bc EventBroadcaster option \<Rightarrow> ('es \<times> 'bc) EventStore" where
  "NewBroadcastingEventStore base broadcaster =
     \<lparr>es_Store = BroadcastingEventStore_Store base broadcaster,
      es_GetEvents = BroadcastingEventStore_GetEvents base,
      es_GetStats = BroadcastingEventStore_GetStats base\<rparr>"

text \<open>A broadcasting store over any store that keeps the contract keeps the contract.\<close>

context event_store
begin

lemma broadcasting_contract: "event_store (NewBroadcastingEventStore ES bc) (evs \<circ> fst)"
proof (unfold_locales, goal_cases)
  case (1 e st)
  show ?case using event_store_ok[of e "fst st"]
    by (auto simp: NewBroadcastingEventStore_def BroadcastingEventStore_Store_def split: prod.splits)
next
  case (2 e st)
  show ?case using event_store_ok[of e "fst st"] event_store_appends[of e "fst st"]
    by (auto simp: NewBroadcastingEventStore_def BroadcastingEventStore_Store_def split: prod.splits)
qed (simp_all add: NewBroadcastingEventStore_def BroadcastingEventStore_GetEvents_def
      BroadcastingEventStore_GetStats_def event_query event_stats)

end

interpretation bes: event_store "NewBroadcastingEventStore memory_event_store bc" "events \<circ> fst" for bc
  by (rule mes.broadcasting_contract)

section \<open>The factory\<close>

text \<open>
  \<open>%q\<close> of a text of ASCII characters; bytes from 128 on are kept, as \<open>strconv.Quote\<close> keeps a
  printable rune.
\<close>

definition quote_q_char :: "char \<Rightarrow> string" where
  "quote_q_char c =
     (let n = (of_char c :: nat); esc = (\<lambda>d. [CHR 0x5C, d]) in
      if n = 7 then esc CHR ''a'' else if n = 8 then esc CHR ''b'' else if n = 9 then esc CHR ''t''
      else if n = 10 then esc CHR ''n'' else if n = 11 then esc CHR ''v'' else if n = 12 then esc CHR ''f''
      else if n = 13 then esc CHR ''r'' else if n = 34 \<or> n = 92 then esc c
      else if n < 32 \<or> n = 127 then [CHR 0x5C, CHR ''x'', hex_digit (n div 16), hex_digit (n mod 16)]
      else [c])"

definition quote_q :: "string \<Rightarrow> string" where
  "quote_q s = [CHR 0x22] @ concat (map quote_q_char s) @ [CHR 0x22]"

record 'c factoryOptions =
  customStore :: "'c option"

definition WithCustomStore :: "'c \<Rightarrow> 'c factoryOptions \<Rightarrow> 'c factoryOptions" where
  "WithCustomStore store opts = opts\<lparr>customStore := Some store\<rparr>"

text \<open>The store that is returned: the caller's, or a new memory store.\<close>

datatype 'c built_store = Custom 'c | Memory MemoryEventStore

definition NewEventStore ::
  "ObservabilityConfig \<Rightarrow> ('c factoryOptions \<Rightarrow> 'c factoryOptions) list \<Rightarrow> error + 'c built_store option" where
  "NewEventStore cfg opts =
     (if \<not> Enabled cfg then Inr None
      else let options = foldl (\<lambda>o' opt. opt o') \<lparr>customStore = None\<rparr> opts
      in case customStore options of
           Some store \<Rightarrow> Inr (Some (Custom store))
         | None \<Rightarrow>
             if StorageType cfg = '''' \<or> StorageType cfg = ''memory''
             then Inr (Some (Memory (NewMemoryEventStore (RetentionDays cfg))))
             else Inl (NewError (''unsupported observability storage_type '' @ quote_q (StorageType cfg)
                        @ '': use WithCustomStore() to register a custom backend'')))"

section \<open>Properties\<close>

lemma broadcasting_memory_step:
  "es_Store (NewBroadcastingEventStore memory_event_store bc) e (m, b) =
     (None, snd (MemoryEventStore_Store e m),
      (case bc of None \<Rightarrow> b | Some c \<Rightarrow> bc_Broadcast c (EvSession e) e b))"
  by (simp add: NewBroadcastingEventStore_def BroadcastingEventStore_Store_def memory_event_store_def
      MemoryEventStore_Store_def split: option.splits)

text \<open>
  The broadcasting store refines the store it wraps: after any sequence of events it answers
  every query as the memory store alone would, and the broadcaster has been given each event once,
  in order, for the event's own session.
\<close>

theorem broadcasting_refines:
  "fold (\<lambda>e st. snd (es_Store (NewBroadcastingEventStore memory_event_store (Some bc)) e st)) es (m, b) =
     (fold (\<lambda>e m. snd (MemoryEventStore_Store e m)) es m, fold (\<lambda>e. bc_Broadcast bc (EvSession e) e) es b) \<and>
   es_GetEvents (NewBroadcastingEventStore memory_event_store (Some bc)) sid flt (m, b) =
     MemoryEventStore_GetEvents sid flt m \<and>
   es_GetStats (NewBroadcastingEventStore memory_event_store (Some bc)) (m, b) = MemoryEventStore_GetStats m"
proof -
  have "fold (\<lambda>e st. snd (es_Store (NewBroadcastingEventStore memory_event_store (Some bc)) e st)) es (m, b) =
     (fold (\<lambda>e m. snd (MemoryEventStore_Store e m)) es m, fold (\<lambda>e. bc_Broadcast bc (EvSession e) e) es b)"
    by (induction es arbitrary: m b) (simp_all add: broadcasting_memory_step)
  then show ?thesis
    by (simp add: NewBroadcastingEventStore_def BroadcastingEventStore_GetEvents_def
        BroadcastingEventStore_GetStats_def memory_event_store_def)
qed

text \<open>
  An event that the base store refuses is not broadcast; the error is passed on with its cause.
\<close>

lemma refused_event_not_broadcast:
  assumes "es_Store base e b = (Some err, b')"
  shows "BroadcastingEventStore_Store base bc e (b, s) =
    (Some (WrapError ''failed to store event'' err), b', s)"
  using assms by (simp add: BroadcastingEventStore_Store_def)

text \<open>
  The factory gives no store when observability is off, whatever the options; else the custom
  store that was registered last; else a memory store with the configured retention when the
  storage type is empty or \<open>memory\<close>; every other storage type is an error.
\<close>

lemma factory_choice:
  "NewEventStore cfg (map WithCustomStore stores) =
     (if \<not> Enabled cfg then Inr None
      else if stores \<noteq> [] then Inr (Some (Custom (last stores)))
      else if StorageType cfg \<in> {'''', ''memory''}
      then Inr (Some (Memory (NewMemoryEventStore (RetentionDays cfg))))
      else Inl (NewError (''unsupported observability storage_type '' @ quote_q (StorageType cfg)
             @ '': use WithCustomStore() to register a custom backend'')))"
proof -
  have "customStore (foldl (\<lambda>o' opt. opt o') opts (map WithCustomStore stores)) =
      (if stores = [] then customStore opts else Some (last stores))" for opts :: "'a factoryOptions"
    by (induction stores arbitrary: opts) (simp_all add: WithCustomStore_def)
  then show ?thesis by (simp add: NewEventStore_def)
qed

end
