(* ===== verification/YamlLoader.thy ===== *)
theory YamlLoader
  imports Ports
begin

text \<open>
  \<open>adapters/yaml\_loader.go\<close>: loading rules and the observability settings from a decoded
  YAML document, and the search for circular dependencies. The YAML package is not part of the
  repository: its decoder is the parameter \<open>decode\<close>.

  \<open>Validate\<close> is the depth-first search of the source, with its \<open>visited\<close> and
  \<open>recursionStack\<close> maps as sets; it is shown to report an error exactly for the rule lists whose
  dependency relation has a cycle, in whichever order Go ranges over the adjacency map.
\<close>

section \<open>Decoded documents\<close>

record ruleConfig =
  rc_Tool :: string
  rc_Prerequisite :: string
  rc_Expiry :: string
  rc_ErrorMessage :: string
  rc_OneTimeUse :: bool

record config =
  cfg_Rules :: "ruleConfig list"
  cfg_Observability :: ObservabilityConfig

section \<open>Loading\<close>

text \<open>The loop of \<open>LoadConfig\<close>; \<open>rules\<close> is the slice built so far.\<close>

fun LoadConfig_loop :: "Rule list \<Rightarrow> ruleConfig list \<Rightarrow> error + Rule list" where
  "LoadConfig_loop rules [] = Inr rules"
| "LoadConfig_loop rules (rc # rcs) =
     (case (if rc_Expiry rc \<noteq> '''' then ParseDuration (rc_Expiry rc) else Inr (5 * Minute)) of
        Inl err \<Rightarrow> Inl (WrapError (''invalid expiry duration for tool '' @ rc_Tool rc) err)
      | Inr expiry \<Rightarrow>
          let rule = \<lparr>Tool = rc_Tool rc, Prerequisite = rc_Prerequisite rc, Expiry = expiry,
                      ErrorMessage = rc_ErrorMessage rc, OneTimeUse = rc_OneTimeUse rc\<rparr>
          in case Rule_Validate rule of
               Some err \<Rightarrow> Inl (WrapError (''invalid rule for tool '' @ rc_Tool rc) err)
             | None \<Rightarrow> LoadConfig_loop (rules @ [rule]) rcs)"

definition LoadConfig :: "(string \<Rightarrow> error + config) \<Rightarrow> string \<Rightarrow> error + RatchetConfig" where
  "LoadConfig decode source =
     (case decode source of
        Inl err \<Rightarrow> Inl (WrapError ''failed to decode YAML'' err)
      | Inr cfg \<Rightarrow>
          (case LoadConfig_loop [] (cfg_Rules cfg) of
             Inl err \<Rightarrow> Inl err
           | Inr rules \<Rightarrow> Inr \<lparr>Rules = rules, Observability = cfg_Observability cfg\<rparr>))"

text \<open>The loop of \<open>Load\<close>.\<close>

fun Load_loop :: "Rule list \<Rightarrow> ruleConfig list \<Rightarrow> error + Rule list" where
  "Load_loop rules [] = Inr rules"
| "Load_loop rules (rc # rcs) =
     (let expiry = 5 * Minute
      in case (if rc_Expiry rc \<noteq> '''' then ParseDuration (rc_Expiry rc) else Inr expiry) of
        Inl err \<Rightarrow> Inl (WrapError (''invalid expiry duration for tool '' @ rc_Tool rc) err)
      | Inr expiry \<Rightarrow>
          let rule = \<lparr>Tool = rc_Tool rc, Prerequisite = rc_Prerequisite rc, Expiry = expiry,
                      ErrorMessage = rc_ErrorMessage rc, OneTimeUse = rc_OneTimeUse rc\<rparr>
          in case Rule_Validate rule of
               Some err \<Rightarrow> Inl (WrapError (''invalid rule for tool '' @ rc_Tool rc) err)
             | None \<Rightarrow> Load_loop (rules @ [rule]) rcs)"

definition Load :: "(string \<Rightarrow> error + config) \<Rightarrow> string \<Rightarrow> error + Rule list" where
  "Load decode source =
     (case decode source of
        Inl err \<Rightarrow> Inl (WrapError ''failed to decode YAML'' err)
      | Inr cfg \<Rightarrow> Load_loop [] (cfg_Rules cfg))"

section \<open>Circular dependencies\<close>

text \<open>\<open>adj[rule.Tool] = append(adj[rule.Tool], rule.Prerequisite)\<close> for each rule in turn.\<close>

definition adjacency :: "Rule list \<Rightarrow> (ToolName \<rightharpoonup> ToolName list)" where
  "adjacency rules = foldl (\<lambda>adj r. push_list (Tool r) (Prerequisite r) adj) Map.empty rules"

definition prereqs_of :: "Rule list \<Rightarrow> ToolName \<Rightarrow> ToolName list" where
  "prereqs_of rules tool = get_list (adjacency rules) tool"

text \<open>
  The recursive closure \<open>hasCycle\<close> and its loop over the prerequisites; the state is
  \<open>(visited, recursionStack)\<close>, the keys mapped to \<open>true\<close>.
\<close>

type_synonym dfs_state = "ToolName set \<times> ToolName set"

function hasCycle :: "Rule list \<Rightarrow> ToolName \<Rightarrow> dfs_state \<Rightarrow> bool \<times> dfs_state"
  and hasCycle_loop :: "Rule list \<Rightarrow> ToolName list \<Rightarrow> dfs_state \<Rightarrow> bool \<times> dfs_state" where
  "hasCycle rules tool (visited, stack) =
     (case hasCycle_loop rules (prereqs_of rules tool) (insert tool visited, insert tool stack) of
        (True, st) \<Rightarrow> (True, st)
      | (False, (visited', stack')) \<Rightarrow> (False, (visited', stack' - {tool})))"
| "hasCycle_loop rules [] (visited, stack) = (False, (visited, stack))"
| "hasCycle_loop rules (prereq # ps) (visited, stack) =
     (if prereq \<notin> visited then
        (case hasCycle rules prereq (visited, stack) of
           (True, st) \<Rightarrow> (True, st)
         | (False, st) \<Rightarrow> hasCycle_loop rules ps st)
      else if prereq \<in> stack then (True, (visited, stack))
      else hasCycle_loop rules ps (visited, stack))"
  by pat_completeness auto

text \<open>
  Termination: the tools not yet visited get fewer, or the list of prerequisites shorter. The
  recursion is nested (the loop goes on from the state the call returned), so first, on its
  domain, the search never forgets a visited tool.
\<close>

definition tools_of :: "Rule list \<Rightarrow> ToolName set" where
  "tools_of rules = Tool ` set rules"

lemma adjacency_snoc: "adjacency (rules @ [r]) = push_list (Tool r) (Prerequisite r) (adjacency rules)"
  by (simp add: adjacency_def)

lemma set_prereqs_of: "set (prereqs_of rules tool) = {p. (tool, p) \<in> dependencies rules}"
proof (induction rules rule: rev_induct)
  case Nil
  then show ?case by (simp add: prereqs_of_def adjacency_def dependencies_def)
next
  case (snoc r rules)
  then show ?case by (auto simp: prereqs_of_def adjacency_snoc dependencies_def)
qed

lemma prereqs_of_other: "tool \<notin> tools_of rules \<Longrightarrow> prereqs_of rules tool = []"
proof -
  assume "tool \<notin> tools_of rules"
  then have "set (prereqs_of rules tool) = {}"
    by (auto simp: set_prereqs_of dependencies_def tools_of_def)
  then show ?thesis by simp
qed

lemma finite_tools_of [simp]: "finite (tools_of rules)"
  by (simp add: tools_of_def)

lemma visited_grows:
  "hasCycle_hasCycle_loop_dom (Inl (rules, tool, st)) \<Longrightarrow> fst st \<subseteq> fst (snd (hasCycle rules tool st))"
  "hasCycle_hasCycle_loop_dom (Inr (rules, ps, st)) \<Longrightarrow> fst st \<subseteq> fst (snd (hasCycle_loop rules ps st))"
proof (induction rules tool st and rules ps st rule: hasCycle_hasCycle_loop.pinduct)
  case (1 rules tool visited stack)
  then show ?case by (fastforce simp: hasCycle.psimps split: prod.splits bool.splits)
next
  case (2 rules visited stack)
  then show ?case by (simp add: hasCycle_loop.psimps)
next
  case (3 rules prereq ps visited stack)
  show ?case
  proof (cases "prereq \<in> visited")
    case True
    with 3 show ?thesis by (simp add: hasCycle_loop.psimps)
  next
    case False
    obtain b st where call: "hasCycle rules prereq (visited, stack) = (b, st)" by (rule prod.exhaust)
    with "3.IH"(1) False have "visited \<subseteq> fst st" by simp
    with "3.hyps" "3.IH"(2)[OF False call[symmetric]] False call show ?thesis
      by (cases b) (auto simp: hasCycle_loop.psimps)
  qed
qed

definition unvisited :: "Rule list \<Rightarrow> ToolName set \<Rightarrow> nat" where
  "unvisited rules visited = card (tools_of rules - visited)"

lemma unvisited_mono: "visited \<subseteq> visited' \<Longrightarrow> unvisited rules visited' \<le> unvisited rules visited"
  by (auto simp: unvisited_def intro!: card_mono)

lemma unvisited_insert:
  "tool \<in> tools_of rules \<Longrightarrow> tool \<notin> visited \<Longrightarrow> unvisited rules (insert tool visited) < unvisited rules visited"
  unfolding unvisited_def by (rule psubset_card_mono) auto

termination hasCycle
proof (relation "inv_image (less_than <*lex*> less_than)
    (case_sum (\<lambda>(rules, tool, (v, s)). (unvisited rules (insert tool v), 2 * length (prereqs_of rules tool) + 1))
              (\<lambda>(rules, ps, (v, s)). (unvisited rules v, 2 * length ps)))", goal_cases)
  case (3 rules prereq ps visited stack)
  then show ?case
    using unvisited_insert[of prereq rules visited] prereqs_of_other[of prereq rules]
      unvisited_mono[of visited "insert prereq visited" rules]
    by (cases "prereq \<in> tools_of rules") (auto simp: le_eq_less_or_eq)
next
  case (4 rules prereq ps visited stack b st)
  then have "snd (hasCycle rules prereq (visited, stack)) = st" by (metis snd_conv)
  with 4 have "visited \<subseteq> fst st"
    using visited_grows(1)[of rules prereq "(visited, stack)"] by simp
  then show ?case
    using unvisited_mono[of visited "fst st" rules] by (cases st) (auto simp: le_eq_less_or_eq)
qed auto

text \<open>
  Go ranges over a map in an unspecified order: \<open>shuffle\<close> is any rearrangement of the keys (the
  keys as they are when it is not one).
\<close>

definition range_keys :: "(ToolName list \<Rightarrow> ToolName list) \<Rightarrow> ToolName list \<Rightarrow> ToolName list" where
  "range_keys shuffle keys = (if set (shuffle keys) = set keys then shuffle keys else keys)"

fun Validate_loop :: "Rule list \<Rightarrow> ToolName list \<Rightarrow> dfs_state \<Rightarrow> error option" where
  "Validate_loop rules [] st = None"
| "Validate_loop rules (tool # tools) st =
     (if tool \<notin> fst st then
        (case hasCycle rules tool st of
           (True, st') \<Rightarrow> Some ErrCircularDependency
         | (False, st') \<Rightarrow> Validate_loop rules tools st')
      else Validate_loop rules tools st)"

definition Validate :: "(ToolName list \<Rightarrow> ToolName list) \<Rightarrow> Rule list \<Rightarrow> error option" where
  "Validate shuffle rules =
     Validate_loop rules (range_keys shuffle (remdups (map Tool rules))) ({}, {})"

definition NewYAMLConfigLoader ::
  "(string \<Rightarrow> error + config) \<Rightarrow> (ToolName list \<Rightarrow> ToolName list) \<Rightarrow> ConfigLoader" where
  "NewYAMLConfigLoader decode shuffle =
     \<lparr>cl_Load = Load decode, cl_LoadConfig = LoadConfig decode, cl_Validate = Validate shuffle\<rparr>"

section \<open>The search finds exactly the cycles\<close>

text \<open>
  Finished tools (visited, no longer on the stack) depend on finished tools only, and none of
  them lies on a cycle.
\<close>

definition finished_ok :: "Rule list \<Rightarrow> dfs_state \<Rightarrow> bool" where
  "finished_ok rules st \<longleftrightarrow>
     snd st \<subseteq> fst st \<and> dependencies rules `` (fst st - snd st) \<subseteq> fst st - snd st \<and>
     (\<forall>n\<in>fst st - snd st. (n, n) \<notin> (dependencies rules)\<^sup>+)"

lemma closed_trancl: "(a, b) \<in> R\<^sup>+ \<Longrightarrow> a \<in> S \<Longrightarrow> R `` S \<subseteq> S \<Longrightarrow> b \<in> S"
  by (induction rule: trancl_induct) auto

text \<open>Leaving a tool whose prerequisites are all finished.\<close>

lemma finished_ok_leave:
  assumes ok: "finished_ok rules (v, insert t s)" and "t \<notin> s" and "s \<subseteq> v"
    and succ: "set (prereqs_of rules t) \<subseteq> v - insert t s" and "t \<in> v"
  shows "finished_ok rules (v, s)"
proof -
  let ?R = "dependencies rules" and ?B = "v - insert t s"
  have B: "v - s = insert t ?B" using assms by auto
  have closed: "?R `` ?B \<subseteq> ?B" and acyc: "\<forall>n\<in>?B. (n, n) \<notin> ?R\<^sup>+"
    using ok by (auto simp: finished_ok_def)
  have t_succ: "?R `` {t} \<subseteq> ?B" using succ by (auto simp: set_prereqs_of)
  have "(t, t) \<notin> ?R\<^sup>+"
  proof
    assume "(t, t) \<in> ?R\<^sup>+"
    then obtain p where p: "(t, p) \<in> ?R" and "(p, t) \<in> ?R\<^sup>*" by (meson tranclD)
    from p t_succ have "p \<in> ?B" by auto
    moreover from \<open>(p, t) \<in> ?R\<^sup>*\<close> have "p = t \<or> (p, t) \<in> ?R\<^sup>+" by (meson rtranclD)
    ultimately have "t \<in> ?B" using closed closed_trancl[of p t ?R ?B] by auto
    then show False by simp
  qed
  with closed acyc t_succ B assms(3) show ?thesis by (auto simp: finished_ok_def)
qed

lemma search_False:
  "hasCycle rules t st = (False, st') \<Longrightarrow> t \<notin> fst st \<Longrightarrow> finished_ok rules st \<Longrightarrow>
     finished_ok rules st' \<and> snd st' = snd st \<and> insert t (fst st) \<subseteq> fst st' \<and> t \<notin> snd st"
  "hasCycle_loop rules ps st = (False, st') \<Longrightarrow> finished_ok rules st \<Longrightarrow>
     finished_ok rules st' \<and> snd st' = snd st \<and> fst st \<subseteq> fst st' \<and> set ps \<subseteq> fst st' - snd st"
proof (induction rules t st and rules ps st arbitrary: st' and st'
    rule: hasCycle_hasCycle_loop.induct)
  case (1 rules t v s)
  have ts: "t \<notin> s" and sv: "s \<subseteq> v" using "1.prems" by (auto simp: finished_ok_def)
  from "1.prems"(1) obtain v' s' where loop:
      "hasCycle_loop rules (prereqs_of rules t) (insert t v, insert t s) = (False, (v', s'))"
    and st': "st' = (v', s' - {t})"
    by (auto split: prod.splits bool.splits)
  have "insert t v - insert t s = v - s" using ts "1.prems"(2) by auto
  then have "finished_ok rules (insert t v, insert t s)"
    using "1.prems"(3) by (auto simp: finished_ok_def)
  from "1.IH"[OF loop this] have ok: "finished_ok rules (v', insert t s)" and s': "s' = insert t s"
    and v': "insert t v \<subseteq> v'" and succ: "set (prereqs_of rules t) \<subseteq> v' - insert t s" by auto
  then have "finished_ok rules (v', s)"
    using finished_ok_leave[OF ok ts _ succ] sv by auto
  with s' st' v' ts show ?case by auto
next
  case (2 rules v s)
  then show ?case by simp
next
  case (3 rules p ps v s)
  show ?case
  proof (cases "p \<in> v")
    case True
    with "3.prems"(1) have "p \<notin> s" by (auto split: if_splits)
    with True "3.IH"(3) "3.prems" show ?thesis by auto
  next
    case False
    with "3.prems"(1) obtain st1 where call: "hasCycle rules p (v, s) = (False, st1)"
      and rest: "hasCycle_loop rules ps st1 = (False, st')" by (auto split: prod.splits bool.splits)
    from "3.IH"(1)[OF False call] False "3.prems"(2)
    have st1: "finished_ok rules st1" "snd st1 = s" "insert p v \<subseteq> fst st1" "p \<notin> s" by auto
    from "3.IH"(2)[OF False call[symmetric] refl rest st1(1)] st1 show ?thesis by auto
  qed
qed

text \<open>Every tool on the stack leads to the current one, so a tool found on the stack closes a cycle.\<close>

lemma search_True:
  "hasCycle rules t st = (True, st') \<Longrightarrow> \<forall>x\<in>snd st. (x, t) \<in> (dependencies rules)\<^sup>* \<Longrightarrow>
     finished_ok rules st \<Longrightarrow> t \<notin> fst st \<Longrightarrow> \<not> acyclic (dependencies rules)"
  "hasCycle_loop rules ps st = (True, st') \<Longrightarrow> \<forall>x\<in>snd st. \<forall>p\<in>set ps. (x, p) \<in> (dependencies rules)\<^sup>+ \<Longrightarrow>
     finished_ok rules st \<Longrightarrow> \<not> acyclic (dependencies rules)"
proof (induction rules t st and rules ps st arbitrary: st' and st'
    rule: hasCycle_hasCycle_loop.induct)
  case (1 rules t v s)
  have ts: "t \<notin> s" using "1.prems" by (auto simp: finished_ok_def)
  from "1.prems"(1) have loop:
      "hasCycle_loop rules (prereqs_of rules t) (insert t v, insert t s) = (True, st')"
    by (auto split: prod.splits bool.splits)
  have "insert t v - insert t s = v - s" using ts "1.prems"(4) by auto
  then have ok: "finished_ok rules (insert t v, insert t s)"
    using "1.prems"(3) by (auto simp: finished_ok_def)
  have "\<forall>x\<in>insert t s. \<forall>p\<in>set (prereqs_of rules t). (x, p) \<in> (dependencies rules)\<^sup>+"
    using "1.prems"(2) by (auto simp: set_prereqs_of intro: rtrancl_into_trancl1)
  with "1.IH"[OF loop _ ok] show ?case by simp
next
  case (2 rules v s)
  then show ?case by simp
next
  case (3 rules p ps v s)
  show ?case
  proof (cases "p \<in> v")
    case True
    show ?thesis
    proof (cases "p \<in> s")
      case True
      with "3.prems"(2) have "(p, p) \<in> (dependencies rules)\<^sup>+" by simp
      then show ?thesis by (auto simp: acyclic_def)
    next
      case False
      with True "3.IH"(3) "3.prems" show ?thesis by auto
    qed
  next
    case False
    show ?thesis
    proof (cases "fst (hasCycle rules p (v, s))")
      case True
      then obtain st1 where "hasCycle rules p (v, s) = (True, st1)" by (metis prod.collapse)
      from "3.IH"(1)[OF False this] "3.prems" False show ?thesis by (auto intro: trancl_into_rtrancl)
    next
      case nocycle: False
      then obtain st1 where call: "hasCycle rules p (v, s) = (False, st1)" by (metis prod.collapse)
      from search_False(1)[OF call] False "3.prems"(3)
      have st1: "finished_ok rules st1" "snd st1 = s" by auto
      from "3.prems"(1) False call have "hasCycle_loop rules ps st1 = (True, st')" by simp
      from "3.IH"(2)[OF False call[symmetric] refl this] st1 "3.prems"(2) show ?thesis by simp
    qed
  qed
qed

lemma Validate_loop_None:
  "Validate_loop rules order (v, {}) = None \<Longrightarrow> finished_ok rules (v, {}) \<Longrightarrow>
   \<exists>v'. finished_ok rules (v', {}) \<and> v \<union> set order \<subseteq> v'"
proof (induction order arbitrary: v)
  case Nil
  then show ?case by auto
next
  case (Cons t ts)
  show ?case
  proof (cases "t \<in> v")
    case True
    with Cons.prems Cons.IH[of v] show ?thesis by auto
  next
    case False
    with Cons.prems(1) obtain v1 s1 where call: "hasCycle rules t (v, {}) = (False, (v1, s1))"
      and rest: "Validate_loop rules ts (v1, s1) = None"
      by (auto split: prod.splits bool.splits)
    from search_False(1)[OF call] False Cons.prems(2)
    have v1: "finished_ok rules (v1, {})" "s1 = {}" "insert t v \<subseteq> v1" by auto
    from rest v1(2) have "Validate_loop rules ts (v1, {}) = None" by simp
    from Cons.IH[OF this v1(1)] obtain v' where "finished_ok rules (v', {})" "v1 \<union> set ts \<subseteq> v'"
      by (elim exE conjE)
    with v1(3) show ?thesis by (intro exI[of _ v']) auto
  qed
qed

lemma Validate_loop_Some:
  "Validate_loop rules order (v, {}) = Some e \<Longrightarrow> finished_ok rules (v, {}) \<Longrightarrow>
   e = ErrCircularDependency \<and> \<not> acyclic (dependencies rules)"
proof (induction order arbitrary: v)
  case Nil
  then show ?case by simp
next
  case (Cons t ts)
  show ?case
  proof (cases "t \<in> v")
    case True
    with Cons show ?thesis by auto
  next
    case False
    define b v1 s1 where "b = fst (hasCycle rules t (v, {}))"
      and "v1 = fst (snd (hasCycle rules t (v, {})))" and "s1 = snd (snd (hasCycle rules t (v, {})))"
    then have call: "hasCycle rules t (v, {}) = (b, (v1, s1))" by simp
    show ?thesis
    proof (cases b)
      case True
      with search_True(1)[of rules t "(v, {})" "(v1, s1)"] call Cons.prems False show ?thesis by simp
    next
      case nocycle: False
      with search_False(1)[of rules t "(v, {})" "(v1, s1)"] call Cons.prems(2) False
      have "finished_ok rules (v1, {})" "s1 = {}" by auto
      with Cons.IH[of v1] Cons.prems(1) call nocycle False show ?thesis by simp
    qed
  qed
qed

lemma all_finished_acyclic:
  assumes "finished_ok rules (v, {})" and "tools_of rules \<subseteq> v"
  shows "acyclic (dependencies rules)"
proof (rule acyclicI, rule allI, rule notI)
  fix n
  assume cyc: "(n, n) \<in> (dependencies rules)\<^sup>+"
  then obtain p where "(n, p) \<in> dependencies rules" by (meson tranclD)
  then have "n \<in> v" using assms(2) by (auto simp: dependencies_def tools_of_def)
  with cyc assms(1) show False by (simp add: finished_ok_def)
qed

lemma set_range_keys [simp]: "set (range_keys shuffle keys) = set keys"
  by (simp add: range_keys_def)

lemma Validate_acyclic:
  "Validate shuffle rules = (if acyclic (dependencies rules) then None else Some ErrCircularDependency)"
proof -
  let ?order = "range_keys shuffle (remdups (map Tool rules))"
  have start: "finished_ok rules ({}, {})" by (simp add: finished_ok_def)
  have "set ?order = tools_of rules" by (simp add: tools_of_def)
  then have "Validate_loop rules ?order ({}, {}) = None \<Longrightarrow> acyclic (dependencies rules)"
    using Validate_loop_None[OF _ start, of ?order] all_finished_acyclic[of rules] by auto
  with Validate_loop_Some[OF _ start, of ?order] show ?thesis
    unfolding Validate_def by (cases "Validate_loop rules ?order ({}, {})") auto
qed

section \<open>Loading\<close>

lemma Load_loop_LoadConfig_loop: "Load_loop rules rcs = LoadConfig_loop rules rcs"
  by (induction rcs arbitrary: rules) (simp_all add: Let_def cong: sum.case_cong option.case_cong)

lemma LoadConfig_loop_valid:
  "LoadConfig_loop rules rcs = Inr rs \<Longrightarrow> \<forall>r\<in>set rules. Rule_Validate r = None \<Longrightarrow>
   \<forall>r\<in>set rs. Rule_Validate r = None"
proof (induction rules rcs rule: LoadConfig_loop.induct)
  case (2 rules rc rcs)
  then show ?case by (auto simp: Let_def split: sum.splits option.splits)
qed simp

interpretation ycl: config_loader "NewYAMLConfigLoader decode shuffle" for decode shuffle
proof (unfold_locales, goal_cases)
  case (1 src rs r)
  then show ?case
    using LoadConfig_loop_valid[of "[]"]
    by (auto simp: NewYAMLConfigLoader_def Load_def Load_loop_LoadConfig_loop split: sum.splits)
next
  case (2 src)
  show ?case
    by (cases "decode src")
      (auto simp: NewYAMLConfigLoader_def Load_def LoadConfig_def Load_loop_LoadConfig_loop
        split: sum.splits)
next
  case (3 rs)
  show ?case by (simp add: NewYAMLConfigLoader_def Validate_acyclic)
qed

section \<open>Properties\<close>

text \<open>
  C12: The depth-first search reports a circular dependency exactly when the rules' dependency
  relation has a cycle, whatever order Go ranges over the adjacency map in (\<open>shuffle\<close>).
\<close>

theorem validate_iff_acyclic:
  "cl_Validate (NewYAMLConfigLoader decode shuffle) rs =
     (if acyclic (dependencies rs) then None else Some ErrCircularDependency)"
  by (rule ycl.validate_acyclic)

text \<open>
  Both loaders agree: \<open>LoadConfig\<close> succeeds on the same documents as \<open>Load\<close>, with the same
  rules, and fails with the same errors.
\<close>

theorem loaders_agree:
  "map_sum id Rules (LoadConfig decode src) = Load decode src"
  using ycl.loadconfig_rules[of decode id src] by (simp add: NewYAMLConfigLoader_def)

lemma LoadConfig_loop_rules:
  "LoadConfig_loop rules rcs = Inr rs \<Longrightarrow> \<forall>r\<in>set rules. int64_min \<le> Expiry r \<and> Expiry r \<le> int64_max \<Longrightarrow>
   (\<forall>r\<in>set rs. int64_min \<le> Expiry r \<and> Expiry r \<le> int64_max) \<and>
   map Tool rs = map Tool rules @ map rc_Tool rcs \<and>
   map Prerequisite rs = map Prerequisite rules @ map rc_Prerequisite rcs"
proof (induction rules rcs rule: LoadConfig_loop.induct)
  case (1 rules)
  then show ?case by simp
next
  case (2 rules rc rcs)
  let ?d = "if rc_Expiry rc \<noteq> '''' then ParseDuration (rc_Expiry rc) else Inr (5 * Minute)"
  from "2.prems"(1) obtain d where d: "?d = Inr d" by (cases ?d) simp_all
  then have "int64_min \<le> d \<and> d \<le> int64_max"
    using ParseDuration_int64[of "rc_Expiry rc" d]
    by (auto simp: duration_units int64_min_def int64_max_def split: if_splits)
  with d "2.prems" "2.IH"[OF d refl] show ?case by (auto simp: Let_def split: option.splits)
qed

text \<open>
  C40: What a successful load gives: one rule per entry of the document in its order, with its tool
  and prerequisite; every rule is valid, and its expiry fits a 64-bit duration.
\<close>

theorem loaded_rules:
  assumes "Load decode src = Inr rs" and "decode src = Inr cfg"
  shows "(\<forall>r\<in>set rs. Rule_Validate r = None \<and> int64_min \<le> Expiry r \<and> Expiry r \<le> int64_max) \<and>
    map Tool rs = map rc_Tool (cfg_Rules cfg) \<and> map Prerequisite rs = map rc_Prerequisite (cfg_Rules cfg)"
proof -
  from assms have "LoadConfig_loop [] (cfg_Rules cfg) = Inr rs"
    by (simp add: Load_def Load_loop_LoadConfig_loop)
  from LoadConfig_loop_rules[OF this] LoadConfig_loop_valid[OF this] show ?thesis by simp
qed

definition ex_config :: config where
  "ex_config = \<lparr>cfg_Rules = [\<lparr>rc_Tool = ''use'', rc_Prerequisite = ''login'', rc_Expiry = '''', rc_ErrorMessage = '''',
                              rc_OneTimeUse = True\<rparr>],
                cfg_Observability = \<lparr>Enabled = False, StorageType = '''', RetentionDays = 0\<rparr>\<rparr>"

theorem loaded_rules_witness:
  "\<exists>rs. Load (\<lambda>_. Inr ex_config) ''doc'' = Inr rs \<and> map Tool rs = [''use''] \<and> map Prerequisite rs = [''login'']"
proof -
  let ?rs = "[\<lparr>Tool = ''use'', Prerequisite = ''login'', Expiry = 5 * Minute, ErrorMessage = '''', OneTimeUse = True\<rparr>]"
  have load: "Load (\<lambda>_. Inr ex_config) ''doc'' = Inr ?rs"
    by (simp add: Load_def ex_config_def Rule_Validate_def ToolName_Validate_def Let_def)
  from loaded_rules[OF this refl] have "map Tool ?rs = map rc_Tool (cfg_Rules ex_config) \<and>
    map Prerequisite ?rs = map rc_Prerequisite (cfg_Rules ex_config)" by blast
  with load show ?thesis by (intro exI[of _ ?rs]) (simp add: ex_config_def)
qed

end
