(* ===== verification/ServiceProperties.thy ===== *)
theory ServiceProperties
  imports MemoryService EventStores YamlLoader CryptoRandom
begin

text \<open>
  What each operation of the service promises when it runs over the in-memory stores, on every
  branch: the outcome of a validation, the effect of issuing and consuming, the error paths, the
  sessions, the configuration, the events it leaves behind, and that events never matter.
\<close>

section \<open>A concrete service\<close>

text \<open>One session that has called \<open>login\<close> and holds a token of it until instant 100.\<close>

definition p_rule :: Rule where
  "p_rule = \<lparr>Tool = ''use'', Prerequisite = ''login'', Expiry = 7, ErrorMessage = '''', OneTimeUse = True\<rparr>"

definition p_loader :: ConfigLoader where
  "p_loader = NewYAMLConfigLoader (\<lambda>_. Inr ex_config) id"

definition p_session :: session where
  "p_session = \<lparr>ID = ''s'', Tokens = 0, ToolHistory = [''login''], CreatedAt = 1\<rparr>"

definition p_world :: "(MemoryTokenStore, MemorySessionStore, entropy, MemoryEventStore) world" where
  "p_world =
     \<lparr>w_heap = \<lparr>maps = (\<lambda>_. [''login'' \<mapsto> [''t'']]), next_map = 1\<rparr>, w_wall = (\<lambda>_. 50), w_reads = 0,
      w_uuid = (\<lambda>_. ''u''), w_uuids = 0,
      w_ts = snd (MemoryTokenStore_Store ''s'' ''login'' ''t'' 100 NewMemoryTokenStore),
      w_ss = snd (MemorySessionStore_Create p_session NewMemorySessionStore),
      w_rg = \<lparr>rand_answers = (\<lambda>_. Inr []), rand_calls = 0\<rparr>, w_es = NewMemoryEventStore 0\<rparr>"

lemma p_world_sel [simp]:
  "sessions (w_ss p_world) = [''s'' \<mapsto> p_session]" "ID p_session = ''s''" "ToolHistory p_session = [''login'']"
  "token_entries (w_ts p_world) sid tool = (if sid = ''s'' \<and> tool = ''login'' then [(''t'', 100)] else [])"
  "w_wall p_world n = 50" "w_reads p_world = 0" "w_rg p_world = \<lparr>rand_answers = (\<lambda>_. Inr []), rand_calls = 0\<rparr>"
  "session_tokens (w_heap p_world) p_session ''login'' = [''t'']"
  by (simp_all add: p_world_def p_session_def MemorySessionStore_Create_def NewMemorySessionStore_def
      session_tokens_def)

section \<open>Validation\<close>

text \<open>
  C6: The outcome of a validation, on every branch: a tool without rules, or with a rule that names
  no prerequisite, is allowed; else a session is needed and must exist; then some rule's
  prerequisite must be in the session's history and have an unexpired token at the instant the
  rule is looked at; else the call is refused with the error of the last rule.
\<close>

theorem validate_outcome:
  "fst (ValidateToolCall (memory_service cl rg ck es rs) sid tool tok w) =
     (let mine = rules_for rs tool; start = w_reads w + (if es = None then 0 else 1)
      in if mine = [] \<or> list_ex (\<lambda>r. Prerequisite r = '''') mine then Return None
         else if sid = '''' then
           Return (Some (NewError (if ErrorMessage (hd mine) \<noteq> '''' then ErrorMessage (hd mine)
                                   else ''tool '' @ tool @ '' requires a session'')))
         else case sessions (w_ss w) sid of
           None \<Rightarrow> Return (Some (WrapError ''session not found'' ErrSessionNotFound))
         | Some s \<Rightarrow>
             if some_live (token_entries (w_ts w) sid) (\<lambda>i. w_wall w (start + i)) (called_rules s mine)
             then Return None else Return (Some (refusal s mine)))"
proof -
  have "rules_for rs tool = findRules (memory_service cl rg ck es rs) tool"
    using rules_for_findRules[of "memory_service cl rg ck es rs" tool] by simp
  then show ?thesis
    using ms.ValidateToolCall_result[of cl rg ck es rs sid tool tok w]
    by (simp add: event_reads_def list_ex_iff Let_def cong: option.case_cong)
qed

text \<open>
  A validation always returns an answer: whatever the ports and the configuration, the loop over
  the rules never falls through to the error of no rule (which would be a nil dereference).
\<close>

theorem validate_never_panics:
  "fst (ValidateToolCall svc sid tool tok w) \<noteq> Panic \<and>
   fst (WrapWithRatchet zero tool' handler svc store input w) \<noteq> Panic"
  by (simp add: ValidateToolCall_returns WrapWithRatchet_returns)

text \<open>
  The token that is shown to the validation plays no role in its answer: only the history of
  the session and the stored tokens do.
\<close>

lemma token_argument_ignored:
  "fst (ValidateToolCall (memory_service cl rg ck es rs) sid tool tok w) =
   fst (ValidateToolCall (memory_service cl rg ck es rs) sid tool tok' w)"
  by (simp only: ms.ValidateToolCall_result)

section \<open>Issuing and consuming\<close>

text \<open>
  C17: Issuing a token in an existing session: the generated token is returned and added as the
  last entry of the tool in the store, valid for the expiry of the tool's first rule (5 minutes
  without one), and as the last token of the tool in the session. The history, the other tools
  and the other sessions are unchanged.
\<close>

theorem issue_effect:
  assumes "fst (rg_GenerateToken rg (w_rg w)) = Inr tok" and "sessions (w_ss w) sid = Some s" and "ID s = sid"
  shows "case IssueToken (memory_service cl rg ck es rs) sid tool w of (res, w') \<Rightarrow>
    res = Inr tok \<and> sessions (w_ss w') = sessions (w_ss w) \<and>
    token_entries (w_ts w') sid =
      (token_entries (w_ts w) sid)(tool :=
         token_entries (w_ts w) sid tool @ [(tok, ck_Now ck (w_wall w (w_reads w)) + rule_expiry rs tool)]) \<and>
    session_tokens (w_heap w') s = (session_tokens (w_heap w) s)(tool := session_tokens (w_heap w) s tool @ [tok]) \<and>
    (sid' = sid \<or> token_entries (w_ts w') sid' = token_entries (w_ts w) sid')"
proof -
  obtain r where gen: "rg_GenerateToken (randomGen (memory_service cl rg ck es rs)) (w_rg w) = (Inr tok, r)"
    using assms(1) by (simp, metis prod.collapse)
  note res = ms.IssueToken_result[OF gen assms(2,3), where tool = tool]
  have e: "rule_expiry rs tool = token_expiry (memory_service cl rg ck es rs) tool"
    using rule_expiry_token_expiry[of "memory_service cl rg ck es rs" tool] by simp
  show ?thesis
    by (auto simp: split_beta res e fun_eq_iff)
qed

theorem issue_effect_witness:
  "fst (IssueToken (memory_service p_loader crypto_random real_clock None [p_rule]) ''s'' ''use'' p_world) =
     Inr ''00000000000000000000000000000000'' \<and>
   token_entries (w_ts (snd (IssueToken (memory_service p_loader crypto_random real_clock None [p_rule])
     ''s'' ''use'' p_world))) ''s'' ''use'' = [(''00000000000000000000000000000000'', 57)]"
proof -
  have "fst (GenerateToken \<lparr>rand_answers = (\<lambda>_. Inr []), rand_calls = 0\<rparr>) =
      Inr ''00000000000000000000000000000000''" by code_simp
  then have gen: "fst (rg_GenerateToken crypto_random (w_rg p_world)) = Inr ''00000000000000000000000000000000''"
    by (simp add: crypto_random_def)
  have e: "rule_expiry [p_rule] ''use'' = 7" by (simp add: rule_expiry_def first_rule_def p_rule_def)
  from issue_effect[OF gen, where sid = "''s''" and s = p_session and cl = p_loader and ck = real_clock
      and es = None and rs = "[p_rule]" and tool = "''use''" and sid' = "''s''"]
  show ?thesis by (simp add: split_beta e real_clock_def RealClock_Now_def)
qed

text \<open>
  C18: The error paths of issuing: without entropy nothing changes but the generator; in a session
  that does not exist the call fails, but the token it does not return is in the store already.
\<close>

theorem issue_errors:
  "(case rg_GenerateToken rg (w_rg w) of
      (Inl err, r) \<Rightarrow> IssueToken (memory_service cl rg ck es rs) sid tool w = (Inl err, w\<lparr>w_rg := r\<rparr>)
    | (Inr tok, r) \<Rightarrow>
        (case sessions (w_ss w) sid of Some _ \<Rightarrow> True | None \<Rightarrow>
         fst (IssueToken (memory_service cl rg ck es rs) sid tool w) =
           Inl (WrapError ''failed to get session'' ErrSessionNotFound) \<and>
         token_entries (w_ts (snd (IssueToken (memory_service cl rg ck es rs) sid tool w))) sid tool =
           token_entries (w_ts w) sid tool @
             [(tok, ck_Now ck (w_wall w (w_reads w)) + token_expiry (memory_service cl rg ck es rs) tool)]))"
proof (cases "rg_GenerateToken rg (w_rg w)")
  case (Pair a r)
  show ?thesis
  proof (cases a)
    case (Inl err)
    with Pair show ?thesis by (simp add: ms.IssueToken_no_entropy)
  next
    case (Inr tok)
    with Pair have gen: "rg_GenerateToken (randomGen (memory_service cl rg ck es rs)) (w_rg w) = (Inr tok, r)"
      by simp
    show ?thesis
    proof (cases "sessions (w_ss w) sid")
      case None
      from ms.IssueToken_no_session[OF gen this, of tool] Pair Inr None show ?thesis by simp
    qed (simp add: Pair Inr)
  qed
qed

text \<open>
  C16: Consuming, when the first rule of the tool is one-time-use: the last unexpired token of the
  prerequisite leaves the store and the last token of the prerequisite leaves the session; with no
  unexpired token left, or for any other first rule, nothing changes. It never fails in an existing
  session.
\<close>

theorem consume_effect:
  assumes "sessions_ok (sessions (w_ss w)) (w_heap w)" and "sessions (w_ss w) sid = Some s"
  shows "case ConsumePrerequisiteToken (memory_service cl rg ck es rs) sid tool w of (res, w') \<Rightarrow>
    let now = w_wall w (w_reads w); old = token_entries (w_ts w) sid; sp = spent rs tool now old in
    res = None \<and> sessions (w_ss w') = sessions (w_ss w) \<and>
    token_entries (w_ts w') sid =
      (case sp of None \<Rightarrow> old
       | Some p \<Rightarrow> old(p := remove_first (\<lambda>e. fst e = last (live now (old p))) (old p))) \<and>
    session_tokens (w_heap w') s = drop_token sp (session_tokens (w_heap w) s) \<and>
    (sid' = sid \<or> token_entries (w_ts w') sid' = token_entries (w_ts w) sid')"
proof -
  note res = ms.Consume_effect[OF assms, where tool = tool and cl = cl and rg = rg and ck = ck and es = es and rs = rs]
  have "fst (ConsumePrerequisiteToken (memory_service cl rg ck es rs) sid tool w) = None"
    by (rule ms.Consume_never_fails[OF assms])
  moreover have "session_tokens (w_heap (snd (ConsumePrerequisiteToken (memory_service cl rg ck es rs) sid tool w))) s =
      drop_token (spent rs tool (w_wall w (w_reads w)) (token_entries (w_ts w) sid)) (session_tokens (w_heap w) s)"
    using res(5) res(3) assms(2) tokens_in_found[of "sessions (w_ss w)" sid s]
    by (simp add: drop_token_def cong: option.case_cong)
  ultimately show ?thesis
    using res(1,3) res(2)[of sid']
    by (cases "sid' = sid") (simp_all add: split_beta Let_def consume_def cong: option.case_cong)
qed

theorem consume_effect_witness:
  "case ConsumePrerequisiteToken (memory_service p_loader crypto_random real_clock None [p_rule]) ''s'' ''use'' p_world of
     (res, w') \<Rightarrow> res = None \<and> token_entries (w_ts w') ''s'' ''login'' = [] \<and>
       session_tokens (w_heap w') p_session ''login'' = []"
proof -
  have ok: "sessions_ok (sessions (w_ss p_world)) (w_heap p_world)"
    by (simp add: sessions_ok_def p_world_def p_session_def MemorySessionStore_Create_def NewMemorySessionStore_def)
  have sp: "spent [p_rule] ''use'' 50 (token_entries (w_ts p_world) ''s'') = Some ''login''"
    by (simp add: spent_def first_rule_def p_rule_def)
  from consume_effect[OF ok, where sid = "''s''" and s = p_session and cl = p_loader and rg = crypto_random
      and ck = real_clock and es = None and rs = "[p_rule]" and tool = "''use''" and sid' = "''s''"]
  show ?thesis by (simp add: split_beta Let_def sp drop_token_def)
qed

text \<open>
  Only the first rule of a tool is consulted when tokens are consumed: if it is not one-time-use,
  a call consumes nothing, although another one-time-use rule may be the one that allowed it.
\<close>

lemma consume_first_rule_only:
  assumes "rules_for rs tool = r # rest" and "\<not> OneTimeUse r"
  shows "ConsumePrerequisiteToken (memory_service cl rg ck es rs) sid tool w = (None, w)"
proof (rule ms.Consume_noop)
  fix r' assume "findRule (memory_service cl rg ck es rs) tool = Some r'"
  moreover have "findRule (memory_service cl rg ck es rs) tool = Some r"
    using assms(1) first_rule_findRule[of "memory_service cl rg ck es rs" tool] by (simp add: first_rule_hd)
  ultimately show "Prerequisite r' = '''' \<or> \<not> OneTimeUse r'" using assms(2) by simp
qed

section \<open>Sessions and configuration\<close>

text \<open>
  Creating a session is idempotent: the call returns a session that is then stored under its ID,
  a new one with an empty history or the existing one; a second call returns the same session and
  changes nothing.
\<close>

theorem create_session_idempotent:
  "case CreateSession (memory_service cl rg ck es rs) sid w of (res, w') \<Rightarrow>
     (\<exists>s. res = Inr s \<and> sessions (w_ss w') = (sessions (w_ss w))(sid \<mapsto> s) \<and>
        (case sessions (w_ss w) sid of Some old \<Rightarrow> s = old \<and> w' = w
         | None \<Rightarrow> ID s = sid \<and> ToolHistory s = [] \<and> session_tokens (w_heap w') s = (\<lambda>_. [])) \<and>
        CreateSession (memory_service cl rg ck es rs) sid w' = (Inr s, w'))"
proof (cases "sessions (w_ss w) sid")
  case (Some s)
  then show ?thesis by (simp add: ms.CreateSession_existing fun_upd_idem)
next
  case None
  note res = ms.CreateSession_fresh[OF None, where cl = cl and rg = rg and ck = ck and es = es and rs = rs]
  let ?w' = "snd (CreateSession (memory_service cl rg ck es rs) sid w)"
  let ?s = "\<lparr>ID = sid, Tokens = next_map (w_heap w), ToolHistory = [], CreatedAt = w_wall w (w_reads w)\<rparr>"
  have stored: "sessions (w_ss ?w') sid = Some ?s" by (simp add: res)
  have "session_tokens (w_heap ?w') ?s = (\<lambda>_. [])"
    by (simp add: res session_tokens_def fun_eq_iff)
  with None res ms.CreateSession_existing[OF stored] show ?thesis
    by (intro case_prodI2 exI[of _ ?s]) auto
qed

text \<open>
  Loading a configuration either replaces the rules by those of the document, all of them valid
  and without a circular dependency, or fails and leaves the service as it was.
\<close>

theorem load_configuration_outcome:
  assumes "configLoader svc = NewYAMLConfigLoader decode shuffle"
  shows "case LoadConfiguration src svc of
    (Inr rs, svc') \<Rightarrow> svc' = svc\<lparr>rules := rs\<rparr> \<and> Load decode src = Inr rs \<and>
      list_all (\<lambda>r. Rule_Validate r = None) rs \<and> acyclic (dependencies rs)
  | (Inl err, svc') \<Rightarrow> svc' = svc \<and>
      (case Load decode src of Inl e \<Rightarrow> err = WrapError ''failed to load configuration'' e
       | Inr rs \<Rightarrow> \<not> acyclic (dependencies rs) \<and> errors_Is err ErrCircularDependency)"
proof (cases "Load decode src")
  case (Inl e)
  with assms show ?thesis by (simp add: LoadConfiguration_def NewYAMLConfigLoader_def)
next
  case (Inr rs)
  then have load: "cl_Load (NewYAMLConfigLoader decode shuffle) src = Inr rs"
    by (simp add: NewYAMLConfigLoader_def)
  with ycl.load_valid[OF load] ycl.validate_acyclic[of decode shuffle rs] assms Inr show ?thesis
    by (simp add: LoadConfiguration_def list_all_iff)
qed

theorem load_configuration_outcome_witness:
  "\<exists>rs. fst (LoadConfiguration ''doc'' (memory_service p_loader crypto_random real_clock (None :: unit EventStore option) [])) = Inr rs \<and>
     list_all (\<lambda>r. Rule_Validate r = None) rs \<and> acyclic (dependencies rs)"
proof -
  let ?svc = "memory_service p_loader crypto_random real_clock (None :: unit EventStore option) []"
  let ?rs = "[\<lparr>Tool = ''use'', Prerequisite = ''login'', Expiry = 5 * Minute, ErrorMessage = '''', OneTimeUse = True\<rparr>]"
  have load: "Load (\<lambda>_. Inr ex_config) ''doc'' = Inr ?rs"
    by (simp add: Load_def ex_config_def Rule_Validate_def ToolName_Validate_def Let_def)
  have "dependencies ?rs = {(''use'', ''login'')}" by (simp add: dependencies_def)
  then have "acyclic (dependencies ?rs)" by (auto simp: acyclic_def elim: tranclE)
  moreover obtain res svc' where r: "LoadConfiguration ''doc'' ?svc = (res, svc')" by fastforce
  ultimately show ?thesis
    using load_configuration_outcome[of ?svc "\<lambda>_. Inr ex_config" id "''doc''"] load r
    by (cases res) (auto simp: p_loader_def)
qed

text \<open>
  Registering a rule appends it when it is valid, that is when its tool has a name and is not its
  own prerequisite; else it fails with the reason and the rules stay as they are.
\<close>

lemma register_rule_outcome:
  "RegisterRule r svc =
     (if Tool r = '''' then
        (Some (WrapError ''rule validation failed''
           (WrapError ''tool validation failed'' (NewError ''tool name cannot be empty''))), svc)
      else if Tool r = Prerequisite r then
        (Some (WrapError ''rule validation failed'' (NewError ''tool cannot depend on itself'')), svc)
      else (None, svc\<lparr>rules := rules svc @ [r]\<rparr>))"
  by (simp add: RegisterRule_def Rule_Validate_def ToolName_Validate_def)

section \<open>Events\<close>

lemma blind_RegisterRule:
  assumes "same_ports a b"
  shows "fst (RegisterRule r a) = fst (RegisterRule r b)" and "same_ports (snd (RegisterRule r a)) (snd (RegisterRule r b))"
  using assms by (simp_all add: RegisterRule_def same_ports_def split: option.split)

lemma blind_LoadConfiguration:
  assumes "same_ports a b"
  shows "fst (LoadConfiguration src a) = fst (LoadConfiguration src b)"
    and "same_ports (snd (LoadConfiguration src a)) (snd (LoadConfiguration src b))"
  using assms by (simp_all add: LoadConfiguration_def same_ports_def split: sum.split option.split)

lemma blind_GetRequiredPrerequisite:
  "same_ports a b \<Longrightarrow> GetRequiredPrerequisite a tool = GetRequiredPrerequisite b tool"
  by (simp add: GetRequiredPrerequisite_def same_findRules)

text \<open>
  C31: Observability does not affect the service: two services with the same ports and rules but any
  two event stores (or none) validate, issue, consume, create sessions, register rules, load their
  configuration and look up prerequisites with the same answers and the same effect on tokens,
  sessions, rules and random source, as long as the clock stands still during the call. (The two
  remaining operations, the queries of statistics and of events, are about the event store.)
\<close>

theorem events_do_not_matter:
  assumes "same_ports a b"
  shows "blind_to_events (ValidateToolCall a sid tool tok) (ValidateToolCall b sid tool tok) \<and>
    blind_to_events (IssueToken a sid tool) (IssueToken b sid tool) \<and>
    blind_to_events (ConsumePrerequisiteToken a sid tool) (ConsumePrerequisiteToken b sid tool) \<and>
    blind_to_events (CreateSession a sid) (CreateSession b sid) \<and>
    fst (RegisterRule r a) = fst (RegisterRule r b) \<and> same_ports (snd (RegisterRule r a)) (snd (RegisterRule r b)) \<and>
    fst (LoadConfiguration src a) = fst (LoadConfiguration src b) \<and>
    same_ports (snd (LoadConfiguration src a)) (snd (LoadConfiguration src b)) \<and>
    GetRequiredPrerequisite a tool = GetRequiredPrerequisite b tool"
  by (intro conjI blind_ValidateToolCall blind_IssueToken blind_ConsumePrerequisiteToken blind_CreateSession
      blind_RegisterRule blind_LoadConfiguration blind_GetRequiredPrerequisite assms)

theorem events_do_not_matter_witness:
  "blind_to_events
     (IssueToken (memory_service p_loader crypto_random real_clock (None :: unit EventStore option) [p_rule]) ''s'' ''use'')
     (IssueToken (memory_service p_loader crypto_random real_clock (Some memory_event_store) [p_rule]) ''s'' ''use'')"
  using events_do_not_matter[of "memory_service p_loader crypto_random real_clock (None :: unit EventStore option) [p_rule]"
      "memory_service p_loader crypto_random real_clock (Some memory_event_store) [p_rule]"]
  by (simp add: same_ports_def)

text \<open>The kind, session, tool and token of an event.\<close>

definition what_happened :: "Event \<Rightarrow> EventType \<times> SessionID \<times> ToolName \<times> TokenValue" where
  "what_happened e = (EvType e, EvSession e, EvTool e, EvToken e)"

lemma emit_appends:
  "eventStore svc = Some memory_event_store \<Longrightarrow>
   \<exists>e. events (w_es (emitEvent svc ty sid tool tok md w)) = events (w_es w) @ [e] \<and>
     what_happened e = (ty, sid, tool, tok) \<and> Metadata e = md"
  by (simp add: emitEvent_def uuid_New_def clock_Now_def time_Now_def Let_def memory_event_store_def
      MemoryEventStore_Store_def what_happened_def)

lemma emit_what:
  "eventStore svc = Some memory_event_store \<Longrightarrow>
   map what_happened (events (w_es (emitEvent svc ty sid tool tok md w))) =
     map what_happened (events (w_es w)) @ [(ty, sid, tool, tok)]"
  using emit_appends[of svc ty sid tool tok md w] by auto

lemma validate_loop_events:
  assumes "eventStore svc = Some memory_event_store"
  shows "fst (validate_loop svc sid tool tok s rs le w) = Return r \<Longrightarrow>
    map what_happened (events (w_es (snd (validate_loop svc sid tool tok s rs le w)))) =
      map what_happened (events (w_es w)) @
        [(if r = None then EventTypeToolCallSuccess else EventTypeToolCallFailure, sid, tool, tok)]"
proof (induction rs arbitrary: le w)
  case Nil
  then show ?case by (auto simp: emit_what[OF assms] split: option.splits)
next
  case (Cons ru rs)
  then show ?case
    using Cons.IH[of _ "w\<lparr>w_reads := Suc (w_reads w)\<rparr>"]
    by (auto simp: Let_def time_Now_def emit_what[OF assms] split: if_splits sum.splits)
qed

lemma validate_what:
  assumes "eventStore svc = Some memory_event_store"
    and "ValidateToolCall svc sid tool tok w = (Return r, w')"
  shows "map what_happened (events (w_es w')) = map what_happened (events (w_es w)) @
    [(EventTypeToolCallAttempt, sid, tool, tok),
     (if r = None then EventTypeToolCallSuccess else EventTypeToolCallFailure, sid, tool, tok)]"
proof -
  let ?w = "emitEvent svc EventTypeToolCallAttempt sid tool tok Map.empty w"
  have loop: "validate_loop svc sid tool tok s rs None ?w = (Return r, w') \<Longrightarrow> ?thesis" for s rs
    using validate_loop_events[OF assms(1), of sid tool tok s rs None ?w r] by (simp add: emit_what[OF assms(1)])
  show ?thesis
  proof (cases "findRules svc tool = [] \<or> list_ex (\<lambda>rule. Prerequisite rule = '''') (findRules svc tool) \<or> sid = ''''")
    case True
    with assms(2) show ?thesis
      by (auto simp: ValidateToolCall_def Let_def emit_what[OF assms(1)] split: if_splits)
  next
    case False
    show ?thesis
    proof (cases "ss_Get (sessionStore svc) sid (w_ss w)")
      case (Inl err)
      with False assms(2) show ?thesis
        by (auto simp: ValidateToolCall_def Let_def emit_what[OF assms(1)])
    next
      case (Inr s)
      with False assms(2) show ?thesis by (intro loop[of s "findRules svc tool"]) (simp add: ValidateToolCall_def Let_def)
    qed
  qed
qed

text \<open>
  A validation leaves exactly two events in the log: the attempt, and then its success or its
  failure, as it was answered, for this session, tool and token.
\<close>

theorem validate_events:
  assumes "eventStore svc = Some memory_event_store"
    and "ValidateToolCall svc sid tool tok w = (Return r, w')"
  shows "map what_happened (events (w_es w')) = map what_happened (events (w_es w)) @
    [(EventTypeToolCallAttempt, sid, tool, tok),
     (if r = None then EventTypeToolCallSuccess else EventTypeToolCallFailure, sid, tool, tok)]"
  using assms by (rule validate_what)

theorem validate_events_witness:
  "map what_happened (events (w_es (snd (ValidateToolCall
      (memory_service p_loader crypto_random real_clock (Some memory_event_store) [p_rule]) ''s'' ''use'' '''' p_world)))) =
   [(EventTypeToolCallAttempt, ''s'', ''use'', ''''), (EventTypeToolCallSuccess, ''s'', ''use'', '''')]"
proof -
  let ?svc = "memory_service p_loader crypto_random real_clock (Some memory_event_store) [p_rule]"
  have "fst (ValidateToolCall ?svc ''s'' ''use'' '''' p_world) = Return None" by code_simp
  then have "ValidateToolCall ?svc ''s'' ''use'' '''' p_world =
      (Return None, snd (ValidateToolCall ?svc ''s'' ''use'' '''' p_world))" by (metis prod.collapse)
  from validate_events[OF _ this] show ?thesis by (simp add: p_world_def NewMemoryEventStore_def)
qed

end
