(* ===== verification/RunEvents.thy ===== *)
theory RunEvents
  imports Guarantees ServiceProperties
begin

text \<open>
  The event log of a run of wrapped tools, for any service with a memory event store: which kinds
  of events each operation appends, and what the statistics say about a run whose requests follow
  one another while the pruning goroutine takes its turns between them. Nothing is assumed of the
  token and session stores, of the generator, of the rules or of the clock.
\<close>

section \<open>The kinds of events an operation appends\<close>

definition kinds :: "('ts, 'ss, 'rg, MemoryEventStore) world \<Rightarrow> EventType list" where
  "kinds w = map EvType (events (w_es w))"

lemma kinds_emit:
  assumes "eventStore svc = Some memory_event_store"
  shows "kinds (emitEvent svc ty sid tool tok md w) = kinds w @ [ty]"
  using emit_appends[OF assms, of ty sid tool tok md w] by (auto simp: kinds_def what_happened_def)

lemma kinds_upd [simp]:
  "kinds (w\<lparr>w_reads := n\<rparr>) = kinds w" "kinds (w\<lparr>w_heap := h\<rparr>) = kinds w" "kinds (w\<lparr>w_ts := ts\<rparr>) = kinds w"
  "kinds (w\<lparr>w_ss := ss\<rparr>) = kinds w" "kinds (w\<lparr>w_rg := rg\<rparr>) = kinds w"
  by (simp_all add: kinds_def)

lemma kinds_validate:
  assumes "eventStore svc = Some memory_event_store" and "ValidateToolCall svc sid tool tok w = (Return r, w')"
  shows "kinds w' = kinds w @
    [EventTypeToolCallAttempt, if r = None then EventTypeToolCallSuccess else EventTypeToolCallFailure]"
proof -
  have "kinds v = map fst (map what_happened (events (w_es v)))" for v :: "('a, 'b, 'c, MemoryEventStore) world"
    by (simp add: kinds_def what_happened_def comp_def)
  with validate_what[OF assms] show ?thesis by (simp del: map_map)
qed

text \<open>At most one event of the given kind.\<close>

definition at_most_one :: "EventType \<Rightarrow> EventType list \<Rightarrow> bool" where
  "at_most_one ty xs \<longleftrightarrow> xs = [] \<or> xs = [ty]"

lemma kinds_issue:
  assumes "eventStore svc = Some memory_event_store"
  shows "\<exists>xs. kinds (snd (IssueToken svc sid tool w)) = kinds w @ xs \<and> at_most_one EventTypeTokenCreated xs"
  unfolding IssueToken_def at_most_one_def clock_Now_def time_Now_def
  by (auto simp: kinds_emit[OF assms] Let_def split: prod.splits sum.splits option.splits)

lemma kinds_consume:
  assumes "eventStore svc = Some memory_event_store"
  shows "\<exists>xs. kinds (snd (ConsumePrerequisiteToken svc sid tool w)) = kinds w @ xs \<and>
    at_most_one EventTypeTokenConsumed xs"
proof -
  have drop: "kinds (snd (drop_session_token svc sid p v)) = kinds v" for p v
    by (auto simp: drop_session_token_def Let_def split: prod.splits sum.splits option.splits)
  show ?thesis
    unfolding ConsumePrerequisiteToken_def at_most_one_def time_Now_def
    by (auto simp: drop kinds_emit[OF assms] Let_def split: prod.splits sum.splits option.splits)
qed

lemma kinds_session:
  assumes "eventStore svc = Some memory_event_store" and "wrap_session svc store w = (s, w')"
  shows "\<exists>xs. kinds w' = kinds w @ xs \<and> at_most_one EventTypeSessionCreated xs"
  using assms(2) unfolding wrap_session_unfold CreateSession_def at_most_one_def time_Now_def
  by (auto simp: kinds_emit[OF assms(1)] Let_def split: prod.splits sum.splits option.splits)

lemma kinds_record [simp]: "kinds (wrap_record store tool w) = kinds w"
  by (auto simp: wrap_record_def Let_def split: prod.splits sum.splits)

text \<open>Everything of the event store but its events: the operations leave it alone.\<close>

definition shell :: "('ts, 'ss, 'rg, MemoryEventStore) world \<Rightarrow> MemoryEventStore" where
  "shell w = (w_es w)\<lparr>events := []\<rparr>"

lemma shell_upd [simp]:
  "shell (w\<lparr>w_reads := n\<rparr>) = shell w" "shell (w\<lparr>w_heap := h\<rparr>) = shell w" "shell (w\<lparr>w_ts := ts\<rparr>) = shell w"
  "shell (w\<lparr>w_ss := ss\<rparr>) = shell w" "shell (w\<lparr>w_rg := rg\<rparr>) = shell w"
  by (simp_all add: shell_def)

lemma shell_emit:
  "eventStore svc = Some memory_event_store \<Longrightarrow> shell (emitEvent svc ty sid tool tok md w) = shell w"
  by (simp add: shell_def emitEvent_def uuid_New_def clock_Now_def time_Now_def Let_def memory_event_store_def
      MemoryEventStore_Store_def)

lemma shell_validate_loop:
  assumes "eventStore svc = Some memory_event_store"
  shows "shell (snd (validate_loop svc sid tool tok s rs le w)) = shell w"
proof (induction rs arbitrary: le w)
  case Nil
  then show ?case by (simp add: shell_emit[OF assms] split: option.splits)
next
  case (Cons ru rs)
  then show ?case by (simp add: Let_def time_Now_def shell_emit[OF assms] split: sum.splits)
qed

lemma shell_ops:
  assumes "eventStore svc = Some memory_event_store"
  shows "shell (snd (ValidateToolCall svc sid tool tok w)) = shell w"
    and "shell (snd (IssueToken svc sid tool w)) = shell w"
    and "shell (snd (ConsumePrerequisiteToken svc sid tool w)) = shell w"
    and "shell (snd (CreateSession svc sid w)) = shell w"
proof -
  have drop: "shell (snd (drop_session_token svc sid p v)) = shell v" for p v
    by (auto simp: drop_session_token_def Let_def split: prod.splits sum.splits option.splits)
  show "shell (snd (ValidateToolCall svc sid tool tok w)) = shell w"
    by (simp add: ValidateToolCall_def Let_def shell_emit[OF assms] shell_validate_loop[OF assms] split: sum.splits)
  show "shell (snd (IssueToken svc sid tool w)) = shell w"
    unfolding IssueToken_def clock_Now_def time_Now_def
    by (auto simp: shell_emit[OF assms] Let_def split: prod.splits sum.splits option.splits)
  show "shell (snd (ConsumePrerequisiteToken svc sid tool w)) = shell w"
    unfolding ConsumePrerequisiteToken_def time_Now_def
    by (auto simp: drop shell_emit[OF assms] Let_def split: prod.splits sum.splits option.splits)
  show "shell (snd (CreateSession svc sid w)) = shell w"
    unfolding CreateSession_def time_Now_def
    by (auto simp: shell_emit[OF assms] Let_def split: prod.splits sum.splits option.splits)
qed

lemma shell_wrapped:
  assumes es: "eventStore svc = Some memory_event_store" and quiet: "\<And>inp w. w_es (snd (handler inp w)) = w_es w"
  shows "shell (snd (WrapWithRatchet zero tool handler svc store input w)) = shell w"
proof -
  have recorded: "shell (wrap_record store tool v) = shell v" for v
    by (auto simp: wrap_record_def Let_def split: prod.splits sum.splits)
  have session: "shell (snd (wrap_session svc store v)) = shell v" for v
    using shell_ops(4)[OF es, of demo_session v]
    by (auto simp: wrap_session_unfold time_Now_def Let_def split: prod.splits sum.splits option.splits)
  have handler: "shell (snd (handler inp v)) = shell v" for inp v by (simp add: shell_def quiet)
  obtain s w1 where 1: "wrap_session svc store w = (s, w1)" by fastforce
  obtain r w2 where 2: "ValidateToolCall svc demo_session tool (wrap_token tool s w1) w1 = (r, w2)" by fastforce
  obtain res out e w3 where 3: "handler input w2 = ((res, out, e), w3)" by (metis surj_pair)
  obtain c w4 where 4: "ConsumePrerequisiteToken svc demo_session tool w3 = (c, w4)" by fastforce
  obtain t w5 where 5: "IssueToken svc demo_session tool w4 = (t, w5)" by fastforce
  have "shell w1 = shell w" using session[of w] 1 by simp
  moreover have "shell w2 = shell w1" using shell_ops(1)[OF es, of demo_session tool "wrap_token tool s w1" w1] 2 by simp
  moreover have "shell w3 = shell w2" using handler[of input w2] 3 by simp
  moreover have "shell w4 = shell w3" using shell_ops(3)[OF es, of demo_session tool w3] 4 by simp
  moreover have "shell w5 = shell w4" using shell_ops(2)[OF es, of demo_session tool w4] 5 by simp
  ultimately show ?thesis
    by (cases r; simp add: WrapWithRatchet_unfold 1 2 3 4 5 recorded Let_def split: option.split)
qed

section \<open>The events of a wrapped call\<close>

lemma kinds_wrapped:
  assumes es: "eventStore svc = Some memory_event_store" and quiet: "\<And>inp w. w_es (snd (handler inp w)) = w_es w"
    and call: "WrapWithRatchet zero tool handler svc store input w = (Return (res, out, e), w')"
  obtains cs v ks js where
    "kinds w' = kinds w @ cs @ [EventTypeToolCallAttempt, v] @ ks @ js"
    "at_most_one EventTypeSessionCreated cs" "at_most_one EventTypeTokenConsumed ks" "at_most_one EventTypeTokenCreated js"
    "v = EventTypeToolCallSuccess \<or> v = EventTypeToolCallFailure"
    "e = None \<Longrightarrow> v = EventTypeToolCallSuccess" "e \<noteq> None \<Longrightarrow> ks = [] \<and> js = []"
proof -
  obtain s w1 where ws: "wrap_session svc store w = (s, w1)" by fastforce
  obtain r w2 where val: "ValidateToolCall svc demo_session tool (wrap_token tool s w1) w1 = (r, w2)" by fastforce
  obtain res3 out3 e3 w3 where h: "handler input w2 = ((res3, out3, e3), w3)" by (metis surj_pair)
  have k3: "kinds w3 = kinds w2" using quiet[of input w2] by (simp add: h kinds_def)
  from kinds_session[OF es ws] obtain cs where cs: "kinds w1 = kinds w @ cs" "at_most_one EventTypeSessionCreated cs"
    by blast
  have "r \<noteq> Panic" using ValidateToolCall_returns[of svc demo_session tool "wrap_token tool s w1" w1] by (simp add: val)
  then obtain ve where r: "r = Return ve" by (cases r) auto
  note k2 = kinds_validate[OF es val[unfolded r]]
  show thesis
  proof (cases "ve = None \<and> e3 = None")
    case False
    with call ws val h r have "w' = (if ve = None then w3 else w2)" "e \<noteq> None"
      by (auto simp: WrapWithRatchet_unfold Let_def split: option.splits)
    with k2 k3 cs show thesis
      by (intro that[of cs "if ve = None then EventTypeToolCallSuccess else EventTypeToolCallFailure" "[]" "[]"])
        (simp_all add: at_most_one_def)
  next
    case True
    let ?w4 = "snd (ConsumePrerequisiteToken svc demo_session tool w3)"
    obtain ks where ks: "kinds ?w4 = kinds w3 @ ks" "at_most_one EventTypeTokenConsumed ks"
      using kinds_consume[OF es, of demo_session tool w3] by blast
    obtain js where js: "kinds (snd (IssueToken svc demo_session tool ?w4)) = kinds ?w4 @ js"
      "at_most_one EventTypeTokenCreated js" using kinds_issue[OF es, of demo_session tool ?w4] by blast
    from True call ws val h r have "w' = wrap_record store tool (snd (IssueToken svc demo_session tool ?w4))" "e = None"
      by (auto simp: WrapWithRatchet_unfold Let_def split: prod.splits)
    with True k2 k3 cs ks js show thesis
      by (intro that[of cs EventTypeToolCallSuccess ks js]) simp_all
  qed
qed

section \<open>The statistics of a run\<close>

fun is_call :: "'inp request \<Rightarrow> bool" where
  "is_call (CallTool tool inp) = True"
| "is_call (Idle n) = False"

definition balanced :: "nat \<Rightarrow> nat \<Rightarrow> EventType list \<Rightarrow> bool" where
  "balanced requests served ts \<longleftrightarrow>
     count_list ts EventTypeToolCallAttempt = requests \<and>
     count_list ts EventTypeToolCallSuccess + count_list ts EventTypeToolCallFailure = requests \<and>
     served \<le> count_list ts EventTypeToolCallSuccess \<and>
     count_list ts EventTypeTokenCreated \<le> served \<and> count_list ts EventTypeTokenConsumed \<le> served"

lemma balanced_call:
  assumes "balanced n m ts" and "at_most_one EventTypeSessionCreated cs" and "at_most_one EventTypeTokenConsumed ks"
    and "at_most_one EventTypeTokenCreated js" and "v = EventTypeToolCallSuccess \<or> v = EventTypeToolCallFailure"
    and "ok \<Longrightarrow> v = EventTypeToolCallSuccess" and "\<not> ok \<Longrightarrow> ks = [] \<and> js = []"
  shows "balanced (Suc n) (if ok then Suc m else m) (ts @ cs @ [EventTypeToolCallAttempt, v] @ ks @ js)"
proof -
  have "EventTypeSessionCreated \<notin> {EventTypeTokenCreated, EventTypeTokenConsumed, EventTypeToolCallAttempt,
      EventTypeToolCallSuccess, EventTypeToolCallFailure}"
    "EventTypeTokenCreated \<notin> {EventTypeTokenConsumed, EventTypeToolCallAttempt, EventTypeToolCallSuccess,
      EventTypeToolCallFailure}"
    "EventTypeTokenConsumed \<notin> {EventTypeToolCallAttempt, EventTypeToolCallSuccess, EventTypeToolCallFailure}"
    "EventTypeToolCallAttempt \<notin> {EventTypeToolCallSuccess, EventTypeToolCallFailure}"
    "EventTypeToolCallSuccess \<noteq> EventTypeToolCallFailure"
    by (simp_all add: event_types)
  note distinct = this
  show ?thesis
    using assms distinct
    by (cases ok; cases "cs = []"; cases "ks = []"; cases "js = []") (auto simp: balanced_def at_most_one_def)
qed

lemma balanced_serve:
  assumes "eventStore svc = Some memory_event_store" and "\<And>tool inp w. w_es (snd (hs tool inp w)) = w_es w"
    and "balanced n (length log) ts" and "serve zero hs svc rq (log, w) = (log', w')"
  shows "\<exists>xs. kinds w' = kinds w @ xs \<and> balanced (n + (if is_call rq then 1 else 0)) (length log') (ts @ xs) \<and>
    shell w' = shell w"
proof (cases rq)
  case (Idle k)
  with assms(3,4) show ?thesis by (auto intro!: exI[of _ "[]"])
next
  case (CallTool tool input)
  obtain r w1 where call: "WrapWithRatchet zero tool (hs tool) svc (sessionStore svc) input w = (r, w1)" by fastforce
  have "r \<noteq> Panic"
    using WrapWithRatchet_returns[of zero tool "hs tool" svc "sessionStore svc" input w] by (simp add: call)
  then obtain res out e where r: "r = Return (res, out, e)" by (metis go_result.exhaust prod.exhaust)
  from assms(4) CallTool call r have w': "w' = w1" and log': "length log' = (if e = None then Suc (length log) else length log)"
    by (auto split: option.splits)
  have shell: "shell w1 = shell w"
    using shell_wrapped[where handler = "hs tool", OF assms(1,2), of zero tool "sessionStore svc" input w] by (simp add: call)
  show ?thesis
  proof (rule kinds_wrapped[OF assms(1) assms(2) call[unfolded r]])
    fix cs v ks js
    assume k: "kinds w1 = kinds w @ cs @ [EventTypeToolCallAttempt, v] @ ks @ js"
      "at_most_one EventTypeSessionCreated cs" "at_most_one EventTypeTokenConsumed ks" "at_most_one EventTypeTokenCreated js"
      "v = EventTypeToolCallSuccess \<or> v = EventTypeToolCallFailure"
      "e = None \<Longrightarrow> v = EventTypeToolCallSuccess" "e \<noteq> None \<Longrightarrow> ks = [] \<and> js = []"
    from balanced_call[OF assms(3) k(2-5), of "e = None"] k(6,7) show ?thesis
      by (intro exI[of _ "cs @ [EventTypeToolCallAttempt, v] @ ks @ js"]) (simp add: w' log' k(1) shell CallTool)
  qed
qed

text \<open>
  Requests one after the other; between them the pruning goroutine of the event store, which exists
  when the retention is positive, may take a turn at any time. \<open>zone\<close> as in \<open>pruneExpired\<close>.
\<close>

inductive observed_run ::
  "(time \<Rightarrow> duration) \<Rightarrow> 'out \<Rightarrow> (ToolName \<Rightarrow> ('inp, 'res, 'out, 'ts, 'ss, 'rg, MemoryEventStore) handler) \<Rightarrow>
   ('ts, 'ss, 'rg, MemoryEventStore) RatchetServiceImpl \<Rightarrow> int \<Rightarrow> 'inp request list \<Rightarrow> call list \<Rightarrow>
   ('ts, 'ss, 'rg, MemoryEventStore) world \<Rightarrow> bool"
  for zone zero hs svc days where
  begins: "w_es w = NewMemoryEventStore days \<Longrightarrow> observed_run zone zero hs svc days [] [] w"
| serves: "observed_run zone zero hs svc days rqs log w \<Longrightarrow> serve zero hs svc rq (log, w) = (log', w') \<Longrightarrow>
    observed_run zone zero hs svc days (rqs @ [rq]) log' w'"
| prunes: "observed_run zone zero hs svc days rqs log w \<Longrightarrow> runPruner zone (w_es w) m \<Longrightarrow>
    observed_run zone zero hs svc days rqs log (w\<lparr>w_es := m\<rparr>)"

text \<open>What is in the store is what is left of a balanced log, all of it when nothing is pruned.\<close>

lemma observed_run_balanced:
  assumes "eventStore svc = Some memory_event_store" and "\<And>tool inp w. w_es (snd (hs tool inp w)) = w_es w"
  shows "observed_run zone zero hs svc days rqs log w \<Longrightarrow>
    \<exists>ts. balanced (length (filter is_call rqs)) (length log) ts \<and> subseq (kinds w) ts \<and>
      (days \<le> 0 \<longrightarrow> kinds w = ts \<and> \<not> pruner (w_es w))"
proof (induction rule: observed_run.induct)
  case (begins w)
  then show ?case by (intro exI[of _ "[]"]) (simp add: balanced_def kinds_def NewMemoryEventStore_def)
next
  case (serves rqs log w rq log' w')
  then obtain ts where ts: "balanced (length (filter is_call rqs)) (length log) ts" "subseq (kinds w) ts"
    "days \<le> 0 \<longrightarrow> kinds w = ts \<and> \<not> pruner (w_es w)" by blast
  from balanced_serve[OF assms ts(1) serves(2)] obtain xs where xs: "kinds w' = kinds w @ xs" "shell w' = shell w"
    "balanced (length (filter is_call rqs) + (if is_call rq then 1 else 0)) (length log') (ts @ xs)" by blast
  from xs(2) have "pruner (w_es w') = pruner (w_es w)" by (metis MemoryEventStore.select_convs(4) MemoryEventStore.surjective MemoryEventStore.update_convs(1) shell_def)
  with ts xs show ?case by (intro exI[of _ "ts @ xs"]) (auto intro: list_emb_append_mono)
next
  case (prunes rqs log w m)
  then obtain ts where ts: "balanced (length (filter is_call rqs)) (length log) ts" "subseq (kinds w) ts"
    "days \<le> 0 \<longrightarrow> kinds w = ts \<and> \<not> pruner (w_es w)" by blast
  from prunes(2) have "pruner (w_es w)" "subseq (map EvType (events m)) (kinds w)"
    by (auto simp: kinds_def pruneExpired_filter intro: subseq_map elim!: runPrunerE)
  with ts show ?case by (intro exI[of _ ts]) (auto simp: kinds_def intro: subseq_order.trans)
qed

lemma subseq_count: "subseq xs ys \<Longrightarrow> count_list xs x \<le> count_list ys x"
  by (induction rule: list_emb.induct) auto

text \<open>The number the statistics give for a kind of event.\<close>

definition stat :: "EventStats \<Rightarrow> EventType \<Rightarrow> nat" where
  "stat st ty = (case EventsByType st ty of None \<Rightarrow> 0 | Some n \<Rightarrow> n)"

lemma count_events_kinds: "count_events (\<lambda>e. EvType e = ty) es = count_list (map EvType es) ty"
  by (induction es) (simp_all add: count_events_def)

lemma stat_stats_of: "stat (stats_of es) ty = count_list (map EvType es) ty"
  by (simp add: stat_def stats_of_def counter_def count_events_kinds)

lemma stats_totals:
  "TokensIssued (stats_of es) = count_list (map EvType es) EventTypeTokenCreated"
  "TokensConsumed (stats_of es) = count_list (map EvType es) EventTypeTokenConsumed"
  by (simp_all add: stats_of_def count_events_kinds)

text \<open>
  C32: The statistics tell the truth about a run, whatever the stores, the generator, the rules and
  the clock are. When events are kept (a retention of 0 days or less), one attempt was counted for
  each call that was requested and each attempt was counted as a success or as a failure; the calls
  that were served are among the successes. With a positive retention, pruned events are no longer
  counted: the numbers are then at most these. In both cases at most one token was counted as issued
  and at most one as consumed for each call that was served.
\<close>

theorem statistics_of_run:
  assumes "eventStore svc = Some memory_event_store" and "\<And>tool inp w. w_es (snd (hs tool inp w)) = w_es w"
    and "observed_run zone zero hs svc days rqs log w"
  shows "\<exists>st. GetObservabilityStats svc w = Inr (Some st) \<and>
    (days \<le> 0 \<longrightarrow>
       stat st EventTypeToolCallAttempt = length (filter is_call rqs) \<and>
       stat st EventTypeToolCallSuccess + stat st EventTypeToolCallFailure = stat st EventTypeToolCallAttempt \<and>
       length log \<le> stat st EventTypeToolCallSuccess) \<and>
    stat st EventTypeToolCallAttempt \<le> length (filter is_call rqs) \<and>
    stat st EventTypeToolCallSuccess + stat st EventTypeToolCallFailure \<le> length (filter is_call rqs) \<and>
    TokensIssued st \<le> length log \<and> TokensConsumed st \<le> length log"
proof -
  obtain ts where ts: "balanced (length (filter is_call rqs)) (length log) ts" and sub: "subseq (kinds w) ts"
    and kept: "days \<le> 0 \<longrightarrow> kinds w = ts"
    using observed_run_balanced[OF assms] by blast
  have le: "count_list (kinds w) ty \<le> count_list ts ty" for ty by (rule subseq_count[OF sub])
  have "GetObservabilityStats svc w = Inr (Some (stats_of (events (w_es w))))"
    by (simp add: GetObservabilityStats_def assms(1) mes.event_stats)
  then show ?thesis
    using ts kept le[of EventTypeToolCallAttempt] le[of EventTypeTokenCreated] le[of EventTypeTokenConsumed]
      add_mono[OF le[of EventTypeToolCallSuccess] le[of EventTypeToolCallFailure]]
    by (intro exI[of _ "stats_of (events (w_es w))"])
      (auto simp: balanced_def stat_stats_of stats_totals kinds_def[symmetric])
qed

text \<open>One request and then a turn of the pruning goroutine, which removes all its events.\<close>

definition ex_observed :: "int \<Rightarrow> call list \<times> (MemoryTokenStore, MemorySessionStore, entropy, MemoryEventStore) world" where
  "ex_observed days = serve () ex_handler (demo_service ex_loader (Some memory_event_store) [ex_rule])
     (CallTool ''login'' ())
     ([], fresh_world int (\<lambda>_. ''uuid'') ex_entropy (NewMemoryEventStore days))"

theorem statistics_of_run_witness:
  "(\<exists>st. GetObservabilityStats (demo_service ex_loader (Some memory_event_store) [ex_rule]) (snd (ex_observed 0)) =
       Inr (Some st) \<and> stat st EventTypeToolCallAttempt = 1) \<and>
   (let m = pruneExpired (\<lambda>_. 0) (3 * civil_day) (w_es (snd (ex_observed 1)))
    in events m = [] \<and>
       (\<exists>st. GetObservabilityStats (demo_service ex_loader (Some memory_event_store) [ex_rule])
          ((snd (ex_observed 1))\<lparr>w_es := m\<rparr>) = Inr (Some st) \<and> stat st EventTypeToolCallAttempt \<le> 1))"
proof -
  let ?svc = "demo_service ex_loader (Some memory_event_store) [ex_rule]"
  have es: "eventStore ?svc = Some memory_event_store" by (simp add: demo_service_def)
  have quiet: "w_es (snd (ex_handler tool inp w)) = w_es w"
    for tool inp and w :: "(MemoryTokenStore, MemorySessionStore, entropy, MemoryEventStore) world"
    by (simp add: ex_handler_def)
  have run: "observed_run (\<lambda>_. 0) () ex_handler ?svc days [CallTool ''login'' ()] (fst (ex_observed days)) (snd (ex_observed days))"
    for days
  proof -
    let ?w = "fresh_world int (\<lambda>_. ''uuid'') ex_entropy (NewMemoryEventStore days)"
    have "observed_run (\<lambda>_. 0) () ex_handler ?svc days [] [] ?w" by (rule observed_run.begins) (simp add: fresh_world_def)
    moreover have "serve () ex_handler ?svc (CallTool ''login'' ()) ([], ?w) = (fst (ex_observed days), snd (ex_observed days))"
      unfolding ex_observed_def prod.collapse by (rule refl)
    ultimately show ?thesis using observed_run.serves by fastforce
  qed
  have "pruner (w_es (snd (ex_observed 1)))" by code_simp
  from observed_run.prunes[OF run runPruner.tick[OF this], of "3 * civil_day"]
  have pruned: "observed_run (\<lambda>_. 0) () ex_handler ?svc 1 [CallTool ''login'' ()] (fst (ex_observed 1))
      ((snd (ex_observed 1))\<lparr>w_es := pruneExpired (\<lambda>_. 0) (3 * civil_day) (w_es (snd (ex_observed 1)))\<rparr>)" .
  have "events (pruneExpired (\<lambda>_. 0) (3 * civil_day) (w_es (snd (ex_observed 1)))) = []" by code_simp
  with statistics_of_run[OF es quiet run[of 0]] statistics_of_run[OF es quiet pruned] show ?thesis
    by (auto simp: Let_def)
qed

end
