(* ===== verification/Interleaving.thy ===== *)
theory Interleaving
  imports RatchetSpec
begin

text \<open>
  Wrapped calls that run at the same time. The HTTP server runs each request in its own goroutine;
  the stores lock each method, the service and the wrapper lock nothing around several of them. So
  a wrapped call is a sequence of atomic phases, one per access to a store or to the clock, and
  the phases of different calls interleave in any way.

  A schedule is a list of moves: a call arrives, a running call does its next phase, time passes.
  The state is that of the one session all wrapped calls share: its history, which \<open>Get\<close> copies
  and \<open>Update\<close> overwrites; its token lists, \<open>held\<close>, a map that all copies share; and the entries of
  the token store. The events are left out, and so is the creation of the session, which is there
  from the start. Reading and writing the tokens of a tool in the shared map is one phase here, and so
  is appending to the history; \<open>SessionRaces\<close> has the creation of the session and the accesses of the
  map as steps of their own and shows when that makes no difference. \<open>trace\<close> is a
  ghost: which calls were allowed and which tokens were issued.

  Shown: order and freshness hold under every interleaving. One-time use does not (any number of
  calls can be let through by one token), and a recorded call can be lost.
\<close>

section \<open>Phases of a call\<close>

datatype phase =
    Enter
  | Check "ToolName list" "Rule list"
  | Handle
  | ConsumeRead
  | ConsumeRemove ToolName TokenValue
  | ConsumeGet ToolName
  | ConsumeDrop ToolName "ToolName list"
  | ConsumeUpdate "ToolName list"
  | Issue
  | IssueStore TokenValue time
  | IssueGet TokenValue
  | IssueAdd TokenValue "ToolName list"
  | IssueUpdate "ToolName list"
  | RecordGet
  | RecordUpdate "ToolName list"
  | Finished
  | Refused
  | Failed

datatype mark = Allowed ToolName time | Issued ToolName time

record shared =
  clock_now :: time
  history :: "ToolName list"
  held :: "ToolName \<Rightarrow> TokenValue list"
  store :: "ToolName \<Rightarrow> (TokenValue \<times> time) list"
  trace :: "mark list"

text \<open>What the environment decides: whether the handler succeeds, which token is drawn, if any.\<close>

record choice =
  handler_ok :: bool
  drawn_token :: "TokenValue option"

text \<open>
  The phases of \<open>ValidateToolCall\<close>: without a rule, or with a rule that names no prerequisite, the tool
  is free; else the session is fetched and the rules are tried in order, each with one query of the
  token store.
\<close>

fun validate_phase :: "Rule list \<Rightarrow> ToolName \<Rightarrow> shared \<Rightarrow> phase \<Rightarrow> shared \<times> phase" where
  "validate_phase rs tool sh (Check h []) = (sh, Refused)"
| "validate_phase rs tool sh (Check h (r # rest)) =
     (if Prerequisite r \<notin> set h then (sh, Check h rest)
      else if live (clock_now sh) (store sh (Prerequisite r)) = [] then (sh, Check h rest)
      else (sh\<lparr>trace := trace sh @ [Allowed tool (clock_now sh)]\<rparr>, Handle))"
| "validate_phase rs tool sh _ =
     (if restricted rs tool then (sh, Check (history sh) (rules_for rs tool))
      else (sh\<lparr>trace := trace sh @ [Allowed tool (clock_now sh)]\<rparr>, Handle))"

text \<open>
  The phases of \<open>ConsumePrerequisiteToken\<close>. \<open>RemoveToken\<close> fails when the token is no longer in the store;
  then the method returns its error, which the wrapper only logs.
\<close>

fun consume_phase :: "Rule list \<Rightarrow> ToolName \<Rightarrow> shared \<Rightarrow> phase \<Rightarrow> shared \<times> phase" where
  "consume_phase rs tool sh (ConsumeRemove p tok) =
     (if list_ex (\<lambda>e. fst e = tok) (store sh p)
      then (sh\<lparr>store := (store sh)(p := remove_first (\<lambda>e. fst e = tok) (store sh p))\<rparr>, ConsumeGet p)
      else (sh, Issue))"
| "consume_phase rs tool sh (ConsumeGet p) = (sh, ConsumeDrop p (history sh))"
| "consume_phase rs tool sh (ConsumeDrop p h) =
     (if held sh p = [] then (sh, Issue)
      else (sh\<lparr>held := (held sh)(p := butlast (held sh p))\<rparr>, ConsumeUpdate h))"
| "consume_phase rs tool sh (ConsumeUpdate h) = (sh\<lparr>history := h\<rparr>, Issue)"
| "consume_phase rs tool sh _ =
     (case spent rs tool (clock_now sh) (store sh) of
        None \<Rightarrow> (sh, Issue)
      | Some p \<Rightarrow> (sh, ConsumeRemove p (last (live (clock_now sh) (store sh p)))))"

text \<open>The phases of \<open>IssueToken\<close>; without a token the wrapper goes on to the record.\<close>

fun issue_phase :: "Rule list \<Rightarrow> ToolName \<Rightarrow> choice \<Rightarrow> shared \<Rightarrow> phase \<Rightarrow> shared \<times> phase" where
  "issue_phase rs tool c sh (IssueStore tok t) =
     (sh\<lparr>store := mint rs tool t (Some tok) (store sh), trace := trace sh @ [Issued tool t]\<rparr>, IssueGet tok)"
| "issue_phase rs tool c sh (IssueGet tok) = (sh, IssueAdd tok (history sh))"
| "issue_phase rs tool c sh (IssueAdd tok h) =
     (sh\<lparr>held := (held sh)(tool := held sh tool @ [tok])\<rparr>, IssueUpdate h)"
| "issue_phase rs tool c sh (IssueUpdate h) = (sh\<lparr>history := h\<rparr>, RecordGet)"
| "issue_phase rs tool c sh _ =
     (case drawn_token c of None \<Rightarrow> (sh, RecordGet) | Some tok \<Rightarrow> (sh, IssueStore tok (clock_now sh)))"

text \<open>The wrapper: the calls of the service around the handler, then the record of the call.\<close>

fun next_phase :: "Rule list \<Rightarrow> ToolName \<Rightarrow> choice \<Rightarrow> shared \<times> phase \<Rightarrow> shared \<times> phase" where
  "next_phase rs tool c (sh, Enter) = validate_phase rs tool sh Enter"
| "next_phase rs tool c (sh, Check h rest) = validate_phase rs tool sh (Check h rest)"
| "next_phase rs tool c (sh, Handle) = (sh, if handler_ok c then ConsumeRead else Failed)"
| "next_phase rs tool c (sh, ConsumeRead) = consume_phase rs tool sh ConsumeRead"
| "next_phase rs tool c (sh, ConsumeRemove p tok) = consume_phase rs tool sh (ConsumeRemove p tok)"
| "next_phase rs tool c (sh, ConsumeGet p) = consume_phase rs tool sh (ConsumeGet p)"
| "next_phase rs tool c (sh, ConsumeDrop p h) = consume_phase rs tool sh (ConsumeDrop p h)"
| "next_phase rs tool c (sh, ConsumeUpdate h) = consume_phase rs tool sh (ConsumeUpdate h)"
| "next_phase rs tool c (sh, Issue) = issue_phase rs tool c sh Issue"
| "next_phase rs tool c (sh, IssueStore tok t) = issue_phase rs tool c sh (IssueStore tok t)"
| "next_phase rs tool c (sh, IssueGet tok) = issue_phase rs tool c sh (IssueGet tok)"
| "next_phase rs tool c (sh, IssueAdd tok h) = issue_phase rs tool c sh (IssueAdd tok h)"
| "next_phase rs tool c (sh, IssueUpdate h) = issue_phase rs tool c sh (IssueUpdate h)"
| "next_phase rs tool c (sh, RecordGet) = (sh, RecordUpdate (history sh))"
| "next_phase rs tool c (sh, RecordUpdate h) = (sh\<lparr>history := h @ [tool]\<rparr>, Finished)"
| "next_phase rs tool c (sh, Finished) = (sh, Finished)"
| "next_phase rs tool c (sh, Refused) = (sh, Refused)"
| "next_phase rs tool c (sh, Failed) = (sh, Failed)"

section \<open>Schedules\<close>

record system =
  sys :: shared
  threads :: "nat \<Rightarrow> (ToolName \<times> phase) option"

datatype move = Arrive nat ToolName | Run nat choice | Tick nat

fun do_move :: "Rule list \<Rightarrow> move \<Rightarrow> system \<Rightarrow> system" where
  "do_move rs (Arrive i tool) s =
     (case threads s i of Some _ \<Rightarrow> s | None \<Rightarrow> s\<lparr>threads := (threads s)(i \<mapsto> (tool, Enter))\<rparr>)"
| "do_move rs (Run i c) s =
     (case threads s i of
        None \<Rightarrow> s
      | Some (tool, ph) \<Rightarrow>
          let (sh, ph') = next_phase rs tool c (sys s, ph)
          in s\<lparr>sys := sh, threads := (threads s)(i \<mapsto> (tool, ph'))\<rparr>)"
| "do_move rs (Tick n) s = s\<lparr>sys := (sys s)\<lparr>clock_now := clock_now (sys s) + int n\<rparr>\<rparr>"

definition idle_system :: "time \<Rightarrow> system" where
  "idle_system t =
     \<lparr>sys = \<lparr>clock_now = t, history = [], held = (\<lambda>_. []), store = (\<lambda>_. []), trace = []\<rparr>, threads = Map.empty\<rparr>"

definition run_schedule :: "Rule list \<Rightarrow> move list \<Rightarrow> time \<Rightarrow> system" where
  "run_schedule rs moves t = fold (do_move rs) moves (idle_system t)"

section \<open>What holds in every interleaving\<close>

text \<open>A token in the store was issued; a call past its validation was allowed.\<close>

definition past_validation :: "phase \<Rightarrow> bool" where
  "past_validation ph \<longleftrightarrow>
     (case ph of Enter \<Rightarrow> False | Check h rs \<Rightarrow> False | Refused \<Rightarrow> False | _ \<Rightarrow> True)"

definition tokens_issued :: "Rule list \<Rightarrow> shared \<Rightarrow> bool" where
  "tokens_issued rs sh \<longleftrightarrow>
     (\<forall>p e. e \<in> set (store sh p) \<longrightarrow> (\<exists>t. Issued p t \<in> set (trace sh) \<and> snd e = t + rule_expiry rs p))"

definition allowed_first :: "system \<Rightarrow> bool" where
  "allowed_first s \<longleftrightarrow>
     (\<forall>i tool ph. threads s i = Some (tool, ph) \<longrightarrow> past_validation ph \<longrightarrow>
        (\<exists>t. Allowed tool t \<in> set (trace (sys s))))"

definition rest_of_rules :: "Rule list \<Rightarrow> system \<Rightarrow> bool" where
  "rest_of_rules rs s \<longleftrightarrow>
     (\<forall>i tool h rest. threads s i = Some (tool, Check h rest) \<longrightarrow> set rest \<subseteq> set (rules_for rs tool))"

text \<open>Mark \<open>i\<close> of the trace has the marks before it that justify it.\<close>

definition mark_ok :: "Rule list \<Rightarrow> mark list \<Rightarrow> mark \<Rightarrow> bool" where
  "mark_ok rs before m =
     (case m of
        Allowed tool t \<Rightarrow> restricted rs tool \<longrightarrow>
          (\<exists>ru\<in>set (rules_for rs tool). \<exists>t'. Issued (Prerequisite ru) t' \<in> set before \<and>
             t < t' + rule_expiry rs (Prerequisite ru))
      | Issued tool t \<Rightarrow> (\<exists>t'. Allowed tool t' \<in> set before))"

definition trace_ok :: "Rule list \<Rightarrow> mark list \<Rightarrow> bool" where
  "trace_ok rs ms \<longleftrightarrow> (\<forall>i<length ms. mark_ok rs (take i ms) (ms ! i))"

lemma trace_ok_snoc: "trace_ok rs (ms @ [m]) \<longleftrightarrow> trace_ok rs ms \<and> mark_ok rs ms m"
  by (auto simp: trace_ok_def nth_append less_Suc_eq)

lemma tokens_issued_later:
  "tokens_issued rs sh \<Longrightarrow> (\<And>p. set (store sh' p) \<subseteq> set (store sh p)) \<Longrightarrow>
   set (trace sh) \<subseteq> set (trace sh') \<Longrightarrow> tokens_issued rs sh'"
  unfolding tokens_issued_def by blast

lemma live_token_issued:
  assumes "tokens_issued rs sh" and "live t (store sh p) \<noteq> []"
  shows "\<exists>t'. Issued p t' \<in> set (trace sh) \<and> t < t' + rule_expiry rs p"
proof -
  from assms(2) obtain e where "e \<in> set (store sh p)" "t < snd e"
    by (auto simp: live_def filter_empty_conv)
  with assms(1) show ?thesis unfolding tokens_issued_def by fastforce
qed

text \<open>One phase keeps the tokens issued, adds at most a justified mark, and follows the order of phases.\<close>

lemma next_phase_tokens:
  assumes "tokens_issued rs sh"
  shows "tokens_issued rs (fst (next_phase rs tool c (sh, ph)))"
proof (cases ph)
  case (ConsumeRemove p tok)
  then show ?thesis
    by (intro tokens_issued_later[OF assms]) (auto dest: subsetD[OF set_remove_first_subset])
next
  case (IssueStore tok t)
  then show ?thesis using assms
    by (auto simp: tokens_issued_def mint_def split: if_splits) fastforce+
next
  case (Check h rest)
  then show ?thesis using assms by (cases rest) (auto intro: tokens_issued_later[OF assms])
qed (auto intro: tokens_issued_later[OF assms] split: option.splits simp: assms)

lemma next_phase_trace:
  fixes c :: choice
  assumes "tokens_issued rs sh"
    and "past_validation ph \<Longrightarrow> \<exists>t. Allowed tool t \<in> set (trace sh)"
    and "\<And>h rest. ph = Check h rest \<Longrightarrow> set rest \<subseteq> set (rules_for rs tool)"
  defines "sh' \<equiv> fst (next_phase rs tool c (sh, ph))"
  shows "trace sh' = trace sh \<or> (\<exists>m. trace sh' = trace sh @ [m] \<and> mark_ok rs (trace sh) m)"
proof (cases ph)
  case Enter
  then show ?thesis by (auto simp: sh'_def mark_ok_def)
next
  case (Check h rest)
  show ?thesis
  proof (cases rest)
    case (Cons r rest')
    with assms(3)[OF Check] have "r \<in> set (rules_for rs tool)" by simp
    then have "mark_ok rs (trace sh) (Allowed tool t)" if "live t (store sh (Prerequisite r)) \<noteq> []" for t
      using live_token_issued[OF assms(1) that] by (auto simp: mark_ok_def)
    with Check Cons show ?thesis by (simp add: sh'_def)
  qed (simp add: sh'_def Check)
next
  case (IssueStore tok t)
  with assms(2) show ?thesis by (simp add: sh'_def mark_ok_def past_validation_def)
qed (simp_all add: sh'_def split: option.splits)

lemma next_phase_follows:
  assumes "past_validation ph \<Longrightarrow> \<exists>t. Allowed tool t \<in> set (trace sh)"
    and "\<And>h rest. ph = Check h rest \<Longrightarrow> set rest \<subseteq> set (rules_for rs tool)"
    and "next_phase rs tool c (sh, ph) = (sh', ph')"
  shows "past_validation ph' \<Longrightarrow> \<exists>t. Allowed tool t \<in> set (trace sh')"
    and "ph' = Check h rest \<Longrightarrow> set rest \<subseteq> set (rules_for rs tool)"
proof -
  have "(past_validation ph' \<longrightarrow> (\<exists>t. Allowed tool t \<in> set (trace sh'))) \<and>
    (\<forall>h rest. ph' = Check h rest \<longrightarrow> set rest \<subseteq> set (rules_for rs tool))"
  proof (cases ph)
    case (Check h rest)
    with assms show ?thesis by (cases rest) (auto simp: past_validation_def split: if_splits)
  qed (use assms in \<open>auto simp: past_validation_def split: if_splits option.splits\<close>)
  then show "past_validation ph' \<Longrightarrow> \<exists>t. Allowed tool t \<in> set (trace sh')"
    "ph' = Check h rest \<Longrightarrow> set rest \<subseteq> set (rules_for rs tool)" by blast+
qed

section \<open>The invariant of a system\<close>

definition system_ok :: "Rule list \<Rightarrow> system \<Rightarrow> bool" where
  "system_ok rs s \<longleftrightarrow>
     tokens_issued rs (sys s) \<and> trace_ok rs (trace (sys s)) \<and> allowed_first s \<and> rest_of_rules rs s"

lemma system_ok_move:
  assumes "system_ok rs s"
  shows "system_ok rs (do_move rs m s)"
proof (cases m)
  case (Arrive i tool)
  with assms show ?thesis
    by (auto simp: system_ok_def allowed_first_def rest_of_rules_def past_validation_def split: option.splits)
next
  case (Tick n)
  with assms show ?thesis
    by (auto simp: system_ok_def tokens_issued_def allowed_first_def rest_of_rules_def)
next
  case (Run i c)
  show ?thesis
  proof (cases "threads s i")
    case None
    with Run assms show ?thesis by simp
  next
    case (Some a)
    then obtain tool ph where th: "threads s i = Some (tool, ph)" by (cases a) auto
    obtain sh' ph' where step: "next_phase rs tool c (sys s, ph) = (sh', ph')" by fastforce
    have al: "past_validation ph \<Longrightarrow> \<exists>t. Allowed tool t \<in> set (trace (sys s))"
      and rest: "\<And>h rest. ph = Check h rest \<Longrightarrow> set rest \<subseteq> set (rules_for rs tool)"
      using assms th unfolding system_ok_def allowed_first_def rest_of_rules_def by blast+
    have tok: "tokens_issued rs (sys s)" and tr: "trace_ok rs (trace (sys s))"
      using assms by (simp_all add: system_ok_def)
    have tok': "tokens_issued rs sh'" using next_phase_tokens[OF tok, of tool c ph] step by simp
    have trace: "trace sh' = trace (sys s) \<or> (\<exists>m. trace sh' = trace (sys s) @ [m] \<and> mark_ok rs (trace (sys s)) m)"
      using next_phase_trace[where ph = ph and c = c, OF tok al rest] step by simp
    have tr': "trace_ok rs (trace sh')" using trace tr by (auto simp: trace_ok_snoc)
    have sub: "set (trace (sys s)) \<subseteq> set (trace sh')" using trace by auto
    note follows = next_phase_follows[OF al rest step]
    have s': "do_move rs m s = s\<lparr>sys := sh', threads := (threads s)(i \<mapsto> (tool, ph'))\<rparr>"
      using Run th step by simp
    have "allowed_first (do_move rs m s)"
      unfolding s' allowed_first_def
    proof (intro allI impI)
      fix j tool' ph1
      assume t1: "threads (s\<lparr>sys := sh', threads := (threads s)(i \<mapsto> (tool, ph'))\<rparr>) j = Some (tool', ph1)"
        and past: "past_validation ph1"
      have "\<exists>t. Allowed tool' t \<in> set (trace sh')"
      proof (cases "j = i")
        case True
        with t1 past follows(1) show ?thesis by simp
      next
        case False
        with t1 have "threads s j = Some (tool', ph1)" by simp
        with assms past have "\<exists>t. Allowed tool' t \<in> set (trace (sys s))"
          unfolding system_ok_def allowed_first_def by blast
        with sub show ?thesis by blast
      qed
      then show "\<exists>t. Allowed tool' t \<in>
        set (trace (sys (s\<lparr>sys := sh', threads := (threads s)(i \<mapsto> (tool, ph'))\<rparr>)))" by simp
    qed
    moreover have "rest_of_rules rs (do_move rs m s)"
      unfolding s' rest_of_rules_def
    proof (intro allI impI)
      fix j tool' h rest'
      assume t1: "threads (s\<lparr>sys := sh', threads := (threads s)(i \<mapsto> (tool, ph'))\<rparr>) j = Some (tool', Check h rest')"
      show "set rest' \<subseteq> set (rules_for rs tool')"
      proof (cases "j = i")
        case True
        with t1 follows(2) show ?thesis by simp
      next
        case False
        with t1 have "threads s j = Some (tool', Check h rest')" by simp
        with assms show ?thesis unfolding system_ok_def rest_of_rules_def by blast
      qed
    qed
    ultimately show ?thesis using tok' tr' by (simp add: system_ok_def s')
  qed
qed

lemma run_schedule_ok: "system_ok rs (run_schedule rs moves t)"
proof -
  have "system_ok rs (fold (do_move rs) moves s)" if "system_ok rs s" for s
    using that by (induction moves arbitrary: s) (simp_all add: system_ok_move)
  moreover have "system_ok rs (idle_system t)"
    by (simp add: system_ok_def idle_system_def tokens_issued_def trace_ok_def allowed_first_def rest_of_rules_def)
  ultimately show ?thesis by (simp add: run_schedule_def)
qed

section \<open>A call that runs alone\<close>

text \<open>The phases of one call without moves of others in between, while the clock stands still.\<close>

fun alone_phases :: "Rule list \<Rightarrow> ToolName \<Rightarrow> choice \<Rightarrow> nat \<Rightarrow> shared \<times> phase \<Rightarrow> shared \<times> phase" where
  "alone_phases rs tool c 0 st = st"
| "alone_phases rs tool c (Suc n) st = alone_phases rs tool c n (next_phase rs tool c st)"

lemma alone_check:
  "set rest \<subseteq> set (rules_for rs tool) \<Longrightarrow>
   \<exists>n. alone_phases rs tool c n (sh, Check h rest) =
     (if \<exists>r\<in>set rest. Prerequisite r \<in> set h \<and> live (clock_now sh) (store sh (Prerequisite r)) \<noteq> []
      then (sh\<lparr>trace := trace sh @ [Allowed tool (clock_now sh)]\<rparr>, Handle) else (sh, Refused))"
proof (induction rest)
  case Nil
  have "alone_phases rs tool c 1 (sh, Check h []) = (sh, Refused)" by simp
  then have "alone_phases rs tool c 1 (sh, Check h []) = (if \<exists>r\<in>set []. Prerequisite r \<in> set h \<and>
      live (clock_now sh) (store sh (Prerequisite r)) \<noteq> []
    then (sh\<lparr>trace := trace sh @ [Allowed tool (clock_now sh)]\<rparr>, Handle) else (sh, Refused))" by simp
  then show ?case by (rule exI)
next
  case (Cons r rest)
  then obtain n where n: "alone_phases rs tool c n (sh, Check h rest) =
     (if \<exists>r\<in>set rest. Prerequisite r \<in> set h \<and> live (clock_now sh) (store sh (Prerequisite r)) \<noteq> []
      then (sh\<lparr>trace := trace sh @ [Allowed tool (clock_now sh)]\<rparr>, Handle) else (sh, Refused))" by auto
  show ?case
  proof (cases "Prerequisite r \<in> set h \<and> live (clock_now sh) (store sh (Prerequisite r)) \<noteq> []")
    case True
    then show ?thesis by (intro exI[of _ 1]) auto
  next
    case False
    with n show ?thesis by (intro exI[of _ "Suc n"]) auto
  qed
qed

lemma last_live_stored: "live t es \<noteq> [] \<Longrightarrow> list_ex (\<lambda>e. fst e = last (live t es)) es"
  using last_in_set[of "live t es"] by (force simp: live_def list_ex_iff)

lemma spent_stored: "spent rs tool t b = Some p \<Longrightarrow> list_ex (\<lambda>e. fst e = last (live t (b p))) (b p)"
  by (auto simp: spent_Some_iff intro: last_live_stored)

lemma alone_add: "alone_phases rs tool c (m + n) st = alone_phases rs tool c n (alone_phases rs tool c m st)"
  by (induction m arbitrary: st) auto

lemma alone_rest:
  assumes "handler_ok c"
  shows "\<exists>n sh'. alone_phases rs tool c n (sh, Handle) = (sh', Finished) \<and> history sh' = history sh @ [tool] \<and>
    store sh' = mint rs tool (clock_now sh) (drawn_token c) (consume rs tool (clock_now sh) (store sh))"
proof -
  have issue: "\<exists>n sh'. alone_phases rs tool c n (sh, Issue) = (sh', Finished) \<and> history sh' = history sh @ [tool] \<and>
    store sh' = mint rs tool (clock_now sh) (drawn_token c) (store sh)" for sh
  proof (cases "drawn_token c")
    case None
    then show ?thesis by (intro exI[of _ 3]) (simp add: numeral_eq_Suc mint_def)
  next
    case (Some tok)
    then show ?thesis by (intro exI[of _ 7]) (simp add: numeral_eq_Suc)
  qed
  have handle: "alone_phases rs tool c 1 (sh, Handle) = (sh, ConsumeRead)" using assms by simp
  show ?thesis
  proof (cases "spent rs tool (clock_now sh) (store sh)")
    case None
    then have "alone_phases rs tool c (1 + 1) (sh, Handle) = (sh, Issue)"
      unfolding alone_add handle by simp
    moreover obtain n sh' where "alone_phases rs tool c n (sh, Issue) = (sh', Finished)" "history sh' = history sh @ [tool]"
      "store sh' = mint rs tool (clock_now sh) (drawn_token c) (store sh)" using issue[of sh] by blast
    ultimately have "alone_phases rs tool c (1 + 1 + n) (sh, Handle) = (sh', Finished)"
      "history sh' = history sh @ [tool]"
      "store sh' = mint rs tool (clock_now sh) (drawn_token c) (consume rs tool (clock_now sh) (store sh))"
      using None unfolding alone_add[of rs tool c "1 + 1" n] by (simp_all add: consume_def)
    then show ?thesis by blast
  next
    case (Some p)
    let ?st = "(store sh)(p := remove_first (\<lambda>e. fst e = last (live (clock_now sh) (store sh p))) (store sh p))"
    let ?sh = "if held sh p = [] then sh\<lparr>store := ?st\<rparr>
      else sh\<lparr>store := ?st, held := (held sh)(p := butlast (held sh p))\<rparr>"
    let ?k = "1 + (if held sh p = [] then 4 else 5)"
    from Some spent_stored[OF Some] have "alone_phases rs tool c ?k (sh, Handle) = (?sh, Issue)"
      unfolding alone_add handle by (simp add: numeral_eq_Suc)
    moreover obtain n sh' where "alone_phases rs tool c n (?sh, Issue) = (sh', Finished)" "history sh' = history ?sh @ [tool]"
      "store sh' = mint rs tool (clock_now ?sh) (drawn_token c) (store ?sh)" using issue[of ?sh] by blast
    ultimately have "alone_phases rs tool c (?k + n) (sh, Handle) = (sh', Finished)"
      "history sh' = history sh @ [tool]"
      "store sh' = mint rs tool (clock_now sh) (drawn_token c) (consume rs tool (clock_now sh) (store sh))"
      using Some unfolding alone_add[of rs tool c ?k n] by (simp_all add: consume_def split: if_splits)
    then show ?thesis by blast
  qed
qed

section \<open>A call runs to its end\<close>

text \<open>A bound on the phases a call still has to do.\<close>

fun phases_left :: "Rule list \<Rightarrow> ToolName \<Rightarrow> phase \<Rightarrow> nat" where
  "phases_left rs tool Enter = 15 + length (rules_for rs tool)"
| "phases_left rs tool (Check h rest) = 14 + length rest"
| "phases_left rs tool Handle = 13"
| "phases_left rs tool ConsumeRead = 12"
| "phases_left rs tool (ConsumeRemove p tok) = 11"
| "phases_left rs tool (ConsumeGet p) = 10"
| "phases_left rs tool (ConsumeDrop p h) = 9"
| "phases_left rs tool (ConsumeUpdate h) = 8"
| "phases_left rs tool Issue = 7"
| "phases_left rs tool (IssueStore tok t) = 6"
| "phases_left rs tool (IssueGet tok) = 5"
| "phases_left rs tool (IssueAdd tok h) = 4"
| "phases_left rs tool (IssueUpdate h) = 3"
| "phases_left rs tool RecordGet = 2"
| "phases_left rs tool (RecordUpdate h) = 1"
| "phases_left rs tool Finished = 0"
| "phases_left rs tool Refused = 0"
| "phases_left rs tool Failed = 0"

text \<open>
  A call that has been allowed and whose handler succeeds ends, whatever has become of the tokens
  meanwhile; all it adds to the trace is the tokens it issues.
\<close>

definition served_phase :: "phase \<Rightarrow> bool" where
  "served_phase ph \<longleftrightarrow> past_validation ph \<and> ph \<noteq> Failed"

definition own_marks :: "ToolName \<Rightarrow> mark list \<Rightarrow> bool" where
  "own_marks tool ms \<longleftrightarrow> (\<forall>m\<in>set ms. \<exists>t. m = Issued tool t)"

lemma served_step:
  assumes "served_phase ph" and "handler_ok c" and "next_phase rs tool c (sh, ph) = (sh', ph')"
  shows "served_phase ph' \<and> phases_left rs tool ph' \<le> phases_left rs tool ph - 1 \<and>
    (\<exists>ms. trace sh' = trace sh @ ms \<and> own_marks tool ms)"
  using assms
  by (cases ph) (auto simp: served_phase_def past_validation_def own_marks_def split: option.splits if_splits)

lemma served_ends:
  assumes "served_phase ph" and "handler_ok c" and "threads s i = Some (tool, ph)" and "phases_left rs tool ph \<le> k"
  shows "threads (fold (do_move rs) (replicate k (Run i c)) s) = (threads s)(i \<mapsto> (tool, Finished)) \<and>
    (\<exists>ms. trace (sys (fold (do_move rs) (replicate k (Run i c)) s)) = trace (sys s) @ ms \<and> own_marks tool ms)"
  using assms
proof (induction k arbitrary: s ph)
  case 0
  then have "ph = Finished" by (cases ph) (simp_all add: served_phase_def past_validation_def)
  with 0 show ?case by (auto simp: fun_upd_idem own_marks_def)
next
  case (Suc k)
  obtain sh' ph' where step: "next_phase rs tool c (sys s, ph) = (sh', ph')" by fastforce
  from served_step[OF Suc.prems(1,2) step] obtain ms where ph': "served_phase ph'" "phases_left rs tool ph' \<le> k"
    and ms: "trace sh' = trace (sys s) @ ms" "own_marks tool ms" using Suc.prems(4) by fastforce
  let ?s = "s\<lparr>sys := sh', threads := (threads s)(i \<mapsto> (tool, ph'))\<rparr>"
  have s': "do_move rs (Run i c) s = ?s" using Suc.prems(3) step by simp
  have at: "threads ?s i = Some (tool, ph')" and th: "threads ?s = (threads s)(i \<mapsto> (tool, ph'))" and tr: "sys ?s = sh'"
    by simp_all
  from Suc.IH[OF ph'(1) Suc.prems(2) at ph'(2)] obtain ms' where
    "threads (fold (do_move rs) (replicate k (Run i c)) ?s) = (threads s)(i \<mapsto> (tool, Finished))"
    "trace (sys (fold (do_move rs) (replicate k (Run i c)) ?s)) = trace sh' @ ms'" "own_marks tool ms'"
    unfolding th tr fun_upd_upd by blast
  with ms show ?case unfolding replicate_Suc fold_simps s'
    by (intro conjI exI[of _ "ms @ ms'"]) (auto simp only: own_marks_def append_assoc set_append Un_iff)
qed

section \<open>Calls validated before any of them consumes\<close>

definition well :: "TokenValue \<Rightarrow> choice" where
  "well tok = \<lparr>handler_ok = True, drawn_token = Some tok\<rparr>"

text \<open>What the schedules below leave alone: the session and the store.\<close>

definition same_tokens :: "shared \<Rightarrow> shared \<Rightarrow> bool" where
  "same_tokens sh sh' \<longleftrightarrow> clock_now sh' = clock_now sh \<and> history sh' = history sh \<and> store sh' = store sh"

definition can_call :: "Rule \<Rightarrow> shared \<Rightarrow> bool" where
  "can_call ru sh \<longleftrightarrow> Prerequisite ru \<in> set (history sh) \<and> live (clock_now sh) (store sh (Prerequisite ru)) \<noteq> []"

lemma validated_arrival:
  assumes "rules_for rs tool = [ru]" and "Prerequisite ru \<noteq> ''''" and "can_call ru (sys s)" and "threads s i = None"
  shows "fold (do_move rs) [Arrive i tool, Run i c, Run i c] s =
    s\<lparr>sys := (sys s)\<lparr>trace := trace (sys s) @ [Allowed tool (clock_now (sys s))]\<rparr>, threads := (threads s)(i \<mapsto> (tool, Handle))\<rparr>"
proof -
  have "restricted rs tool" using assms(1,2) by (simp add: restricted_def)
  with assms show ?thesis by (simp add: can_call_def)
qed

lemma validated_arrivals:
  assumes "rules_for rs tool = [ru]" and "Prerequisite ru \<noteq> ''''"
  shows "can_call ru (sys s) \<Longrightarrow> distinct is \<Longrightarrow> \<forall>i\<in>set is. threads s i = None \<Longrightarrow>
    \<exists>moves. let s' = fold (do_move rs) moves s in same_tokens (sys s) (sys s') \<and>
      trace (sys s') = trace (sys s) @ replicate (length is) (Allowed tool (clock_now (sys s))) \<and>
      threads s' = (\<lambda>i. if i \<in> set is then Some (tool, Handle) else threads s i)"
proof (induction "is" arbitrary: s)
  case Nil
  then show ?case by (intro exI[of _ "[]"]) (simp add: same_tokens_def)
next
  case (Cons i js)
  let ?ms = "[Arrive i tool, Run i (well ''''), Run i (well '''')]"
  let ?s = "fold (do_move rs) ?ms s"
  have s': "?s = s\<lparr>sys := (sys s)\<lparr>trace := trace (sys s) @ [Allowed tool (clock_now (sys s))]\<rparr>,
      threads := (threads s)(i \<mapsto> (tool, Handle))\<rparr>"
    by (rule validated_arrival[OF assms]) (use Cons.prems in simp_all)
  have "can_call ru (sys ?s)" unfolding s' using Cons.prems(1) by (simp add: can_call_def)
  moreover have "distinct js" "\<forall>j\<in>set js. threads ?s j = None" unfolding s' using Cons.prems by auto
  ultimately obtain moves where m: "let s' = fold (do_move rs) moves ?s in same_tokens (sys ?s) (sys s') \<and>
      trace (sys s') = trace (sys ?s) @ replicate (length js) (Allowed tool (clock_now (sys ?s))) \<and>
      threads s' = (\<lambda>j. if j \<in> set js then Some (tool, Handle) else threads ?s j)"
    using Cons.IH[of ?s] by blast
  have "fold (do_move rs) (?ms @ moves) s = fold (do_move rs) moves ?s" by (simp only: fold_append o_apply)
  with m show ?case unfolding s'
    by (intro exI[of _ "?ms @ moves"]) (auto simp: Let_def same_tokens_def fun_eq_iff simp del: fold_append fold.simps)
qed

lemma served_all:
  "distinct is \<Longrightarrow> \<forall>i\<in>set is. threads s i = Some (tool, Handle) \<Longrightarrow>
    \<exists>moves ms. let s' = fold (do_move rs) moves s in trace (sys s') = trace (sys s) @ ms \<and> own_marks tool ms \<and>
      threads s' = (\<lambda>i. if i \<in> set is then Some (tool, Finished) else threads s i)"
proof (induction "is" arbitrary: s)
  case Nil
  then show ?case by (intro exI[of _ "[]"]) (simp add: own_marks_def)
next
  case (Cons i js)
  let ?ms = "replicate 13 (Run i (well ''''))"
  let ?s = "fold (do_move rs) ?ms s"
  have "served_phase Handle" "handler_ok (well '''')" "phases_left rs tool Handle \<le> 13"
    by (simp_all add: served_phase_def past_validation_def well_def)
  from served_ends[OF this(1,2) _ this(3), of s i] Cons.prems(2) obtain ms where
    s': "threads ?s = (threads s)(i \<mapsto> (tool, Finished))" "trace (sys ?s) = trace (sys s) @ ms" "own_marks tool ms"
    by auto
  have "distinct js" "\<forall>j\<in>set js. threads ?s j = Some (tool, Handle)" unfolding s' using Cons.prems by auto
  from Cons.IH[OF this] obtain moves ms' where m: "let s' = fold (do_move rs) moves ?s in
      trace (sys s') = trace (sys ?s) @ ms' \<and> own_marks tool ms' \<and>
      threads s' = (\<lambda>j. if j \<in> set js then Some (tool, Finished) else threads ?s j)" by blast
  have "fold (do_move rs) (?ms @ moves) s = fold (do_move rs) moves ?s" by (simp only: fold_append o_apply)
  with m s' show ?case
    by (intro exI[of _ "?ms @ moves"] exI[of _ "ms @ ms'"])
      (auto simp: Let_def own_marks_def fun_eq_iff simp del: fold_append fold_replicate)
qed

text \<open>The first call, of a tool without restrictions.\<close>

lemma first_call:
  assumes "\<not> restricted rs p"
  shows "fold (do_move rs) (Arrive 0 p # replicate 10 (Run 0 (well tok))) (idle_system t) =
    \<lparr>sys = \<lparr>clock_now = t, history = [p], held = (\<lambda>_. [])(p := [tok]), store = (\<lambda>_. [])(p := [(tok, t + rule_expiry rs p)]),
       trace = [Allowed p t, Issued p t]\<rparr>, threads = [0 \<mapsto> (p, Finished)]\<rparr>"
proof -
  have "spent rs p t (\<lambda>_. []) = None" by (simp add: spent_def live_def split: option.splits)
  with assms show ?thesis by (simp add: idle_system_def well_def numeral_eq_Suc mint_def)
qed

text \<open>The examples: \<open>use\<close> needs \<open>login\<close> once. \<open>run\<close> is the same call doing several phases in a row.\<close>

definition once_rules :: "Rule list" where
  "once_rules = [\<lparr>Tool = ''use'', Prerequisite = ''login'', Expiry = 0, ErrorMessage = '''', OneTimeUse = True\<rparr>]"

definition run :: "nat \<Rightarrow> nat \<Rightarrow> TokenValue \<Rightarrow> move list" where
  "run n i tok = replicate n (Run i \<lparr>handler_ok = True, drawn_token = Some tok\<rparr>)"

definition alone :: "move list" where
  "alone = Arrive 1 ''login'' # run 10 1 ''t1'' @ Arrive 2 ''use'' # run 16 2 ''t2'' @ Arrive 3 ''use'' # run 16 3 ''t3''"

definition double_spend :: "move list" where
  "double_spend =
     Arrive 1 ''login'' # run 10 1 ''t1'' @ [Arrive 2 ''use'', Arrive 3 ''use''] @ run 2 2 ''t2'' @ run 2 3 ''t3''
       @ run 14 2 ''t2'' @ run 14 3 ''t3''"

section \<open>Properties\<close>

text \<open>
  The phases of a call that no other call interrupts add up to the step of the sequential
  machine: the call is refused and changes nothing, or it ends with its tool in the history and
  the store consumed and minted as there; it is allowed exactly when the machine allows it.
\<close>

theorem alone_is_sequential:
  assumes "handler_ok c"
  shows "\<exists>n sh'. if allowed rs tool (clock_now sh)
        \<lparr>now = clock_now sh, calls = map (\<lambda>tl. \<lparr>c_tool = tl, c_start = 0, c_done = 0\<rparr>) (history sh), bag = store sh\<rparr>
      then alone_phases rs tool c n (sh, Enter) = (sh', Finished) \<and> history sh' = history sh @ [tool] \<and>
        store sh' = mint rs tool (clock_now sh) (drawn_token c) (consume rs tool (clock_now sh) (store sh))
      else alone_phases rs tool c n (sh, Enter) = (sh, Refused)"
    (is "\<exists>n sh'. if ?allowed then ?ends n sh' else ?refused n")
proof -
  let ?sh = "sh\<lparr>trace := trace sh @ [Allowed tool (clock_now sh)]\<rparr>"
  have allowed: "?allowed \<longleftrightarrow> (restricted rs tool \<longrightarrow> (\<exists>r\<in>set (rules_for rs tool).
      Prerequisite r \<in> set (history sh) \<and> live (clock_now sh) (store sh (Prerequisite r)) \<noteq> []))"
    by (simp add: allowed_def image_image)
  have enter: "\<exists>n. alone_phases rs tool c n (sh, Enter) = (if ?allowed then (?sh, Handle) else (sh, Refused))"
  proof (cases "restricted rs tool")
    case True
    from alone_check[OF order_refl, of rs tool c sh "history sh"] obtain n where
      "alone_phases rs tool c n (sh, Check (history sh) (rules_for rs tool)) = (if ?allowed then (?sh, Handle) else (sh, Refused))"
      using True unfolding allowed by auto
    with True show ?thesis by (intro exI[of _ "Suc n"]) simp
  next
    case False
    then show ?thesis unfolding allowed by (intro exI[of _ 1]) simp
  qed
  then obtain m where m: "alone_phases rs tool c m (sh, Enter) = (if ?allowed then (?sh, Handle) else (sh, Refused))"
    by blast
  show ?thesis
  proof (cases ?allowed)
    case True
    from alone_rest[OF assms, of rs tool ?sh] obtain n sh' where "alone_phases rs tool c n (?sh, Handle) = (sh', Finished)"
      "history sh' = history sh @ [tool]"
      "store sh' = mint rs tool (clock_now sh) (drawn_token c) (consume rs tool (clock_now sh) (store sh))" by auto
    with m True have "?ends (m + n) sh'" by (simp add: alone_add)
    with True show ?thesis by auto
  next
    case False
    with m show ?thesis by auto
  qed
qed

theorem alone_is_sequential_witness:
  "\<exists>n sh'. alone_phases [] ''login'' \<lparr>handler_ok = True, drawn_token = Some ''t''\<rparr> n (sys (idle_system 5), Enter) =
     (sh', Finished) \<and> history sh' = [''login''] \<and> store sh' ''login'' = [(''t'', 5 + 5 * Minute)]"
proof -
  let ?c = "\<lparr>handler_ok = True, drawn_token = Some ''t''\<rparr>"
  have free: "\<not> restricted [] ''login''" by (simp add: restricted_def rules_for_def)
  have "handler_ok ?c" by simp
  from alone_is_sequential[OF this, of "[]" "''login''" "sys (idle_system 5)"] free
  obtain n sh' where run: "alone_phases [] ''login'' ?c n (sys (idle_system 5), Enter) = (sh', Finished)"
    and hist: "history sh' = history (sys (idle_system 5)) @ [''login'']"
    and st: "store sh' = mint [] ''login'' (clock_now (sys (idle_system 5))) (drawn_token ?c)
      (consume [] ''login'' (clock_now (sys (idle_system 5))) (store (sys (idle_system 5))))"
    by (auto simp: allowed_def)
  have "history sh' = [''login'']" using hist by (simp add: idle_system_def)
  moreover have "store sh' ''login'' = [(''t'', 5 + 5 * Minute)]"
    unfolding st by (simp add: idle_system_def mint_def consume_def spent_def first_rule_def rule_expiry_def)
  ultimately show ?thesis using run by blast
qed

text \<open>
  C7: Order and freshness hold under concurrency: in every schedule of overlapping wrapped calls,
  when a call of a restricted tool is allowed, a token of one of its prerequisites was issued
  before, less than the expiry ago; and every token was issued by a call that was itself allowed
  before.
\<close>

theorem interleaved_order:
  assumes "i < length (trace (sys (run_schedule rs moves t0)))"
  shows "case trace (sys (run_schedule rs moves t0)) ! i of
      Allowed tool t \<Rightarrow> restricted rs tool \<longrightarrow>
        (\<exists>ru\<in>set (rules_for rs tool). \<exists>j<i. \<exists>t'.
           trace (sys (run_schedule rs moves t0)) ! j = Issued (Prerequisite ru) t' \<and>
           t < t' + rule_expiry rs (Prerequisite ru))
    | Issued tool t \<Rightarrow> (\<exists>j<i. \<exists>t'. trace (sys (run_schedule rs moves t0)) ! j = Allowed tool t')"
proof -
  let ?tr = "trace (sys (run_schedule rs moves t0))"
  have "mark_ok rs (take i ?tr) (?tr ! i)"
    using run_schedule_ok[of rs moves t0] assms by (simp add: system_ok_def trace_ok_def)
  moreover have before: "m \<in> set (take i ?tr) \<longleftrightarrow> (\<exists>j<i. ?tr ! j = m)" for m
    using assms by (auto simp: in_set_conv_nth)
  ultimately show ?thesis unfolding mark_ok_def before by (cases "?tr ! i") (simp_all, blast+)
qed

theorem interleaved_order_witness:
  "\<exists>ru\<in>set (rules_for once_rules ''use''). \<exists>j<3. \<exists>t'.
     trace (sys (run_schedule once_rules double_spend 0)) ! j = Issued (Prerequisite ru) t' \<and>
     0 < t' + rule_expiry once_rules (Prerequisite ru)"
proof -
  have tr: "trace (sys (run_schedule once_rules double_spend 0)) =
      [Allowed ''login'' 0, Issued ''login'' 0, Allowed ''use'' 0, Allowed ''use'' 0, Issued ''use'' 0, Issued ''use'' 0]"
    by code_simp
  have "restricted once_rules ''use''" by (simp add: restricted_def rules_for_def once_rules_def)
  with interleaved_order[of 3 once_rules double_spend 0] show ?thesis
    by (simp only: tr) (simp add: tr eval_nat_numeral)
qed

text \<open>
  C20: One-time use does not hold under concurrency: if the only rule of a tool is one-time-use, then for
  every number \<open>n\<close> there is a schedule in which one call of the prerequisite, with one token, pays for
  \<open>n\<close> calls of the tool. They are all validated before the first of them consumes; those that then find
  the token gone go on all the same. (Calls that do not overlap cannot do this.)
\<close>

theorem concurrent_double_spend:
  assumes "rules_for rs tool = [ru]" and "OneTimeUse ru" and "Prerequisite ru \<noteq> ''''"
    and "Prerequisite ru \<noteq> tool" and "\<not> restricted rs (Prerequisite ru)"
  shows "\<exists>moves. (\<forall>i\<in>{1..n}. threads (run_schedule rs moves t0) i = Some (tool, Finished)) \<and>
    length (filter (\<lambda>m. m = Allowed tool t0) (trace (sys (run_schedule rs moves t0)))) = n \<and>
    length (filter (\<lambda>m. \<exists>t. m = Issued (Prerequisite ru) t) (trace (sys (run_schedule rs moves t0)))) = 1"
proof -
  let ?p = "Prerequisite ru"
  obtain js where js: "distinct js" "set js = {1..n}" "length js = n" by (rule that[of "[1..<Suc n]"]) auto
  let ?ms0 = "Arrive 0 ?p # replicate 10 (Run 0 (well ''''))"
  let ?s0 = "fold (do_move rs) ?ms0 (idle_system t0)"
  have s0: "threads ?s0 = [0 \<mapsto> (?p, Finished)]" "trace (sys ?s0) = [Allowed ?p t0, Issued ?p t0]"
    "clock_now (sys ?s0) = t0" "can_call ru (sys ?s0)"
    unfolding first_call[OF assms(5)] using rule_expiry_pos[of rs ?p] by (simp_all add: can_call_def live_def)
  have none: "\<forall>i\<in>set js. threads ?s0 i = None" unfolding s0 js by auto
  from validated_arrivals[OF assms(1,3) s0(4) js(1) none] obtain ms1 where
    s1: "trace (sys (fold (do_move rs) ms1 ?s0)) = trace (sys ?s0) @ replicate n (Allowed tool t0)"
      "threads (fold (do_move rs) ms1 ?s0) = (\<lambda>i. if i \<in> set js then Some (tool, Handle) else threads ?s0 i)"
    unfolding s0(3) js(3) Let_def by blast
  let ?s1 = "fold (do_move rs) ms1 ?s0"
  have "\<forall>i\<in>set js. threads ?s1 i = Some (tool, Handle)" unfolding s1(2) by simp
  from served_all[OF js(1) this, of rs] obtain ms2 ms where
    s2: "trace (sys (fold (do_move rs) ms2 ?s1)) = trace (sys ?s1) @ ms" "own_marks tool ms"
      "threads (fold (do_move rs) ms2 ?s1) = (\<lambda>i. if i \<in> set js then Some (tool, Finished) else threads ?s1 i)"
    unfolding Let_def by blast
  have own: "filter (\<lambda>m. m = Allowed tool t0) ms = []" "filter (\<lambda>m. \<exists>t. m = Issued ?p t) ms = []"
    using s2(2) assms(4) by (auto simp: own_marks_def filter_empty_conv)
  have run: "run_schedule rs (?ms0 @ ms1 @ ms2) t0 = fold (do_move rs) ms2 ?s1"
    unfolding run_schedule_def by (simp only: fold_append o_apply)
  have "(\<forall>i\<in>{1..n}. threads (run_schedule rs (?ms0 @ ms1 @ ms2) t0) i = Some (tool, Finished)) \<and>
    length (filter (\<lambda>m. m = Allowed tool t0) (trace (sys (run_schedule rs (?ms0 @ ms1 @ ms2) t0)))) = n \<and>
    length (filter (\<lambda>m. \<exists>t. m = Issued ?p t) (trace (sys (run_schedule rs (?ms0 @ ms1 @ ms2) t0)))) = 1"
    unfolding run s2 s1 s0 filter_append own js(2) using assms(4) by simp
  then show ?thesis by blast
qed

theorem concurrent_double_spend_witness:
  "\<exists>moves. \<forall>i\<in>{1..7}. threads (run_schedule once_rules moves 0) i = Some (''use'', Finished)"
proof -
  have "rules_for once_rules ''use'' = [hd once_rules]" "OneTimeUse (hd once_rules)" "Prerequisite (hd once_rules) = ''login''"
    "\<not> restricted once_rules ''login''"
    by (simp_all add: rules_for_def once_rules_def restricted_def)
  with concurrent_double_spend[of once_rules "''use''" "hd once_rules" 7 0] show ?thesis by auto
qed

text \<open>
  C21: A finished call can vanish from the history: whenever two calls are about to record themselves, a
  schedule that lets both fetch the session before either writes it back ends both, but records only
  the second. If the lost tool had not been called before, a tool that needs it is then refused,
  whatever tokens are in the store.
\<close>

theorem lost_history_update:
  assumes "threads s i = Some (a, RecordGet)" and "threads s j = Some (b, RecordGet)" and "i \<noteq> j"
    and "a \<noteq> b" and "a \<notin> set (history (sys s))"
    and "k \<notin> {i, j}" and "threads s k = None" and "restricted rs tool" and "Prerequisite ` set (rules_for rs tool) = {a}"
  shows "\<exists>moves. let s' = fold (do_move rs) moves s in
    threads s' i = Some (a, Finished) \<and> threads s' j = Some (b, Finished) \<and>
    history (sys s') = history (sys s) @ [b] \<and> store (sys s') = store (sys s) \<and> threads s' k = Some (tool, Refused)"
proof -
  let ?lose = "[Run i (well ''''), Run j (well ''''), Run i (well ''''), Run j (well '''')]"
  let ?s1 = "s\<lparr>sys := (sys s)\<lparr>history := history (sys s) @ [b]\<rparr>,
    threads := (threads s)(i \<mapsto> (a, Finished), j \<mapsto> (b, Finished))\<rparr>"
  have lose: "fold (do_move rs) ?lose s = ?s1"
    using assms(1-3) by (simp add: fun_upd_twist)
  have check: "fold (do_move rs) (replicate (Suc (length rest)) (Run k c)) u =
      u\<lparr>threads := (threads u)(k \<mapsto> (tool, Refused))\<rparr>"
    if "threads u k = Some (tool, Check h rest)" "a \<notin> set h" "Prerequisite ` set rest \<subseteq> {a}" for rest h c u
    using that
  proof (induction rest arbitrary: u)
    case (Cons r rest)
    let ?u = "u\<lparr>threads := (threads u)(k \<mapsto> (tool, Check h rest))\<rparr>"
    have "do_move rs (Run k c) u = ?u" using Cons.prems by auto
    moreover have "fold (do_move rs) (replicate (Suc (length rest)) (Run k c)) ?u =
        ?u\<lparr>threads := (threads ?u)(k \<mapsto> (tool, Refused))\<rparr>" by (rule Cons.IH) (use Cons.prems in auto)
    moreover have "replicate (Suc (length (r # rest))) (Run k c) = Run k c # replicate (Suc (length rest)) (Run k c)" by simp
    ultimately have "fold (do_move rs) (replicate (Suc (length (r # rest))) (Run k c)) u =
        ?u\<lparr>threads := (threads ?u)(k \<mapsto> (tool, Refused))\<rparr>" by (simp only: fold_simps)
    also have "\<dots> = u\<lparr>threads := (threads u)(k \<mapsto> (tool, Refused))\<rparr>" by simp
    finally show ?case .
  qed simp
  let ?rest = "rules_for rs tool"
  let ?s2 = "?s1\<lparr>threads := (threads ?s1)(k \<mapsto> (tool, Check (history (sys ?s1)) ?rest))\<rparr>"
  have enter: "fold (do_move rs) [Arrive k tool, Run k (well '''')] ?s1 = ?s2"
    using assms(6,7,8) by simp
  have "fold (do_move rs) (replicate (Suc (length ?rest)) (Run k (well ''''))) ?s2 =
      ?s2\<lparr>threads := (threads ?s2)(k \<mapsto> (tool, Refused))\<rparr>"
    by (rule check[where h = "history (sys s) @ [b]" and rest = ?rest]) (use assms(4,5,9) in auto)
  then have "fold (do_move rs) (?lose @ [Arrive k tool, Run k (well '''')] @ replicate (Suc (length ?rest)) (Run k (well ''''))) s =
      ?s2\<lparr>threads := (threads ?s2)(k \<mapsto> (tool, Refused))\<rparr>"
    unfolding fold_append o_apply lose enter .
  then show ?thesis
    by (intro exI[of _ "?lose @ [Arrive k tool, Run k (well '''')] @ replicate (Suc (length ?rest)) (Run k (well ''''))"])
      (use assms(3,6) in \<open>simp add: Let_def del: fold_append fold.simps fold_replicate replicate.simps\<close>)
qed

definition about_to_record :: "move list" where
  "about_to_record = [Arrive 1 ''login'', Arrive 2 ''other''] @ run 8 1 ''t1'' @ run 8 2 ''t2''"

theorem lost_history_update_witness:
  "\<exists>moves. live 0 (store (sys (run_schedule once_rules moves 0)) ''login'') = [''t1''] \<and>
     threads (run_schedule once_rules moves 0) 1 = Some (''login'', Finished) \<and>
     threads (run_schedule once_rules moves 0) 3 = Some (''use'', Refused)"
proof -
  let ?s = "run_schedule once_rules about_to_record 0"
  have s: "threads ?s 1 = Some (''login'', RecordGet)" "threads ?s 2 = Some (''other'', RecordGet)"
    "history (sys ?s) = []" "threads ?s 3 = None" "live 0 (store (sys ?s) ''login'') = [''t1'']"
    by code_simp+
  have "\<exists>moves. let s' = fold (do_move once_rules) moves ?s in
    threads s' 1 = Some (''login'', Finished) \<and> threads s' 2 = Some (''other'', Finished) \<and>
    history (sys s') = history (sys ?s) @ [''other''] \<and> store (sys s') = store (sys ?s) \<and> threads s' 3 = Some (''use'', Refused)"
    by (rule lost_history_update[OF s(1,2)])
      (use s in \<open>auto simp: restricted_def rules_for_def once_rules_def\<close>)
  then obtain moves where "let s' = fold (do_move once_rules) moves ?s in
    threads s' 1 = Some (''login'', Finished) \<and> store (sys s') = store (sys ?s) \<and> threads s' 3 = Some (''use'', Refused)"
    by (auto simp: Let_def)
  moreover have "fold (do_move once_rules) moves ?s = run_schedule once_rules (about_to_record @ moves) 0"
    by (simp add: run_schedule_def)
  ultimately show ?thesis using s(5) by (intro exI[of _ "about_to_record @ moves"]) (simp add: Let_def)
qed

end
