(* ===== verification/SerialRuns.thy ===== *)
theory SerialRuns
  imports Interleaving
begin

text \<open>
  Schedules of \<open>Interleaving\<close> in which calls do not overlap: a call arrives only when the one before
  it is over, time may pass between any two phases. Such a schedule refines the abstract machine of
  \<open>RatchetSpec\<close>: each call that ends is one step of it. So whatever the machine guarantees, one-time
  use and the history too, holds of the fine-grained program as long as calls are made one at a
  time; the losses shown in \<open>Interleaving\<close> are due to the overlap alone.

  The simulation relates a running call to the state of the machine before it: each phase has an
  assertion about what has been validated, consumed and issued since.
\<close>

section \<open>Schedules without overlap\<close>

fun over :: "phase \<Rightarrow> bool" where
  "over Finished = True"
| "over Refused = True"
| "over Failed = True"
| "over _ = False"

definition call_over :: "system \<Rightarrow> nat \<Rightarrow> bool" where
  "call_over s i = (case threads s i of None \<Rightarrow> True | Some (tool, ph) \<Rightarrow> over ph)"

text \<open>The token a move draws: only the phase \<open>Issue\<close> asks the generator.\<close>

fun drawn_by :: "system \<Rightarrow> move \<Rightarrow> TokenValue option" where
  "drawn_by s (Run i c) = (case threads s i of Some (tool, Issue) \<Rightarrow> drawn_token c | _ \<Rightarrow> None)"
| "drawn_by s _ = None"

text \<open>
  \<open>cur\<close> is the call that arrived last, \<open>used\<close> the tokens drawn so far; with \<open>uniq\<close> the generator
  does not repeat itself.
\<close>

fun serial :: "Rule list \<Rightarrow> bool \<Rightarrow> move list \<Rightarrow> nat \<Rightarrow> TokenValue list \<Rightarrow> system \<Rightarrow> bool" where
  "serial rs uniq [] cur used s = True"
| "serial rs uniq (m # ms) cur used s =
     ((case m of Arrive i tool \<Rightarrow> call_over s cur | _ \<Rightarrow> True) \<and>
      (case drawn_by s m of None \<Rightarrow> True | Some tk \<Rightarrow> uniq \<longrightarrow> tk \<notin> set used) \<and>
      serial rs uniq ms (case m of Arrive i tool \<Rightarrow> (if threads s i = None then i else cur) | _ \<Rightarrow> cur)
        (case drawn_by s m of None \<Rightarrow> used | Some tk \<Rightarrow> tk # used) (do_move rs m s))"

section \<open>The simulation\<close>

definition matches :: "Rule list \<Rightarrow> bool \<Rightarrow> TokenValue set \<Rightarrow> ratchet \<Rightarrow> shared \<Rightarrow> bool" where
  "matches rs uniq used r sh \<longleftrightarrow>
     ratchet_reach rs uniq r \<and> now r \<le> clock_now sh \<and> map c_tool (calls r) = history sh \<and>
     (\<forall>p. fst ` set (bag r p) \<subseteq> used)"

definition validated :: "Rule list \<Rightarrow> ToolName \<Rightarrow> ratchet \<Rightarrow> time \<Rightarrow> bool" where
  "validated rs tool r t \<longleftrightarrow> (\<exists>tv. now r \<le> tv \<and> tv \<le> t \<and> allowed rs tool tv r)"

definition consumed :: "Rule list \<Rightarrow> ToolName \<Rightarrow> ratchet \<Rightarrow> time \<Rightarrow>
    (ToolName \<Rightarrow> (TokenValue \<times> time) list) \<Rightarrow> bool" where
  "consumed rs tool r t st \<longleftrightarrow> (\<exists>tc. validated rs tool r tc \<and> tc \<le> t \<and> st = consume rs tool tc (bag r))"

definition minted :: "Rule list \<Rightarrow> bool \<Rightarrow> TokenValue set \<Rightarrow> ToolName \<Rightarrow> ratchet \<Rightarrow> time \<Rightarrow>
    (ToolName \<Rightarrow> (TokenValue \<times> time) list) \<Rightarrow> bool" where
  "minted rs uniq used tool r t st \<longleftrightarrow>
     (\<exists>ti tok st'. consumed rs tool r ti st' \<and> ti \<le> t \<and> st = mint rs tool ti tok st' \<and>
        (\<forall>tk. tok = Some tk \<longrightarrow> tk \<in> used \<and> (uniq \<longrightarrow> (\<forall>p. tk \<notin> fst ` set (bag r p)))))"

fun phase_inv :: "Rule list \<Rightarrow> bool \<Rightarrow> TokenValue set \<Rightarrow> ToolName \<Rightarrow> ratchet \<Rightarrow> shared \<Rightarrow> phase \<Rightarrow> bool" where
  "phase_inv rs uniq used tool r sh Enter = (store sh = bag r)"
| "phase_inv rs uniq used tool r sh (Check h rest) =
     (store sh = bag r \<and> h = history sh \<and> set rest \<subseteq> set (rules_for rs tool))"
| "phase_inv rs uniq used tool r sh Handle = (store sh = bag r \<and> validated rs tool r (clock_now sh))"
| "phase_inv rs uniq used tool r sh ConsumeRead = (store sh = bag r \<and> validated rs tool r (clock_now sh))"
| "phase_inv rs uniq used tool r sh (ConsumeRemove p tok) =
     (store sh = bag r \<and>
      (\<exists>tc. validated rs tool r tc \<and> tc \<le> clock_now sh \<and> spent rs tool tc (bag r) = Some p \<and>
            tok = last (live tc (bag r p))))"
| "phase_inv rs uniq used tool r sh (ConsumeGet p) = consumed rs tool r (clock_now sh) (store sh)"
| "phase_inv rs uniq used tool r sh (ConsumeDrop p h) =
     (consumed rs tool r (clock_now sh) (store sh) \<and> h = history sh)"
| "phase_inv rs uniq used tool r sh (ConsumeUpdate h) =
     (consumed rs tool r (clock_now sh) (store sh) \<and> h = history sh)"
| "phase_inv rs uniq used tool r sh Issue = consumed rs tool r (clock_now sh) (store sh)"
| "phase_inv rs uniq used tool r sh (IssueStore tok t) =
     (consumed rs tool r t (store sh) \<and> t \<le> clock_now sh \<and> tok \<in> used \<and>
      (uniq \<longrightarrow> (\<forall>p. tok \<notin> fst ` set (bag r p))))"
| "phase_inv rs uniq used tool r sh (IssueGet tok) = minted rs uniq used tool r (clock_now sh) (store sh)"
| "phase_inv rs uniq used tool r sh (IssueAdd tok h) =
     (minted rs uniq used tool r (clock_now sh) (store sh) \<and> h = history sh)"
| "phase_inv rs uniq used tool r sh (IssueUpdate h) =
     (minted rs uniq used tool r (clock_now sh) (store sh) \<and> h = history sh)"
| "phase_inv rs uniq used tool r sh RecordGet = minted rs uniq used tool r (clock_now sh) (store sh)"
| "phase_inv rs uniq used tool r sh (RecordUpdate h) =
     (minted rs uniq used tool r (clock_now sh) (store sh) \<and> h = history sh)"
| "phase_inv rs uniq used tool r sh Finished = (store sh = bag r)"
| "phase_inv rs uniq used tool r sh Refused = (store sh = bag r)"
| "phase_inv rs uniq used tool r sh Failed = (store sh = bag r)"

lemma validated_mono: "validated rs tool r t \<Longrightarrow> t \<le> t' \<Longrightarrow> validated rs tool r t'"
  by (auto simp: validated_def)

lemma consumed_mono: "consumed rs tool r t st \<Longrightarrow> t \<le> t' \<Longrightarrow> consumed rs tool r t' st"
  unfolding consumed_def by (blast intro: order_trans)

lemma minted_mono: "minted rs uniq used tool r t st \<Longrightarrow> t \<le> t' \<Longrightarrow> minted rs uniq used tool r t' st"
  unfolding minted_def by (blast intro: order_trans)

text \<open>Time may pass in every phase.\<close>

lemma phase_inv_tick:
  "phase_inv rs uniq used tool r sh ph \<Longrightarrow> 0 \<le> n \<Longrightarrow> phase_inv rs uniq used tool r (sh\<lparr>clock_now := clock_now sh + n\<rparr>) ph"
  by (cases ph) (auto intro: validated_mono consumed_mono minted_mono)

lemma minted_used_mono: "minted rs uniq used tool r t st \<Longrightarrow> used \<subseteq> used' \<Longrightarrow> minted rs uniq used' tool r t st"
  unfolding minted_def by (metis subsetD)

section \<open>One phase\<close>

text \<open>The step of the machine that a finished call is.\<close>

lemma finish_step:
  assumes "matches rs uniq used r sh" and "minted rs uniq used tool r (clock_now sh) (store sh)"
  shows "\<exists>r'. matches rs uniq used r' (sh\<lparr>history := history sh @ [tool]\<rparr>) \<and> store sh = bag r'"
proof -
  from assms(2) obtain tv tc ti tok where t: "now r \<le> tv" "tv \<le> tc" "tc \<le> ti" "ti \<le> clock_now sh"
    and al: "allowed rs tool tv r" and st: "store sh = mint rs tool ti tok (consume rs tool tc (bag r))"
    and tok: "\<And>tk. tok = Some tk \<Longrightarrow> tk \<in> used \<and> (uniq \<longrightarrow> (\<forall>p. tk \<notin> fst ` set (bag r p)))"
    unfolding minted_def consumed_def validated_def by blast
  let ?r = "\<lparr>now = clock_now sh, calls = calls r @ [\<lparr>c_tool = tool, c_start = now r, c_done = clock_now sh\<rparr>],
    bag = mint rs tool ti tok (consume rs tool tc (bag r))\<rparr>"
  have "ratchet_step rs uniq r ?r" using t al tok by (intro ratchet_step.success) auto
  with assms(1) have "ratchet_reach rs uniq ?r" unfolding matches_def by (blast intro: ratchet_reach.step)
  moreover have "fst ` set (bag ?r p) \<subseteq> used" for p
  proof -
    have "fst ` set (consume rs tool tc (bag r) p) \<subseteq> used"
      using assms(1) consume_subset[of rs tool tc "bag r" p] unfolding matches_def by blast
    with tok show ?thesis by (auto simp: mint_def split: option.splits if_splits)
  qed
  ultimately show ?thesis using assms(1) st by (intro exI[of _ ?r]) (simp add: matches_def)
qed

lemma phase_refines:
  assumes "matches rs uniq used r sh" and "phase_inv rs uniq used tool r sh ph"
    and "next_phase rs tool c (sh, ph) = (sh', ph')"
    and "case ph of Issue \<Rightarrow> (\<forall>tk. drawn_token c = Some tk \<longrightarrow> (uniq \<longrightarrow> tk \<notin> used) \<and> tk \<in> used') | _ \<Rightarrow> True"
    and "used \<subseteq> used'"
  shows "\<exists>r'. matches rs uniq used' r' sh' \<and> phase_inv rs uniq used' tool r' sh' ph'"
proof -
  have m: "matches rs uniq used' r sh" using assms(1,5) by (auto simp: matches_def)
  show ?thesis
  proof (cases ph)
    case Enter
    with assms m show ?thesis
      by (intro exI[of _ r]) (auto simp: matches_def validated_def allowed_def split: if_splits)
  next
    case (Check h rest)
    then have inv: "store sh = bag r" "h = history sh" "set rest \<subseteq> set (rules_for rs tool)"
      using assms(2) by simp_all
    show ?thesis
    proof (cases rest)
      case Nil
      with Check assms(3) m inv show ?thesis by (intro exI[of _ r]) (auto simp: matches_def)
    next
      case (Cons ru rest')
      have "allowed rs tool (clock_now sh) r"
        if "Prerequisite ru \<in> set h" "live (clock_now sh) (store sh (Prerequisite ru)) \<noteq> []"
      proof -
        have "set h = c_tool ` set (calls r)" using m inv(2) by (metis matches_def image_set)
        with that inv Cons show ?thesis by (auto simp: allowed_def)
      qed
      with Check Cons assms(3) m inv show ?thesis
        by (intro exI[of _ r]) (auto simp: matches_def validated_def split: if_splits)
    qed
  next
    case ConsumeRead
    with assms(2,3) m show ?thesis
      by (intro exI[of _ r]) (auto simp: matches_def consumed_def consume_def split: option.splits)
  next
    case (ConsumeRemove p tok)
    with assms(2) obtain tc where "validated rs tool r tc" "tc \<le> clock_now sh"
      and sp: "store sh = bag r" "spent rs tool tc (bag r) = Some p" "tok = last (live tc (bag r p))" by auto
    then have "consumed rs tool r (clock_now sh) (consume rs tool tc (bag r))" by (auto simp: consumed_def)
    with ConsumeRemove assms(3) m sp spent_stored[OF sp(2)] show ?thesis
      by (intro exI[of _ r]) (auto simp: matches_def consume_def)
  next
    case Issue
    have used: "fst ` set (bag r p) \<subseteq> used" for p using assms(1) by (simp add: matches_def)
    have con: "consumed rs tool r (clock_now sh) (store sh)" using assms(2) Issue by simp
    show ?thesis
    proof (cases "drawn_token c")
      case None
      from con have "minted rs uniq used' tool r (clock_now sh) (store sh)"
        unfolding minted_def by (intro exI[of _ "clock_now sh"] exI[of _ None] exI[of _ "store sh"]) (simp add: mint_def)
      with None Issue assms(3) m show ?thesis by (intro exI[of _ r]) auto
    next
      case (Some tk)
      with assms(4) Issue have tk: "uniq \<longrightarrow> tk \<notin> used" "tk \<in> used'" by auto
      from tk(1) used have "uniq \<longrightarrow> (\<forall>p. tk \<notin> fst ` set (bag r p))" by blast
      with Some Issue assms(3) m con tk(2) show ?thesis by (intro exI[of _ r]) auto
    qed
  next
    case (IssueStore tok t)
    with assms(2,5) have "consumed rs tool r t (store sh)" "t \<le> clock_now sh" "tok \<in> used'"
      "uniq \<longrightarrow> (\<forall>p. tok \<notin> fst ` set (bag r p))" by auto
    then have "minted rs uniq used' tool r (clock_now sh) (mint rs tool t (Some tok) (store sh))"
      unfolding minted_def by (intro exI[of _ t] exI[of _ "Some tok"] exI[of _ "store sh"]) simp
    with IssueStore assms(3) m show ?thesis by (intro exI[of _ r]) (auto simp: matches_def)
  next
    case (RecordUpdate h)
    with assms(2,5) have "minted rs uniq used' tool r (clock_now sh) (store sh)" "h = history sh"
      by (auto intro: minted_used_mono)
    with finish_step[OF m] RecordUpdate assms(3) show ?thesis by (auto simp: matches_def)
  qed (use assms(2,3,5) m in \<open>auto simp: matches_def intro!: exI[of _ r] intro: minted_used_mono split: if_splits\<close>)
qed

section \<open>One move\<close>

definition serial_inv :: "Rule list \<Rightarrow> bool \<Rightarrow> nat \<Rightarrow> TokenValue list \<Rightarrow> system \<Rightarrow> bool" where
  "serial_inv rs uniq cur used s \<longleftrightarrow>
     (\<forall>i. i \<noteq> cur \<longrightarrow> call_over s i) \<and>
     (\<exists>r. matches rs uniq (set used) r (sys s) \<and>
        (case threads s cur of
           None \<Rightarrow> store (sys s) = bag r
         | Some (tool, ph) \<Rightarrow> phase_inv rs uniq (set used) tool r (sys s) ph))"

lemma serial_inv_over:
  assumes "serial_inv rs uniq cur used s" and "call_over s cur"
  shows "\<exists>r. matches rs uniq (set used) r (sys s) \<and> store (sys s) = bag r"
proof -
  from assms obtain r where "matches rs uniq (set used) r (sys s)"
    "case threads s cur of None \<Rightarrow> store (sys s) = bag r
     | Some (tool, ph) \<Rightarrow> phase_inv rs uniq (set used) tool r (sys s) ph"
    by (auto simp: serial_inv_def)
  with assms(2) show ?thesis
    by (intro exI[of _ r]) (auto simp: call_over_def split: option.splits elim!: over.elims)
qed

lemma over_stays: "over ph \<Longrightarrow> next_phase rs tool c (sh, ph) = (sh, ph)"
  by (cases ph) simp_all

lemma serial_inv_arrive:
  assumes "serial_inv rs uniq cur used s" and "call_over s cur" and "threads s i = None"
  shows "serial_inv rs uniq i used (do_move rs (Arrive i tool) s)"
proof -
  from serial_inv_over[OF assms(1,2)] obtain r where r: "matches rs uniq (set used) r (sys s)" "store (sys s) = bag r"
    by blast
  have "call_over s j" for j using assms(1,2) by (cases "j = cur") (auto simp: serial_inv_def)
  with assms(3) r show ?thesis by (auto simp: serial_inv_def call_over_def)
qed

lemma serial_inv_tick:
  assumes "serial_inv rs uniq cur used s"
  shows "serial_inv rs uniq cur used (do_move rs (Tick n) s)"
proof -
  from assms obtain r where r: "matches rs uniq (set used) r (sys s)"
    "case threads s cur of None \<Rightarrow> store (sys s) = bag r
     | Some (tool, ph) \<Rightarrow> phase_inv rs uniq (set used) tool r (sys s) ph"
    by (auto simp: serial_inv_def)
  then have "matches rs uniq (set used) r (sys (do_move rs (Tick n) s))" by (auto simp: matches_def)
  with r assms show ?thesis
    by (auto simp: serial_inv_def call_over_def phase_inv_tick split: option.splits)
qed

lemma serial_inv_other:
  assumes "serial_inv rs uniq cur used s" and "i \<noteq> cur"
  shows "do_move rs (Run i c) s = s" and "drawn_by s (Run i c) = None"
proof -
  from assms have "call_over s i" by (simp add: serial_inv_def)
  then show "do_move rs (Run i c) s = s" "drawn_by s (Run i c) = None"
    by (auto simp: call_over_def over_stays fun_upd_idem split: option.splits phase.splits)
qed

lemma serial_inv_run:
  assumes inv: "serial_inv rs uniq cur used s" and th: "threads s cur = Some (tool, ph)"
    and fresh: "case drawn_by s (Run cur c) of None \<Rightarrow> True | Some tk \<Rightarrow> uniq \<longrightarrow> tk \<notin> set used"
  shows "serial_inv rs uniq cur (case drawn_by s (Run cur c) of None \<Rightarrow> used | Some tk \<Rightarrow> tk # used)
    (do_move rs (Run cur c) s)"
proof -
  let ?used = "case drawn_by s (Run cur c) of None \<Rightarrow> used | Some tk \<Rightarrow> tk # used"
  from inv th obtain r where r: "matches rs uniq (set used) r (sys s)" "phase_inv rs uniq (set used) tool r (sys s) ph"
    by (auto simp: serial_inv_def)
  obtain sh' ph' where step: "next_phase rs tool c (sys s, ph) = (sh', ph')" by fastforce
  have drawn: "case ph of Issue \<Rightarrow> \<forall>tk. drawn_token c = Some tk \<longrightarrow> (uniq \<longrightarrow> tk \<notin> set used) \<and> tk \<in> set ?used | _ \<Rightarrow> True"
    using fresh th by (auto split: phase.splits)
  have "set used \<subseteq> set ?used" by (auto split: option.splits)
  from phase_refines[OF r step drawn this] obtain r' where
    r': "matches rs uniq (set ?used) r' sh'" "phase_inv rs uniq (set ?used) tool r' sh' ph'" by blast
  have s': "do_move rs (Run cur c) s = s\<lparr>sys := sh', threads := (threads s)(cur \<mapsto> (tool, ph'))\<rparr>"
    using th step by simp
  from inv r' show ?thesis unfolding s' serial_inv_def by (auto simp: call_over_def)
qed

lemma serial_inv_move:
  assumes "serial_inv rs uniq cur used s" and "case m of Arrive i tool \<Rightarrow> call_over s cur | _ \<Rightarrow> True"
    and "case drawn_by s m of None \<Rightarrow> True | Some tk \<Rightarrow> uniq \<longrightarrow> tk \<notin> set used"
  shows "serial_inv rs uniq (case m of Arrive i tool \<Rightarrow> (if threads s i = None then i else cur) | _ \<Rightarrow> cur)
    (case drawn_by s m of None \<Rightarrow> used | Some tk \<Rightarrow> tk # used) (do_move rs m s)"
proof (cases m)
  case (Arrive i tool)
  with assms serial_inv_arrive[OF assms(1), of i tool] show ?thesis by (auto split: option.splits)
next
  case (Tick n)
  with serial_inv_tick[OF assms(1), of n] show ?thesis by simp
next
  case (Run i c)
  show ?thesis
  proof (cases "i = cur")
    case True
    show ?thesis
    proof (cases "threads s cur")
      case None
      with assms(1) Run True show ?thesis by simp
    next
      case (Some a)
      then obtain tool ph where "threads s cur = Some (tool, ph)" by (cases a) auto
      from serial_inv_run[OF assms(1) this, of c] assms(3) Run True show ?thesis by simp
    qed
  next
    case False
    from serial_inv_other[OF assms(1) this, of c] assms(1) Run show ?thesis by (simp del: do_move.simps drawn_by.simps)
  qed
qed

lemma serial_inv_fold:
  "serial rs uniq ms cur used s \<Longrightarrow> serial_inv rs uniq cur used s \<Longrightarrow>
   \<exists>cur' used'. serial_inv rs uniq cur' used' (fold (do_move rs) ms s)"
proof (induction ms arbitrary: cur used s)
  case Nil
  then show ?case by auto
next
  case (Cons m ms)
  from Cons.prems(1) have m: "case m of Arrive i tool \<Rightarrow> call_over s cur | _ \<Rightarrow> True"
    "case drawn_by s m of None \<Rightarrow> True | Some tk \<Rightarrow> uniq \<longrightarrow> tk \<notin> set used"
    and rest: "serial rs uniq ms (case m of Arrive i tool \<Rightarrow> (if threads s i = None then i else cur) | _ \<Rightarrow> cur)
      (case drawn_by s m of None \<Rightarrow> used | Some tk \<Rightarrow> tk # used) (do_move rs m s)"
    by (simp_all only: serial.simps)
  from Cons.IH[OF rest serial_inv_move[OF Cons.prems(2) m]] show ?case by (simp only: fold_simps)
qed

section \<open>Properties\<close>

lemma serial_refines:
  assumes "serial rs uniq moves 0 [] (idle_system t0)" and "\<And>i. call_over (run_schedule rs moves t0) i"
  shows "\<exists>r. ratchet_reach rs uniq r \<and> map c_tool (calls r) = history (sys (run_schedule rs moves t0)) \<and>
    bag r = store (sys (run_schedule rs moves t0))"
proof -
  have "matches rs uniq {} (init_ratchet t0) (sys (idle_system t0))"
    using ratchet_reach.start[of rs uniq t0] by (simp add: matches_def init_ratchet_def idle_system_def)
  then have "serial_inv rs uniq 0 [] (idle_system t0)"
    by (auto simp: serial_inv_def idle_system_def call_over_def init_ratchet_def)
  from serial_inv_fold[OF assms(1) this] obtain cur used where
    "serial_inv rs uniq cur used (run_schedule rs moves t0)" unfolding run_schedule_def by blast
  from serial_inv_over[OF this assms(2)] show ?thesis by (auto simp: matches_def)
qed

text \<open>
  C8: Calls that do not overlap behave as the abstract machine: in every schedule of the
  fine-grained program in which a call arrives only when the one before it is over, with time
  passing anywhere, the history and the token store at the end are those of a run of the machine.
\<close>

theorem serial_schedules_refine:
  assumes "serial rs uniq moves 0 [] (idle_system t0)" and "\<And>i. call_over (run_schedule rs moves t0) i"
  shows "\<exists>r. ratchet_reach rs uniq r \<and> map c_tool (calls r) = history (sys (run_schedule rs moves t0)) \<and>
    bag r = store (sys (run_schedule rs moves t0))"
  using assms by (rule serial_refines)

text \<open>
  One-time use holds for calls that do not overlap: if the only rule of a tool is one-time-use and
  the generator does not repeat itself, the tool is in the history at most as often as its
  prerequisite. (With overlapping calls it is not, as \<open>concurrent_double_spend\<close> shows.)
\<close>

theorem serial_one_time_use:
  assumes "serial rs True moves 0 [] (idle_system t0)" and "\<And>i. call_over (run_schedule rs moves t0) i"
    and "rules_for rs tool = [ru]" and "Prerequisite ru \<noteq> ''''" and "OneTimeUse ru" and "Prerequisite ru \<noteq> tool"
  shows "count_list (history (sys (run_schedule rs moves t0))) tool \<le>
    count_list (history (sys (run_schedule rs moves t0))) (Prerequisite ru)"
proof -
  from serial_refines[OF assms(1,2)] obtain r where r: "ratchet_reach rs True r"
    "map c_tool (calls r) = history (sys (run_schedule rs moves t0))" by blast
  with reach_paid[OF assms(3-6) r(1)] show ?thesis by (simp add: paid_def times_called_def)
qed

lemma alone_serial: "serial once_rules True alone 0 [] (idle_system 0)"
  by code_simp

lemma alone_threads:
  "threads (run_schedule once_rules alone 0) =
     [1 \<mapsto> (''login'', Finished), 2 \<mapsto> (''use'', Finished), 3 \<mapsto> (''use'', Refused)]"
proof -
  have other: "threads (fold (do_move rs) ms s) i = threads s i"
    if "\<forall>m\<in>set ms. case m of Arrive j tool \<Rightarrow> j \<noteq> i | Run j c \<Rightarrow> j \<noteq> i | Tick n \<Rightarrow> True" for rs ms s i
    using that
  proof (induction ms arbitrary: s)
    case (Cons m ms)
    have "threads (do_move rs m s) i = threads s i"
      using Cons.prems by (cases m) (auto split: option.splits prod.splits)
    with Cons show ?case by simp
  qed simp
  have "threads (run_schedule once_rules alone 0) i = None" if "i \<notin> {1, 2, 3}" for i
    unfolding run_schedule_def
    by (subst other) (use that in \<open>auto simp: alone_def run_def idle_system_def split: move.splits\<close>)
  moreover have "threads (run_schedule once_rules alone 0) 1 = Some (''login'', Finished) \<and>
      threads (run_schedule once_rules alone 0) 2 = Some (''use'', Finished) \<and>
      threads (run_schedule once_rules alone 0) 3 = Some (''use'', Refused)"
    by code_simp
  ultimately show ?thesis by (auto simp: fun_eq_iff)
qed

lemma alone_over: "call_over (run_schedule once_rules alone 0) i"
  by (simp add: call_over_def alone_threads)

theorem serial_schedules_refine_witness:
  "\<exists>r. ratchet_reach once_rules True r \<and> map c_tool (calls r) = [''login'', ''use'']"
proof -
  have "history (sys (run_schedule once_rules alone 0)) = [''login'', ''use'']" by code_simp
  with serial_schedules_refine[OF alone_serial alone_over] show ?thesis by auto
qed

theorem serial_one_time_use_witness:
  "count_list (history (sys (run_schedule once_rules alone 0))) ''use'' \<le>
     count_list (history (sys (run_schedule once_rules alone 0))) ''login''"
proof -
  have "rules_for once_rules ''use'' = once_rules" by (simp add: rules_for_def once_rules_def)
  with serial_one_time_use[OF alone_serial alone_over, of "''use''" "hd once_rules"] show ?thesis
    by (simp add: once_rules_def)
qed

end
