(* ===== verification/SessionRaces.thy ===== *)
theory SessionRaces
  imports SerialRuns "HOL-Library.Sublist"
begin

text \<open>
  Wrapped calls that overlap, with what \<open>Interleaving\<close> leaves out: the creation of the session by the
  first calls, and the accesses of the token map, which all copies of the session share and no lock
  protects. An access has a beginning and an end; one that begins while another call is inside an
  access of the same map, at least one of them writing, is a data race, which the runtime of Go
  answers by aborting the process (\<open>fatal error: concurrent map writes\<close>). Here the result is then
  \<open>None\<close>.

  Shown: the session is created once and never replaced, however the first calls interleave; as long
  as nothing races on the map, the program is the one of \<open>Interleaving\<close>; calls made one at a time
  never race, calls that overlap may.
\<close>

section \<open>Stages of a call\<close>

text \<open>
  \<open>Body m ph\<close> is phase \<open>ph\<close> of \<open>Interleaving\<close> with \<open>m\<close> the token map of the session the call has
  fetched last; \<open>Access m write ph\<close> is a call inside the access of the map that phase \<open>ph\<close> makes.
\<close>

datatype stage =
    Lookup
  | CreateGet
  | CreateStore
  | Fetched nat
  | Reading nat
  | Body nat phase
  | Access nat bool phase

text \<open>
  \<open>session_map\<close> is the token map of the stored session, if there is one; \<open>accesses\<close> the accesses in
  progress: the call, the map, whether it writes. \<open>created\<close> counts the events \<open>session_created\<close>.
\<close>

record races =
  rc_clock :: time
  rc_history :: "ToolName list"
  rc_store :: "ToolName \<Rightarrow> (TokenValue \<times> time) list"
  rc_trace :: "mark list"
  token_maps :: "nat \<Rightarrow> ToolName \<Rightarrow> TokenValue list"
  maps_made :: nat
  session_map :: "nat option"
  created :: nat
  accesses :: "(nat \<times> nat \<times> bool) list"
  active :: "nat \<Rightarrow> (ToolName \<times> stage) option"

definition idle_races :: "time \<Rightarrow> races" where
  "idle_races t = \<lparr>rc_clock = t, rc_history = [], rc_store = (\<lambda>_. []), rc_trace = [], token_maps = (\<lambda>_ _. []),
     maps_made = 0, session_map = None, created = 0, accesses = [], active = Map.empty\<rparr>"

text \<open>\<open>make(map[ToolName][]TokenValue)\<close> in \<open>NewSession\<close>.\<close>

definition make_map :: "races \<Rightarrow> nat \<times> races" where
  "make_map r =
     (maps_made r, r\<lparr>token_maps := (token_maps r)(maps_made r := \<lambda>_. []), maps_made := Suc (maps_made r)\<rparr>)"

text \<open>Beginning and ending an access of a map.\<close>

definition begin_access :: "nat \<Rightarrow> nat \<Rightarrow> bool \<Rightarrow> races \<Rightarrow> races option" where
  "begin_access i m write r =
     (if list_ex (\<lambda>(j, m', write'). m' = m \<and> (write \<or> write')) (accesses r) then None
      else Some (r\<lparr>accesses := (i, m, write) # accesses r\<rparr>))"

definition end_access :: "nat \<Rightarrow> races \<Rightarrow> races" where
  "end_access i r = r\<lparr>accesses := filter (\<lambda>a. fst a \<noteq> i) (accesses r)\<rparr>"

text \<open>
  The phases that read and write the token map \<open>m\<close>. Consuming does not write when no token is there.
\<close>

fun map_access :: "nat \<Rightarrow> races \<Rightarrow> phase \<Rightarrow> bool option" where
  "map_access m r (ConsumeDrop p h) = Some (token_maps r m p \<noteq> [])"
| "map_access m r (IssueAdd tok h) = Some True"
| "map_access m r _ = None"

text \<open>
  The phases after the session has been looked up, over the stored session and the token maps. A
  phase that fetches the session may find none: the validation fails, consuming and issuing return
  an error that is logged, and the call is not recorded.
\<close>

fun validate_step :: "Rule list \<Rightarrow> ToolName \<Rightarrow> nat \<Rightarrow> phase \<Rightarrow> races \<Rightarrow> races \<times> stage" where
  "validate_step rs tool m (Check h []) r = (r, Body m Refused)"
| "validate_step rs tool m (Check h (ru # rest)) r =
     (if Prerequisite ru \<notin> set h then (r, Body m (Check h rest))
      else if live (rc_clock r) (rc_store r (Prerequisite ru)) = [] then (r, Body m (Check h rest))
      else (r\<lparr>rc_trace := rc_trace r @ [Allowed tool (rc_clock r)]\<rparr>, Body m Handle))"
| "validate_step rs tool m _ r =
     (if restricted rs tool then
        (case session_map r of
           None \<Rightarrow> (r, Body m Refused)
         | Some m' \<Rightarrow> (r, Body m' (Check (rc_history r) (rules_for rs tool))))
      else (r\<lparr>rc_trace := rc_trace r @ [Allowed tool (rc_clock r)]\<rparr>, Body m Handle))"

fun consume_step :: "Rule list \<Rightarrow> ToolName \<Rightarrow> nat \<Rightarrow> phase \<Rightarrow> races \<Rightarrow> races \<times> stage" where
  "consume_step rs tool m (ConsumeRemove p tok) r =
     (if list_ex (\<lambda>e. fst e = tok) (rc_store r p)
      then (r\<lparr>rc_store := (rc_store r)(p := remove_first (\<lambda>e. fst e = tok) (rc_store r p))\<rparr>, Body m (ConsumeGet p))
      else (r, Body m Issue))"
| "consume_step rs tool m (ConsumeGet p) r =
     (case session_map r of
        None \<Rightarrow> (r, Body m Issue)
      | Some m' \<Rightarrow> (r, Body m' (ConsumeDrop p (rc_history r))))"
| "consume_step rs tool m (ConsumeDrop p h) r =
     (if token_maps r m p = [] then (r, Body m Issue)
      else (r\<lparr>token_maps := (token_maps r)(m := (token_maps r m)(p := butlast (token_maps r m p)))\<rparr>,
            Body m (ConsumeUpdate h)))"
| "consume_step rs tool m (ConsumeUpdate h) r = (r\<lparr>rc_history := h, session_map := Some m\<rparr>, Body m Issue)"
| "consume_step rs tool m _ r =
     (case find (\<lambda>ru. Tool ru = tool) rs of
        None \<Rightarrow> (r, Body m Issue)
      | Some ru \<Rightarrow>
          if Prerequisite ru = '''' \<or> \<not> OneTimeUse ru then (r, Body m Issue)
          else
            let tokens = live (rc_clock r) (rc_store r (Prerequisite ru))
            in if tokens = [] then (r, Body m Issue)
               else (r, Body m (ConsumeRemove (Prerequisite ru) (last tokens))))"

fun issue_step :: "Rule list \<Rightarrow> ToolName \<Rightarrow> choice \<Rightarrow> nat \<Rightarrow> phase \<Rightarrow> races \<Rightarrow> races \<times> stage" where
  "issue_step rs tool c m (IssueStore tok t) r =
     (r\<lparr>rc_store := (rc_store r)(tool := rc_store r tool @ [(tok, t + rule_expiry rs tool)]),
        rc_trace := rc_trace r @ [Issued tool t]\<rparr>, Body m (IssueGet tok))"
| "issue_step rs tool c m (IssueGet tok) r =
     (case session_map r of
        None \<Rightarrow> (r, Body m RecordGet)
      | Some m' \<Rightarrow> (r, Body m' (IssueAdd tok (rc_history r))))"
| "issue_step rs tool c m (IssueAdd tok h) r =
     (r\<lparr>token_maps := (token_maps r)(m := (token_maps r m)(tool := token_maps r m tool @ [tok]))\<rparr>,
      Body m (IssueUpdate h))"
| "issue_step rs tool c m (IssueUpdate h) r = (r\<lparr>rc_history := h, session_map := Some m\<rparr>, Body m RecordGet)"
| "issue_step rs tool c m _ r =
     (case drawn_token c of
        None \<Rightarrow> (r, Body m RecordGet)
      | Some tok \<Rightarrow> (r, Body m (IssueStore tok (rc_clock r))))"

fun body_step :: "Rule list \<Rightarrow> ToolName \<Rightarrow> choice \<Rightarrow> nat \<Rightarrow> phase \<Rightarrow> races \<Rightarrow> races \<times> stage" where
  "body_step rs tool c m Enter r = validate_step rs tool m Enter r"
| "body_step rs tool c m (Check h rest) r = validate_step rs tool m (Check h rest) r"
| "body_step rs tool c m Handle r = (r, Body m (if handler_ok c then ConsumeRead else Failed))"
| "body_step rs tool c m ConsumeRead r = consume_step rs tool m ConsumeRead r"
| "body_step rs tool c m (ConsumeRemove p tok) r = consume_step rs tool m (ConsumeRemove p tok) r"
| "body_step rs tool c m (ConsumeGet p) r = consume_step rs tool m (ConsumeGet p) r"
| "body_step rs tool c m (ConsumeDrop p h) r = consume_step rs tool m (ConsumeDrop p h) r"
| "body_step rs tool c m (ConsumeUpdate h) r = consume_step rs tool m (ConsumeUpdate h) r"
| "body_step rs tool c m Issue r = issue_step rs tool c m Issue r"
| "body_step rs tool c m (IssueStore tok t) r = issue_step rs tool c m (IssueStore tok t) r"
| "body_step rs tool c m (IssueGet tok) r = issue_step rs tool c m (IssueGet tok) r"
| "body_step rs tool c m (IssueAdd tok h) r = issue_step rs tool c m (IssueAdd tok h) r"
| "body_step rs tool c m (IssueUpdate h) r = issue_step rs tool c m (IssueUpdate h) r"
| "body_step rs tool c m RecordGet r =
     (case session_map r of
        None \<Rightarrow> (r, Body m Finished)
      | Some m' \<Rightarrow> (r, Body m' (RecordUpdate (rc_history r))))"
| "body_step rs tool c m (RecordUpdate h) r = (r\<lparr>rc_history := h @ [tool], session_map := Some m\<rparr>, Body m Finished)"
| "body_step rs tool c m Finished r = (r, Body m Finished)"
| "body_step rs tool c m Refused r = (r, Body m Refused)"
| "body_step rs tool c m Failed r = (r, Body m Failed)"

text \<open>
  One step of call \<open>i\<close>. A call that finds no session asks the service to create one; the service
  looks again, makes a session and stores it, unless one has been stored meanwhile. Then the call
  goes on with a session of its own, which is not stored.
\<close>

fun stage_step :: "Rule list \<Rightarrow> ToolName \<Rightarrow> nat \<Rightarrow> choice \<Rightarrow> stage \<Rightarrow> races \<Rightarrow> (races \<times> stage) option" where
  "stage_step rs tool i c Lookup r =
     (case session_map r of Some m \<Rightarrow> Some (r, Fetched m) | None \<Rightarrow> Some (r, CreateGet))"
| "stage_step rs tool i c CreateGet r =
     (case session_map r of Some m \<Rightarrow> Some (r, Fetched m) | None \<Rightarrow> Some (r, CreateStore))"
| "stage_step rs tool i c CreateStore r =
     (let (m, r1) = make_map r
      in case session_map r1 of
           None \<Rightarrow> Some (r1\<lparr>session_map := Some m, rc_history := [], created := Suc (created r1)\<rparr>, Fetched m)
         | Some _ \<Rightarrow> let (m', r2) = make_map r1 in Some (r2, Fetched m'))"
| "stage_step rs tool i c (Fetched m) r = map_option (\<lambda>r'. (r', Reading m)) (begin_access i m False r)"
| "stage_step rs tool i c (Reading m) r = Some (end_access i r, Body m Enter)"
| "stage_step rs tool i c (Body m ph) r =
     (case map_access m r ph of
        Some write \<Rightarrow> map_option (\<lambda>r'. (r', Access m write ph)) (begin_access i m write r)
      | None \<Rightarrow> Some (body_step rs tool c m ph r))"
| "stage_step rs tool i c (Access m write ph) r = Some (body_step rs tool c m ph (end_access i r))"

section \<open>Schedules\<close>

fun race_move :: "Rule list \<Rightarrow> move \<Rightarrow> races \<Rightarrow> races option" where
  "race_move rs (Arrive i tool) r =
     (case active r i of
        Some _ \<Rightarrow> Some r
      | None \<Rightarrow> Some (r\<lparr>active := (active r)(i \<mapsto> (tool, Lookup))\<rparr>))"
| "race_move rs (Run i c) r =
     (case active r i of
        None \<Rightarrow> Some r
      | Some (tool, st) \<Rightarrow>
          map_option (\<lambda>(r', st'). r'\<lparr>active := (active r')(i \<mapsto> (tool, st'))\<rparr>) (stage_step rs tool i c st r))"
| "race_move rs (Tick n) r = Some (r\<lparr>rc_clock := rc_clock r + int n\<rparr>)"

fun race_moves :: "Rule list \<Rightarrow> move list \<Rightarrow> races \<Rightarrow> races option" where
  "race_moves rs [] r = Some r"
| "race_moves rs (m # ms) r = Option.bind (race_move rs m r) (race_moves rs ms)"

definition race_run :: "Rule list \<Rightarrow> move list \<Rightarrow> time \<Rightarrow> races option" where
  "race_run rs moves t = race_moves rs moves (idle_races t)"

lemma race_moves_append:
  "race_moves rs (ms @ ms') r = Option.bind (race_moves rs ms r) (race_moves rs ms')"
  by (induction ms arbitrary: r) (simp_all split: bind_split)

section \<open>The invariant\<close>

text \<open>The phases of a call that works with a copy it has fetched from the store.\<close>

fun holds_copy :: "phase \<Rightarrow> bool" where
  "holds_copy (ConsumeDrop p h) = True"
| "holds_copy (IssueAdd tok h) = True"
| "holds_copy (RecordUpdate h) = True"
| "holds_copy (ConsumeUpdate h) = True"
| "holds_copy (IssueUpdate h) = True"
| "holds_copy _ = False"

fun stage_ok :: "nat option \<Rightarrow> stage \<Rightarrow> bool" where
  "stage_ok sm Lookup = True"
| "stage_ok sm CreateGet = True"
| "stage_ok sm CreateStore = True"
| "stage_ok sm (Fetched m) = (sm \<noteq> None)"
| "stage_ok sm (Reading m) = (sm \<noteq> None)"
| "stage_ok sm (Body m ph) = (sm \<noteq> None \<and> (holds_copy ph \<longrightarrow> sm = Some m))"
| "stage_ok sm (Access m write ph) = (sm = Some m \<and> holds_copy ph)"

definition races_ok :: "races \<Rightarrow> bool" where
  "races_ok r \<longleftrightarrow>
     (\<forall>i tool st. active r i = Some (tool, st) \<longrightarrow> stage_ok (session_map r) st) \<and>
     (\<forall>m. session_map r = Some m \<longrightarrow> m < maps_made r) \<and>
     created r = (if session_map r = None then 0 else 1)"

lemma races_ok_idle: "races_ok (idle_races t)"
  by (simp add: races_ok_def idle_races_def)

lemma stage_ok_stored: "stage_ok None st \<Longrightarrow> stage_ok (Some m) st"
  by (cases st) simp_all

section \<open>The phases are those of Interleaving\<close>

text \<open>The stored session as \<open>Interleaving\<close> has it, when its token map is \<open>m\<close>.\<close>

definition view :: "nat \<Rightarrow> races \<Rightarrow> shared" where
  "view m r = \<lparr>clock_now = rc_clock r, history = rc_history r, held = token_maps r m, store = rc_store r,
     trace = rc_trace r\<rparr>"

lemma view_upd [simp]:
  "view m (r\<lparr>session_map := x\<rparr>) = view m r" "view m (r\<lparr>active := y\<rparr>) = view m r"
  "view m (r\<lparr>accesses := z\<rparr>) = view m r" "view m (r\<lparr>created := n\<rparr>) = view m r"
  by (simp_all add: view_def)

text \<open>Only the phases of a call that holds a copy depend on the map of the call, and it is the stored one.\<close>

lemma body_step_refines:
  assumes sm: "session_map r = Some m0" and ok: "holds_copy ph \<Longrightarrow> m = m0"
  obtains r' m1 ph1 where "body_step rs tool c m ph r = (r', Body m1 ph1)"
    and "next_phase rs tool c (view m0 r, ph) = (view m0 r', ph1)" and "holds_copy ph1 \<Longrightarrow> m1 = m0"
    and "session_map r' = Some m0" "maps_made r' = maps_made r" "created r' = created r" "active r' = active r"
      "accesses r' = accesses r"
proof -
  have "\<exists>r' m1 ph1. body_step rs tool c m ph r = (r', Body m1 ph1) \<and>
    next_phase rs tool c (view m0 r, ph) = (view m0 r', ph1) \<and> (holds_copy ph1 \<longrightarrow> m1 = m0) \<and>
    session_map r' = Some m0 \<and> maps_made r' = maps_made r \<and> created r' = created r \<and> active r' = active r \<and>
    accesses r' = accesses r"
  proof (cases ph)
    case (Check h rest)
    with sm show ?thesis by (cases rest) (auto simp: view_def)
  next
    case ConsumeRead
    with sm show ?thesis by (auto simp: view_def spent_def first_rule_def Let_def split: option.splits)
  qed (use sm ok in \<open>auto simp: view_def mint_def split: option.splits\<close>)
  then show thesis by (elim exE conjE) (rule that, (blast | assumption)+)
qed

section \<open>Refinement of the interleaved phases\<close>

fun phase_of :: "stage \<Rightarrow> phase" where
  "phase_of (Body m ph) = ph"
| "phase_of (Access m write ph) = ph"
| "phase_of _ = Enter"

text \<open>What \<open>Interleaving\<close> sees: the stored session, empty while there is none, and the phases.\<close>

definition session_of :: "races \<Rightarrow> shared" where
  "session_of r =
     (case session_map r of
        None \<Rightarrow> \<lparr>clock_now = rc_clock r, history = [], held = (\<lambda>_. []), store = rc_store r, trace = rc_trace r\<rparr>
      | Some m \<Rightarrow> view m r)"

definition interleaved :: "races \<Rightarrow> system" where
  "interleaved r = \<lparr>sys = session_of r, threads = (\<lambda>i. map_option (map_prod id phase_of) (active r i))\<rparr>"

lemma interleaved_idle: "interleaved (idle_races t) = idle_system t"
  by (simp add: interleaved_def session_of_def idle_races_def idle_system_def)

definition step_call :: "nat \<Rightarrow> ToolName \<Rightarrow> stage \<Rightarrow> races \<Rightarrow> races" where
  "step_call i tool st r = r\<lparr>active := (active r)(i \<mapsto> (tool, st))\<rparr>"

lemma interleaved_step_call:
  assumes "active r' = active r"
  shows "interleaved (step_call i tool st r') =
    \<lparr>sys = session_of r', threads = (threads (interleaved r))(i \<mapsto> (tool, phase_of st))\<rparr>"
  using assms by (auto simp: interleaved_def step_call_def session_of_def split: option.splits)

lemma interleaved_stutter:
  assumes "active r i = Some (tool, st)" and "active r' = active r" and "session_of r' = session_of r"
    and "phase_of st' = phase_of st"
  shows "interleaved (step_call i tool st' r') = interleaved r"
  unfolding interleaved_step_call[OF assms(2)] using assms(1,3,4) by (auto simp: interleaved_def)

lemma races_ok_step:
  assumes "races_ok r" and "active r' = active r" and "stage_ok (session_map r') st'"
    and "session_map r \<noteq> None \<Longrightarrow> session_map r' = session_map r"
    and "\<And>m. session_map r' = Some m \<Longrightarrow> m < maps_made r'" and "created r' = (if session_map r' = None then 0 else 1)"
  shows "races_ok (step_call i tool st' r')"
proof -
  have "stage_ok (session_map r') st" if "active r j = Some (tl, st)" for j tl st
  proof (cases "session_map r")
    case None
    with assms(1) that have "stage_ok None st" unfolding races_ok_def by metis
    then show ?thesis by (cases "session_map r'") (simp_all add: stage_ok_stored)
  next
    case (Some m)
    with assms(1,4) that show ?thesis unfolding races_ok_def by simp
  qed
  with assms show ?thesis by (auto simp: races_ok_def step_call_def)
qed

text \<open>A step that is a phase of \<open>Interleaving\<close>: outside an access, or the end of one.\<close>

lemma body_refines:
  assumes ok: "races_ok r" and act: "active r i = Some (tool, st)" "phase_of st = ph"
    and st: "session_map r = Some m0" "holds_copy ph \<Longrightarrow> m = m0"
    and r1: "r1 = r\<lparr>accesses := z\<rparr>" and step: "body_step rs tool c m ph r1 = (r', st')"
  shows "races_ok (step_call i tool st' r') \<and> active r' = active r \<and> session_map r' = session_map r \<and>
    interleaved (step_call i tool st' r') = do_move rs (Run i c) (interleaved r)"
proof -
  from st(1) r1 have "session_map r1 = Some m0" by simp
  from body_step_refines[OF this, of ph m rs tool c] st(2) obtain m1 ph1 where
    st': "st' = Body m1 ph1" and nxt: "next_phase rs tool c (view m0 r1, ph) = (view m0 r', ph1)"
    and copy: "holds_copy ph1 \<Longrightarrow> m1 = m0" and f: "session_map r' = Some m0" "maps_made r' = maps_made r1"
      "created r' = created r1" "active r' = active r1"
    using step by (metis prod.inject)
  from f(4) r1 have a: "active r' = active r" by simp
  have "races_ok (step_call i tool st' r')"
    by (rule races_ok_step[OF ok a]) (use ok st st' copy f r1 in \<open>auto simp: races_ok_def\<close>)
  moreover have "interleaved (step_call i tool st' r') = do_move rs (Run i c) (interleaved r)"
    unfolding interleaved_step_call[OF a] using act nxt st st' f(1) r1
    by (simp add: interleaved_def session_of_def)
  ultimately show ?thesis using st f a by simp
qed

lemma map_access_copy: "map_access m r ph = Some write \<Longrightarrow> holds_copy ph"
  by (cases ph) simp_all

lemma stage_refines:
  assumes ok: "races_ok r" and act: "active r i = Some (tool, st)" and step: "stage_step rs tool i c st r = Some (r', st')"
  shows "races_ok (step_call i tool st' r') \<and> active r' = active r \<and>
    (session_map r \<noteq> None \<longrightarrow> session_map r' = session_map r) \<and>
    (interleaved (step_call i tool st' r') = interleaved r \<or>
     interleaved (step_call i tool st' r') = do_move rs (Run i c) (interleaved r))"
proof -
  from ok act have st: "stage_ok (session_map r) st" unfolding races_ok_def by blast
  have stutter: ?thesis if "active r' = active r" "session_of r' = session_of r" "phase_of st' = phase_of st"
    "stage_ok (session_map r') st'" "session_map r \<noteq> None \<Longrightarrow> session_map r' = session_map r"
    "\<And>m. session_map r' = Some m \<Longrightarrow> m < maps_made r'" "created r' = (if session_map r' = None then 0 else 1)"
    using interleaved_stutter[OF act that(1-3)] races_ok_step[OF ok that(1,4-7)] that(1,5) by blast
  from ok have made: "\<And>m. session_map r = Some m \<Longrightarrow> m < maps_made r" "created r = (if session_map r = None then 0 else 1)"
    by (simp_all add: races_ok_def)
  have body: ?thesis
    if "session_map r = Some m0" "holds_copy (phase_of st) \<Longrightarrow> m = m0" "r1 = r\<lparr>accesses := z\<rparr>"
      "body_step rs tool c m (phase_of st) r1 = (r', st')" for m0 m r1 z
    using body_refines[OF ok act refl that] by blast
  show ?thesis
  proof (cases st)
    case Lookup
    with step made show ?thesis by (intro stutter) (auto split: option.splits)
  next
    case CreateGet
    with step made show ?thesis by (intro stutter) (auto split: option.splits)
  next
    case CreateStore
    with step made show ?thesis
      by (intro stutter) (auto simp: make_map_def Let_def session_of_def view_def less_Suc_eq split: option.splits)
  next
    case (Fetched m)
    with step made st show ?thesis
      by (intro stutter) (auto simp: begin_access_def session_of_def split: if_splits option.splits)
  next
    case (Reading m)
    with step made st show ?thesis
      by (intro stutter) (auto simp: end_access_def session_of_def split: option.splits)
  next
    case (Body m ph)
    from st Body obtain m0 where m0: "session_map r = Some m0" "holds_copy ph \<Longrightarrow> m = m0" by auto
    show ?thesis
    proof (cases "map_access m r ph")
      case None
      with step Body have "body_step rs tool c m ph (r\<lparr>accesses := accesses r\<rparr>) = (r', st')" by simp
      with m0 Body body[of m0 m _ "accesses r"] show ?thesis by simp
    next
      case (Some wr)
      with step Body made m0 map_access_copy[OF Some] show ?thesis
        by (intro stutter) (auto simp: begin_access_def session_of_def split: if_splits option.splits)
    qed
  next
    case (Access m wr ph)
    with st step body[of m m _ "filter (\<lambda>a. fst a \<noteq> i) (accesses r)"] show ?thesis
      by (simp add: end_access_def)
  qed
qed

section \<open>Schedules refine schedules\<close>

lemma move_refines:
  assumes "races_ok r" and "race_move rs m r = Some r'"
  shows "races_ok r' \<and> (session_map r \<noteq> None \<longrightarrow> session_map r' = session_map r) \<and>
    (interleaved r' = interleaved r \<or> interleaved r' = do_move rs m (interleaved r))"
proof (cases m)
  case (Arrive i tool)
  with assms show ?thesis
    by (auto simp: races_ok_def interleaved_def session_of_def fun_eq_iff split: option.splits if_splits)
next
  case (Tick n)
  with assms show ?thesis
    by (auto simp: races_ok_def interleaved_def session_of_def view_def split: option.splits)
next
  case (Run i c)
  show ?thesis
  proof (cases "active r i")
    case None
    with Run assms show ?thesis by simp
  next
    case (Some a)
    then obtain tool st where act: "active r i = Some (tool, st)" by (cases a) auto
    with Run assms(2) obtain r1 st' where step: "stage_step rs tool i c st r = Some (r1, st')"
      and r': "r' = step_call i tool st' r1" by (auto simp: step_call_def)
    have "session_map r' = session_map r1" by (simp add: r' step_call_def)
    with stage_refines[OF assms(1) act step] Run show ?thesis by (simp add: r')
  qed
qed

lemma moves_refine:
  assumes "race_moves rs ms r = Some r'" and "races_ok r"
  shows "races_ok r' \<and> (session_map r \<noteq> None \<longrightarrow> session_map r' = session_map r) \<and>
    (\<exists>ms'. subseq ms' ms \<and> interleaved r' = fold (do_move rs) ms' (interleaved r))"
  using assms
proof (induction ms arbitrary: r)
  case Nil
  then show ?case by auto
next
  case (Cons m ms)
  from Cons.prems(1) obtain r1 where m: "race_move rs m r = Some r1" and ms: "race_moves rs ms r1 = Some r'"
    by (auto simp: bind_eq_Some_conv)
  note r1 = move_refines[OF Cons.prems(2) m]
  from Cons.IH[OF ms] r1 obtain ms' where ms': "races_ok r'" "session_map r1 \<noteq> None \<longrightarrow> session_map r' = session_map r1"
    "subseq ms' ms" "interleaved r' = fold (do_move rs) ms' (interleaved r1)" by blast
  from r1 consider "interleaved r1 = interleaved r" | "interleaved r1 = do_move rs m (interleaved r)" by blast
  then have "\<exists>ms'. subseq ms' (m # ms) \<and> interleaved r' = fold (do_move rs) ms' (interleaved r)"
  proof cases
    case 1
    with ms' show ?thesis by (intro exI[of _ ms']) auto
  next
    case 2
    with ms' show ?thesis by (intro exI[of _ "m # ms'"]) auto
  qed
  with ms' r1 show ?case by auto
qed

section \<open>Calls made one at a time\<close>

definition stage_over :: "races \<Rightarrow> nat \<Rightarrow> bool" where
  "stage_over r i = (case active r i of None \<Rightarrow> True | Some (tool, Body m ph) \<Rightarrow> over ph | _ \<Rightarrow> False)"

text \<open>\<open>cur\<close> is the call that arrived last; the next one arrives when it is over.\<close>

fun one_at_a_time :: "Rule list \<Rightarrow> move list \<Rightarrow> nat \<Rightarrow> races \<Rightarrow> bool" where
  "one_at_a_time rs [] cur r = True"
| "one_at_a_time rs (m # ms) cur r =
     ((case m of Arrive i tool \<Rightarrow> stage_over r cur | _ \<Rightarrow> True) \<and>
      (case race_move rs m r of
         None \<Rightarrow> True
       | Some r' \<Rightarrow>
           one_at_a_time rs ms (case m of Arrive i tool \<Rightarrow> (if active r i = None then i else cur) | _ \<Rightarrow> cur) r'))"

fun open_access :: "nat \<Rightarrow> stage \<Rightarrow> (nat \<times> nat \<times> bool) list" where
  "open_access i (Reading m) = [(i, m, False)]"
| "open_access i (Access m write ph) = [(i, m, write)]"
| "open_access i _ = []"

definition lone :: "nat \<Rightarrow> races \<Rightarrow> bool" where
  "lone cur r \<longleftrightarrow> (\<forall>i. i \<noteq> cur \<longrightarrow> stage_over r i) \<and>
     accesses r = (case active r cur of None \<Rightarrow> [] | Some (tool, st) \<Rightarrow> open_access cur st)"

lemma over_stage_stays:
  "over ph \<Longrightarrow> stage_step rs tool i c (Body m ph) r = Some (r, Body m ph)"
  by (cases ph) simp_all

lemma body_step_accesses: "accesses (fst (body_step rs tool c m ph r)) = accesses r \<and>
    active (fst (body_step rs tool c m ph r)) = active r \<and> (\<exists>m' ph'. snd (body_step rs tool c m ph r) = Body m' ph')"
proof (cases ph)
  case (Check h rest)
  then show ?thesis by (cases rest) simp_all
qed (auto simp: Let_def split: option.splits)

lemma lone_step:
  assumes "accesses r = open_access i st"
  shows "\<exists>r' st'. stage_step rs tool i c st r = Some (r', st') \<and> accesses r' = open_access i st' \<and> active r' = active r"
proof (cases st)
  case (Body m ph)
  with assms body_step_accesses[of rs tool c m ph r] show ?thesis
    by (cases "body_step rs tool c m ph r") (auto simp: begin_access_def split: option.splits)
next
  case (Access m wr ph)
  with assms body_step_accesses[of rs tool c m ph "end_access i r"] show ?thesis
    by (cases "body_step rs tool c m ph (end_access i r)") (auto simp: end_access_def)
qed (use assms in \<open>auto simp: begin_access_def end_access_def make_map_def Let_def split: option.splits\<close>)

lemma lone_over:
  assumes "lone cur r" and "stage_over r cur"
  shows "accesses r = []" and "stage_over r i"
proof -
  show "accesses r = []"
  proof (cases "active r cur")
    case (Some a)
    obtain tool st where "a = (tool, st)" by fastforce
    with Some assms show ?thesis by (cases st) (simp_all add: lone_def stage_over_def)
  qed (use assms in \<open>simp add: lone_def\<close>)
  show "stage_over r i" using assms by (cases "i = cur") (simp_all add: lone_def)
qed

lemma lone_move:
  assumes "lone cur r" and "case m of Arrive i tool \<Rightarrow> stage_over r cur | _ \<Rightarrow> True"
  shows "\<exists>r'. race_move rs m r = Some r' \<and>
    lone (case m of Arrive i tool \<Rightarrow> (if active r i = None then i else cur) | _ \<Rightarrow> cur) r'"
proof (cases m)
  case (Arrive i tool)
  with assms have "stage_over r cur" by simp
  note idle = lone_over[OF assms(1) this]
  show ?thesis
  proof (cases "active r i")
    case None
    with Arrive idle show ?thesis by (simp add: lone_def stage_over_def)
  next
    case (Some a)
    with Arrive assms(1) show ?thesis by simp
  qed
next
  case (Tick n)
  with assms show ?thesis by (auto simp: lone_def stage_over_def)
next
  case (Run i c)
  show ?thesis
  proof (cases "active r i")
    case None
    with Run assms show ?thesis by simp
  next
    case (Some a)
    then obtain tool st where act: "active r i = Some (tool, st)" by (cases a) auto
    show ?thesis
    proof (cases "i = cur")
      case True
      with assms act have "accesses r = open_access i st" by (simp add: lone_def)
      from lone_step[OF this, of rs tool c] obtain r' st' where "stage_step rs tool i c st r = Some (r', st')"
        "accesses r' = open_access i st'" "active r' = active r" by blast
      with Run act True assms show ?thesis by (auto simp: lone_def stage_over_def)
    next
      case False
      with assms(1) have "stage_over r i" by (simp add: lone_def)
      with act obtain m ph where "st = Body m ph" "over ph" by (cases st) (auto simp: stage_over_def)
      moreover have "r\<lparr>active := (active r)(i \<mapsto> (tool, st))\<rparr> = r" using act by (simp add: fun_upd_idem)
      ultimately show ?thesis using Run act assms(1) by (simp add: over_stage_stays del: stage_step.simps)
    qed
  qed
qed

lemma lone_moves: "lone cur r \<Longrightarrow> one_at_a_time rs ms cur r \<Longrightarrow> \<exists>r'. race_moves rs ms r = Some r'"
proof (induction ms arbitrary: cur r)
  case Nil
  then show ?case by simp
next
  case (Cons m ms)
  from Cons.prems(2) have "case m of Arrive i tool \<Rightarrow> stage_over r cur | _ \<Rightarrow> True" by simp
  from lone_move[OF Cons.prems(1) this, of rs] Cons show ?case by auto
qed

text \<open>What \<open>Interleaving\<close> sees of calls made one at a time is a schedule without overlap.\<close>

lemma stage_over_call: "stage_over r i \<Longrightarrow> call_over (interleaved r) i"
proof (cases "active r i")
  case (Some a)
  obtain tool st where "a = (tool, st)" by fastforce
  with Some show "stage_over r i \<Longrightarrow> ?thesis" by (cases st) (simp_all add: stage_over_def call_over_def interleaved_def)
qed (simp add: call_over_def interleaved_def)

lemma interleaved_threads: "threads (interleaved r) i = None \<longleftrightarrow> active r i = None"
  by (simp add: interleaved_def)

lemma arrival_seen:
  assumes "active r i = None" and "race_move rs (Arrive i tool) r = Some r'"
  shows "interleaved r' \<noteq> interleaved r"
proof
  assume "interleaved r' = interleaved r"
  with assms(1) have "active r' i = None" by (metis interleaved_threads)
  with assms show False by auto
qed

lemma turns_serial:
  assumes "one_at_a_time rs ms cur r" and "race_moves rs ms r = Some r'" and "races_ok r"
  shows "\<exists>ms'. serial rs False ms' cur used (interleaved r) \<and> interleaved r' = fold (do_move rs) ms' (interleaved r)"
  using assms
proof (induction ms arbitrary: cur r used)
  case Nil
  then show ?case by (intro exI[of _ "[]"]) simp
next
  case (Cons m ms)
  let ?cur = "case m of Arrive i tool \<Rightarrow> (if active r i = None then i else cur) | _ \<Rightarrow> cur"
  from Cons.prems(2) obtain r1 where m: "race_move rs m r = Some r1" and ms: "race_moves rs ms r1 = Some r'"
    by (auto simp: bind_eq_Some_conv)
  note r1 = move_refines[OF Cons.prems(3) m]
  from Cons.prems(1) m have turn: "case m of Arrive i tool \<Rightarrow> stage_over r cur | _ \<Rightarrow> True"
    and rest: "one_at_a_time rs ms ?cur r1" by simp_all
  show ?case
  proof (cases "interleaved r1 = interleaved r")
    case True
    then have "?cur = cur" using m arrival_seen by (cases m) fastforce+
    with Cons.IH[OF rest ms] r1 True show ?thesis by simp
  next
    case False
    with r1 have step: "interleaved r1 = do_move rs m (interleaved r)" by blast
    from Cons.IH[OF rest ms] r1 obtain ms' where
      "serial rs False ms' ?cur (case drawn_by (interleaved r) m of None \<Rightarrow> used | Some tk \<Rightarrow> tk # used) (interleaved r1)"
      "interleaved r' = fold (do_move rs) ms' (interleaved r1)" by blast
    moreover have "?cur = (case m of Arrive i tool \<Rightarrow> (if threads (interleaved r) i = None then i else cur) | _ \<Rightarrow> cur)"
      by (simp add: interleaved_threads split: move.splits)
    moreover have "case m of Arrive i tool \<Rightarrow> call_over (interleaved r) cur | _ \<Rightarrow> True"
      using turn by (cases m) (simp_all add: stage_over_call)
    ultimately show ?thesis unfolding step
      by (intro exI[of _ "m # ms'"]) (simp split: option.split)
  qed
qed

section \<open>Properties\<close>

text \<open>
  C22: Nothing in the creation of the session and in the accesses of its token map adds to what
  \<open>Interleaving\<close> shows: a schedule in which no accesses race does to the history, the tokens, the store
  and the calls what a part of the schedule does there, whatever first calls create the session.
\<close>

theorem session_races_refine:
  assumes "race_run rs moves t0 = Some r"
  shows "\<exists>moves'. subseq moves' moves \<and> interleaved r = run_schedule rs moves' t0"
  using moves_refine[OF assms[unfolded race_run_def] races_ok_idle]
  by (simp add: run_schedule_def interleaved_idle)

text \<open>
  C23: First calls may race for the creation of the session without harm: in every schedule at most
  one creation succeeds and is announced; a call past its creation finds the stored session; and a
  session that is stored keeps its token map, so no late creation makes tokens disappear.
\<close>

theorem session_created_once:
  assumes "race_run rs ms t0 = Some r"
  shows "created r = (if session_map r = None then 0 else 1) \<and>
    (\<forall>i tool m ph. active r i = Some (tool, Body m ph) \<longrightarrow> session_map r \<noteq> None) \<and>
    (\<forall>m ms' r'. session_map r = Some m \<longrightarrow> race_run rs (ms @ ms') t0 = Some r' \<longrightarrow> session_map r' = Some m)"
proof -
  have run: "race_moves rs ms (idle_races t0) = Some r" using assms by (simp add: race_run_def)
  then have ok: "races_ok r" using moves_refine races_ok_idle by blast
  have "session_map r' = Some m" if "session_map r = Some m" "race_run rs (ms @ ms') t0 = Some r'" for m ms' r'
  proof -
    from that(2) run have "race_moves rs ms' r = Some r'" by (simp add: race_run_def race_moves_append)
    from moves_refine[OF this ok] that(1) show ?thesis by simp
  qed
  moreover have "session_map r \<noteq> None" if "active r i = Some (tool, Body m ph)" for i tool m ph
  proof -
    from ok that have "stage_ok (session_map r) (Body m ph)" unfolding races_ok_def by blast
    then show ?thesis by simp
  qed
  moreover have "created r = (if session_map r = None then 0 else 1)" using ok unfolding races_ok_def by blast
  ultimately show ?thesis by blast
qed

text \<open>
  Two first calls of tools without rules. In \<open>first_calls\<close> the second creates the session while the
  first is about to; in \<open>racing_calls\<close> both have drawn a token and are about to add it.
\<close>

definition first_calls :: "move list" where
  "first_calls = [Arrive 1 ''get_time'', Arrive 2 ''get_date''] @ run 2 1 ''t1'' @ run 3 2 ''t2'' @ run 16 1 ''t1'' @ run 16 2 ''t2''"

definition racing_calls :: "move list" where
  "racing_calls = [Arrive 1 ''get_time'', Arrive 2 ''get_date''] @ run 12 1 ''t1'' @ run 10 2 ''t2''"

definition calls_in_turn :: "move list" where
  "calls_in_turn = Arrive 1 ''get_time'' # run 16 1 ''t1'' @ Arrive 2 ''get_date'' # run 16 2 ''t2''"

definition race_ends :: "move list \<Rightarrow> (stage option \<times> stage option \<times> nat \<times> ToolName list) option" where
  "race_ends ms = map_option (\<lambda>r. (map_option snd (active r 1), map_option snd (active r 2), created r, rc_history r))
     (race_run [] ms 0)"

lemma first_calls_run:
  "race_ends first_calls = Some (Some (Body 0 Finished), Some (Body 0 Finished), 1, [''get_time'', ''get_date''])"
  by code_simp

theorem session_races_refine_witness:
  "\<exists>moves' r. race_run [] first_calls 0 = Some r \<and> subseq moves' first_calls \<and>
     rc_history r = [''get_time'', ''get_date''] \<and> interleaved r = run_schedule [] moves' 0"
proof -
  from first_calls_run obtain r where r: "race_run [] first_calls 0 = Some r" "rc_history r = [''get_time'', ''get_date'']"
    by (auto simp: race_ends_def)
  from session_races_refine[OF r(1)] r show ?thesis by blast
qed

theorem session_created_once_witness:
  "\<exists>r. race_run [] first_calls 0 = Some r \<and> created r = 1 \<and> session_map r \<noteq> None"
proof -
  from first_calls_run obtain r where r: "race_run [] first_calls 0 = Some r" "created r = 1"
    by (auto simp: race_ends_def)
  from session_created_once[OF r(1)] r show ?thesis by (metis zero_neq_one)
qed

text \<open>
  C24: The token map is safe only as long as calls do not overlap. Calls made one at a time never race
  on it, whatever the rules and the tools, and when they are over the history and the token store
  are those of a run of the abstract machine, the creation of the session included. But two
  overlapping calls can race, even of tools without rules: both are about to add their token to the
  map that their copies of the session share.
\<close>

theorem token_map_races:
  assumes "one_at_a_time rs moves 0 (idle_races t0)"
  shows "(\<exists>r. race_run rs moves t0 = Some r \<and>
      ((\<forall>i. stage_over r i) \<longrightarrow> (\<exists>a. ratchet_reach rs False a \<and>
         map c_tool (calls a) = history (session_of r) \<and> bag a = store (session_of r)))) \<and>
    race_ends racing_calls = None"
proof -
  have "lone 0 (idle_races t0)" by (simp add: lone_def stage_over_def idle_races_def)
  from lone_moves[OF this assms] obtain r where r: "race_moves rs moves (idle_races t0) = Some r" by blast
  from turns_serial[OF assms r races_ok_idle] obtain ms' where
    ms': "serial rs False ms' 0 [] (idle_system t0)" "interleaved r = run_schedule rs ms' t0"
    by (auto simp: run_schedule_def interleaved_idle)
  have "\<exists>a. ratchet_reach rs False a \<and> map c_tool (calls a) = history (session_of r) \<and> bag a = store (session_of r)"
    if "\<forall>i. stage_over r i"
    using serial_refines[OF ms'(1)] stage_over_call that ms'(2) by (metis interleaved_def system.select_convs(1))
  moreover have "race_ends racing_calls = None" by code_simp
  ultimately show ?thesis using r by (simp add: race_run_def)
qed

lemma stage_step_active: "stage_step rs tool i c st r = Some (r', st') \<Longrightarrow> active r' = active r"
  using body_step_accesses[of rs tool c _ "phase_of st" r] body_step_accesses[of rs tool c _ "phase_of st" "end_access i r"]
  by (cases st) (auto simp: begin_access_def end_access_def make_map_def Let_def prod_eq_iff split: option.splits if_splits)

lemma others_stay:
  assumes "race_moves rs ms r = Some r'"
    and "\<forall>m\<in>set ms. case m of Arrive j tool \<Rightarrow> j \<noteq> i | Run j c \<Rightarrow> j \<noteq> i | Tick n \<Rightarrow> True"
  shows "active r' i = active r i"
  using assms
proof (induction ms arbitrary: r)
  case (Cons m ms)
  from Cons.prems(1) obtain r1 where m: "race_move rs m r = Some r1" and ms: "race_moves rs ms r1 = Some r'"
    by (auto simp: bind_eq_Some_conv)
  have "active r1 i = active r i"
    using m Cons.prems(2) by (cases m) (auto dest: stage_step_active split: option.splits)
  with Cons.IH[OF ms] Cons.prems(2) show ?case by simp
qed simp

theorem token_map_races_witness:
  "\<exists>a. ratchet_reach [] False a \<and> map c_tool (calls a) = [''get_time'', ''get_date'']"
proof -
  have "one_at_a_time [] calls_in_turn 0 (idle_races 0)" by code_simp
  from token_map_races[OF this] obtain r where r: "race_run [] calls_in_turn 0 = Some r"
    and refine: "(\<forall>i. stage_over r i) \<longrightarrow> (\<exists>a. ratchet_reach [] False a \<and>
      map c_tool (calls a) = history (session_of r) \<and> bag a = store (session_of r))" by auto
  have "map_option (\<lambda>r. (stage_over r 1, stage_over r 2, history (session_of r))) (race_run [] calls_in_turn 0) =
      Some (True, True, [''get_time'', ''get_date''])" by code_simp
  with r have ends: "stage_over r 1" "stage_over r 2" "history (session_of r) = [''get_time'', ''get_date'']" by auto
  have "stage_over r i" for i
  proof (cases "i = 1 \<or> i = 2")
    case False
    then have "active r i = None"
      using others_stay[OF r[unfolded race_run_def], of i] by (auto simp: calls_in_turn_def run_def idle_races_def split: move.splits)
    then show ?thesis by (simp add: stage_over_def)
  qed (use ends in auto)
  with refine ends(3) show ?thesis by auto
qed

end
