(* ===== verification/GoTime.thy ===== *)
theory GoTime
  imports GoStd
begin

text \<open>
  What the demo tools use of Go's formatting of instants: the civil date of an instant in UTC and
  the layouts \<open>2006-01-02\<close> and \<open>time.RFC3339\<close>. Day 0 is January 1 of year 1. The date found
  for a day is shown to be a date of the calendar and to be the date of that day.
\<close>

section \<open>The calendar\<close>

definition is_leap :: "int \<Rightarrow> bool" where
  "is_leap y \<longleftrightarrow> y mod 4 = 0 \<and> (y mod 100 \<noteq> 0 \<or> y mod 400 = 0)"

text \<open>Days of a year before the first of its month \<open>m\<close>.\<close>

definition days_before :: "int \<Rightarrow> int \<Rightarrow> int" where
  "days_before y m =
     [0, 31, 59, 90, 120, 151, 181, 212, 243, 273, 304, 334] ! nat (m - 1)
       + (if is_leap y \<and> 2 < m then 1 else 0)"

definition days_in :: "int \<Rightarrow> int \<Rightarrow> int" where
  "days_in y m =
     (if m = 2 then (if is_leap y then 29 else 28) else if m \<in> {4, 6, 9, 11} then 30 else 31)"

definition valid_date :: "int \<Rightarrow> int \<Rightarrow> int \<Rightarrow> bool" where
  "valid_date y m d \<longleftrightarrow> 1 \<le> m \<and> m \<le> 12 \<and> 1 \<le> d \<and> d \<le> days_in y m"

definition days_before_year :: "int \<Rightarrow> int" where
  "days_before_year y = 365 * (y - 1) + (y - 1) div 4 - (y - 1) div 100 + (y - 1) div 400"

definition day_number :: "int \<Rightarrow> int \<Rightarrow> int \<Rightarrow> int" where
  "day_number y m d = days_before_year y + days_before y m + (d - 1)"

section \<open>From an instant to its date\<close>

text \<open>Year and day of the year, cutting off 400, 100, 4 and 1 years.\<close>

definition year_day :: "int \<Rightarrow> int \<times> int" where
  "year_day days =
     (let n400 = days div 146097; d = days mod 146097;
          n100 = d div 36524; n100 = n100 - n100 div 4; d = d - 36524 * n100;
          n4 = d div 1461; d = d mod 1461;
          n = d div 365; n = n - n div 4
      in (400 * n400 + 100 * n100 + 4 * n4 + n + 1, d - 365 * n))"

text \<open>Month and day of the month, from the day of the year without a leap day.\<close>

definition month_day :: "int \<Rightarrow> int \<Rightarrow> int \<times> int" where
  "month_day y yday =
     (if is_leap y \<and> yday = 59 then (2, 29)
      else let d = (if is_leap y \<and> 59 < yday then yday - 1 else yday);
               m = d div 31 + 1;
               end = [31, 59, 90, 120, 151, 181, 212, 243, 273, 304, 334, 365] ! nat (m - 1);
               m = (if d \<ge> end then m + 1 else m)
           in (m, d - [0, 31, 59, 90, 120, 151, 181, 212, 243, 273, 304, 334] ! nat (m - 1) + 1))"

definition civil_date :: "time \<Rightarrow> int \<times> int \<times> int" where
  "civil_date t = (let (y, yday) = year_day (t div civil_day); (m, d) = month_day y yday in (y, m, d))"

section \<open>Text\<close>

fun decimal :: "nat \<Rightarrow> string" where
  "decimal n = (if n < 10 then [char_of (48 + n)] else decimal (n div 10) @ [char_of (48 + n mod 10)])"

declare decimal.simps [simp del]

text \<open>At least \<open>width\<close> digits, a minus sign in front of them when negative.\<close>

definition appendInt :: "int \<Rightarrow> nat \<Rightarrow> string" where
  "appendInt x width =
     (let ds = decimal (nat \<bar>x\<bar>)
      in (if x < 0 then ''-'' else '''') @ replicate (width - length ds) (CHR ''0'') @ ds)"

definition date_text :: "int \<Rightarrow> int \<Rightarrow> int \<Rightarrow> string" where
  "date_text y m d = appendInt y 4 @ ''-'' @ appendInt m 2 @ ''-'' @ appendInt d 2"

text \<open>\<open>t.UTC().Format("2006-01-02")\<close> and \<open>t.UTC().Format(time.RFC3339)\<close>.\<close>

definition Format_date :: "time \<Rightarrow> string" where
  "Format_date t = (let (y, m, d) = civil_date t in date_text y m d)"

definition Format_RFC3339 :: "time \<Rightarrow> string" where
  "Format_RFC3339 t =
     (let s = t div Second mod 86400
      in Format_date t @ ''T'' @ appendInt (s div 3600) 2 @ '':'' @ appendInt (s div 60 mod 60) 2
           @ '':'' @ appendInt (s mod 60) 2 @ ''Z'')"

section \<open>The date is right\<close>

lemma div_bounds:
  fixes x k :: int
  assumes "0 < k"
  shows "k * (x div k) \<le> x" and "x < k * (x div k) + k"
  using mult_div_mod_eq[of k x] pos_mod_bound[OF assms, of x] pos_mod_sign[OF assms, of x] by linarith+

lemma div_eqI: "k * q \<le> x \<Longrightarrow> x < k * q + k \<Longrightarrow> x div k = q" for x k q :: int
  by (rule int_div_pos_eq[of _ _ _ "x - k * q"]) simp_all

text \<open>The correction \<open>n - n / 4\<close> keeps the quotient below 4: the last day of a cycle belongs to it.\<close>

lemma quarter:
  fixes x k :: int
  assumes "0 \<le> x" and "x \<le> 4 * k" and "0 < k"
  defines "n \<equiv> x div k - x div k div 4"
  shows "0 \<le> n" and "n \<le> 3" and "k * n \<le> x" and "x < k * n + k \<or> n = 3 \<and> x = 4 * k"
proof -
  have q: "k * (x div k) \<le> x" "x < k * (x div k) + k" using assms(3) by (rule div_bounds)+
  have q0: "0 \<le> x div k" using assms by (simp add: pos_imp_zdiv_nonneg_iff)
  have "0 \<le> n \<and> n \<le> 3 \<and> k * n \<le> x \<and> (x < k * n + k \<or> n = 3 \<and> x = 4 * k)"
  proof (cases "x = 4 * k")
    case True
    then show ?thesis using assms(3) by (simp add: n_def)
  next
    case False
    with assms q have "k * (x div k) < k * 4" by linarith
    then have "x div k < 4" using assms(3) by (simp only: mult_less_cancel_left_pos)
    with q0 have "n = x div k" by (simp add: n_def)
    with q q0 \<open>x div k < 4\<close> show ?thesis by simp
  qed
  then show "0 \<le> n" "n \<le> 3" "k * n \<le> x" "x < k * n + k \<or> n = 3 \<and> x = 4 * k" by simp_all
qed

lemma year_day_right:
  assumes "year_day days = (y, yday)"
  shows "days_before_year y + yday = days" and "0 \<le> yday" and "yday < (if is_leap y then 366 else 365)"
proof -
  define a d1 where "a = days div 146097" and "d1 = days mod 146097"
  define b d2 where "b = d1 div 36524 - d1 div 36524 div 4" and "d2 = d1 - 36524 * b"
  define c d3 where "c = d2 div 1461" and "d3 = d2 mod 1461"
  define e where "e = d3 div 365 - d3 div 365 div 4"
  have y: "y = 400 * a + 100 * b + 4 * c + e + 1" and yday: "yday = d3 - 365 * e"
    using assms[unfolded year_day_def Let_def, folded a_def d1_def, folded b_def, folded d2_def, folded c_def d3_def,
        folded e_def] by simp_all
  have "0 \<le> d1" "d1 \<le> 4 * 36524" using pos_mod_bound[of 146097 days] by (simp_all add: d1_def)
  from quarter[OF this] have b: "0 \<le> b" "b \<le> 3" "36524 * b \<le> d1"
      "d1 < 36524 * b + 36524 \<or> b = 3 \<and> d1 = 4 * 36524" unfolding b_def by simp_all
  then have d2: "0 \<le> d2" "d2 < 36524 \<or> b = 3 \<and> d2 \<le> 36524" by (auto simp: d2_def)
  have c: "1461 * c \<le> d2" "d2 < 1461 * c + 1461" "d3 = d2 - 1461 * c"
    using div_bounds[of 1461 d2] minus_mult_div_eq_mod[of d2 1461] by (simp_all add: c_def d3_def)
  then have c0: "0 \<le> c" "c \<le> 24" using d2 by linarith+
  have "0 \<le> d3" "d3 \<le> 4 * 365" using c by linarith+
  from quarter[OF this] have e: "0 \<le> e" "e \<le> 3" "365 * e \<le> d3"
      "d3 < 365 * e + 365 \<or> e = 3 \<and> d3 = 4 * 365" unfolding e_def by simp_all
  have "(y - 1) div 4 = 100 * a + 25 * b + c"
    using y b(1,2) c0 e(1,2) by (intro div_eqI) simp_all
  moreover have "(y - 1) div 100 = 4 * a + b"
    using y b(1,2) c0 e(1,2) by (intro div_eqI) simp_all
  moreover have "(y - 1) div 400 = a"
    using y b(1,2) c0 e(1,2) by (intro div_eqI) simp_all
  moreover have days: "days = 146097 * a + 36524 * b + 1461 * c + d3"
    using c(3) mult_div_mod_eq[of 146097 days] by (simp add: a_def d2_def d1_def)
  ultimately show "days_before_year y + yday = days"
    using y yday by (simp add: days_before_year_def)
  show "0 \<le> yday" using e(3) by (simp add: yday)
  show "yday < (if is_leap y then 366 else 365)"
  proof (cases "e = 3 \<and> d3 = 1460")
    case False
    with e(4) have "yday < 365" by (auto simp: yday)
    then show ?thesis by simp
  next
    case True
    then have "y = 4 * (100 * a + 25 * b + c + 1)" using y by simp
    then have "y mod 4 = 0" by simp
    moreover have "y mod 400 = 0" if "y mod 100 = 0"
    proof -
      have "y = 100 * (4 * a + b) + 4 * c + 4" using y True by simp
      then have "(4 * c + 4) mod 100 = 0" using that by (metis add.assoc mod_mult_self4)
      then have "c = 24" using c0 by (cases "c = 24") simp_all
      with True c(3) d2 have "b = 3" by auto
      with \<open>c = 24\<close> y True have "y = 400 * (a + 1)" by simp
      then show ?thesis by simp
    qed
    ultimately have "is_leap y" by (auto simp: is_leap_def)
    with True show ?thesis by (simp add: yday)
  qed
qed

definition month_day_ok :: "int \<Rightarrow> int \<Rightarrow> bool" where
  "month_day_ok y n =
     (let (m, d) = month_day y n
      in 1 \<le> m \<and> m \<le> 12 \<and> 1 \<le> d \<and> d \<le> days_in y m \<and> days_before y m + (d - 1) = n)"

lemma month_day_tables:
  "list_all (month_day_ok 4) [0..365]" "list_all (month_day_ok 1) [0..364]"
  by code_simp+

lemma month_day_table: "list_all (month_day_ok y) [0..(if is_leap y then 365 else 364)]"
proof -
  have dep: "month_day_ok y = month_day_ok z" if "is_leap y = is_leap z" for z
    unfolding fun_eq_iff month_day_ok_def month_day_def days_in_def days_before_def that by (rule allI) (rule refl)
  have "is_leap 4" "\<not> is_leap 1" by (simp_all add: is_leap_def)
  with dep[of 4] dep[of 1] month_day_tables show ?thesis by (cases "is_leap y") simp_all
qed

lemma month_day_right:
  assumes "month_day y yday = (m, d)" and "0 \<le> yday" and "yday < (if is_leap y then 366 else 365)"
  shows "valid_date y m d" and "days_before y m + (d - 1) = yday"
proof -
  have "yday \<in> set [0..(if is_leap y then 365 else 364)]" using assms(2,3) by (auto split: if_splits)
  with month_day_table[of y] assms(1,2)
  have "1 \<le> m \<and> m \<le> 12 \<and> 1 \<le> d \<and> d \<le> days_in y m \<and> days_before y m + (d - 1) = yday"
    by (force simp: list_all_iff month_day_ok_def Let_def)
  then show "valid_date y m d" "days_before y m + (d - 1) = yday" by (auto simp: valid_date_def)
qed

lemma civil_date_right:
  assumes "civil_date t = (y, m, d)"
  shows "valid_date y m d \<and> day_number y m d = t div civil_day"
proof -
  obtain y' yday where yd: "year_day (t div civil_day) = (y', yday)" by fastforce
  with assms have y: "y' = y" and md: "month_day y yday = (m, d)"
    by (auto simp: civil_date_def Let_def split: prod.splits)
  from year_day_right[OF yd[unfolded y]] month_day_right[OF md]
  show ?thesis by (simp add: day_number_def)
qed

end
