(* ===== verification/Greeting.thy ===== *)
theory Greeting
  imports Wrapper GoTime
begin

text \<open>
  The demo's own tools: \<open>internal/core/domain/greeting.go\<close>,
  \<open>internal/core/services/greeting\_service.go\<close> and the four tool registrations of
  \<open>internal/adapter/primary/mcp/greeting\_tool.go\<close>. A registration is the tool's name, its
  description and the handler given to the MCP SDK: the tool's own handler, or that handler
  wrapped when a ratchet service is given. \<open>ctx\<close>, \<open>req\<close> and the logger are left out.
\<close>

section \<open>Domain\<close>

record GreetingRequest =
  req_name :: string

definition GreetingRequest_Name :: "GreetingRequest \<Rightarrow> string" where
  "GreetingRequest_Name r = req_name r"

definition GreetingRequest_SetName :: "string \<Rightarrow> GreetingRequest \<Rightarrow> GreetingRequest" where
  "GreetingRequest_SetName n r = r\<lparr>req_name := n\<rparr>"

definition GreetingRequest_Validate :: "GreetingRequest \<Rightarrow> error option" where
  "GreetingRequest_Validate r =
     (if req_name r = '''' then Some (NewError ''name cannot be empty'') else None)"

definition GreetingRequest_Greet :: "GreetingRequest \<Rightarrow> string" where
  "GreetingRequest_Greet r = ''Hello, '' @ req_name r @ ''!''"

record GreetingResponse =
  resp_message :: string

definition GreetingResponse_Message :: "GreetingResponse \<Rightarrow> string" where
  "GreetingResponse_Message r = resp_message r"

definition GreetingResponse_SetMessage :: "string \<Rightarrow> GreetingResponse \<Rightarrow> GreetingResponse" where
  "GreetingResponse_SetMessage m r = r\<lparr>resp_message := m\<rparr>"

datatype UserIdentificationRequest = UserIdentificationRequest

record UserIdentificationResponse =
  resp_userName :: string

definition UserIdentificationResponse_UserName :: "UserIdentificationResponse \<Rightarrow> string" where
  "UserIdentificationResponse_UserName r = resp_userName r"

definition UserIdentificationResponse_SetUserName ::
  "string \<Rightarrow> UserIdentificationResponse \<Rightarrow> UserIdentificationResponse" where
  "UserIdentificationResponse_SetUserName n r = r\<lparr>resp_userName := n\<rparr>"

section \<open>Services\<close>

text \<open>The ports \<open>GreetingService\<close> and \<open>UserService\<close>, and their implementations.\<close>

type_synonym GreetingService = "GreetingRequest \<Rightarrow> error + GreetingResponse"
type_synonym UserService = "UserIdentificationRequest \<Rightarrow> error + UserIdentificationResponse"

definition GreetingServiceImpl_Greet :: GreetingService where
  "GreetingServiceImpl_Greet req =
     (case GreetingRequest_Validate req of
        Some err \<Rightarrow> Inl err
      | None \<Rightarrow>
          let resp = \<lparr>resp_message = ''''\<rparr>
          in Inr (GreetingResponse_SetMessage (GreetingRequest_Greet req) resp))"

definition UserServiceImpl_IdentifyUser :: UserService where
  "UserServiceImpl_IdentifyUser req =
     (let resp = \<lparr>resp_userName = ''''\<rparr> in Inr (UserIdentificationResponse_SetUserName ''DemoUser'' resp))"

text \<open>The constructors: the implementations have no fields, so a service is its method.\<close>

definition NewGreetingService :: GreetingService where
  "NewGreetingService = GreetingServiceImpl_Greet"

definition NewUserService :: UserService where
  "NewUserService = UserServiceImpl_IdentifyUser"

section \<open>Tools\<close>

text \<open>A tool result holds the text contents. The zero values of the output types end in \<open>0\<close>.\<close>

record CallToolResult =
  Content :: "string list"

abbreviation GreetingResponse0 :: GreetingResponse where
  "GreetingResponse0 \<equiv> \<lparr>resp_message = ''''\<rparr>"

abbreviation UserIdentificationResponse0 :: UserIdentificationResponse where
  "UserIdentificationResponse0 \<equiv> \<lparr>resp_userName = ''''\<rparr>"

definition greet_handler ::
  "GreetingService \<Rightarrow> (string, CallToolResult, GreetingResponse, 'ts, 'ss, 'rg, 'es) handler" where
  "greet_handler greeting name w =
     (let domainReq = GreetingRequest_SetName name \<lparr>req_name = ''''\<rparr>
      in case greeting domainReq of
           Inl err \<Rightarrow> ((None, GreetingResponse0, Some err), w)
         | Inr resp \<Rightarrow>
             ((Some \<lparr>Content = [GreetingResponse_Message resp]\<rparr>, GreetingResponse0, None), w))"

definition get_user_name_handler ::
  "UserService \<Rightarrow> (unit, CallToolResult, UserIdentificationResponse, 'ts, 'ss, 'rg, 'es) handler" where
  "get_user_name_handler user input w =
     (case user UserIdentificationRequest of
        Inl err \<Rightarrow> ((None, UserIdentificationResponse0, Some err), w)
      | Inr resp \<Rightarrow>
          ((Some \<lparr>Content = [UserIdentificationResponse_UserName resp]\<rparr>, UserIdentificationResponse0, None), w))"

text \<open>The output structs of the last two tools have one text field each.\<close>

record getTimeResponse =
  Time :: string

record getDateResponse =
  Date :: string

definition get_time_handler :: "(unit, CallToolResult, getTimeResponse, 'ts, 'ss, 'rg, 'es) handler" where
  "get_time_handler input w =
     (let (now, w') = time_Now w; resp = \<lparr>Time = Format_RFC3339 now\<rparr>
      in ((Some \<lparr>Content = [Time resp]\<rparr>, resp, None), w'))"

definition get_date_handler :: "(unit, CallToolResult, getDateResponse, 'ts, 'ss, 'rg, 'es) handler" where
  "get_date_handler input w =
     (let (now, w') = time_Now w; resp = \<lparr>Date = Format_date now\<rparr>
      in ((Some \<lparr>Content = [Date resp]\<rparr>, resp, None), w'))"

section \<open>Registration\<close>

record ('inp, 'out, 'ts, 'ss, 'rg, 'es) registered =
  tool_Name :: ToolName
  tool_Description :: string
  tool_Handler :: "'inp \<Rightarrow> ('ts, 'ss, 'rg, 'es) world \<Rightarrow>
    (CallToolResult option \<times> 'out \<times> error option) go_result \<times> ('ts, 'ss, 'rg, 'es) world"

text \<open>The tool's handler as it is, or wrapped when there is a ratchet service.\<close>

definition choose_handler ::
  "'out \<Rightarrow> ToolName \<Rightarrow> ('inp, CallToolResult, 'out, 'ts, 'ss, 'rg, 'es) handler \<Rightarrow>
   ('ts, 'ss, 'rg, 'es) RatchetServiceImpl option \<Rightarrow> 'ss SessionStore \<Rightarrow> 'inp \<Rightarrow> ('ts, 'ss, 'rg, 'es) world \<Rightarrow>
   (CallToolResult option \<times> 'out \<times> error option) go_result \<times> ('ts, 'ss, 'rg, 'es) world" where
  "choose_handler zero tool handler ratchet store =
     (case ratchet of
        None \<Rightarrow> (\<lambda>input w. let (r, w') = handler input w in (Return r, w'))
      | Some svc \<Rightarrow> WrapWithRatchet zero tool handler svc store)"

definition RegisterGreetingTool ::
  "GreetingService \<Rightarrow> ('ts, 'ss, 'rg, 'es) RatchetServiceImpl option \<Rightarrow> 'ss SessionStore \<Rightarrow>
   (string, GreetingResponse, 'ts, 'ss, 'rg, 'es) registered" where
  "RegisterGreetingTool greeting ratchet store =
     \<lparr>tool_Name = ''greet'',
      tool_Description = ''Returns a greeting message for the given name'',
      tool_Handler = choose_handler GreetingResponse0 ''greet'' (greet_handler greeting) ratchet store\<rparr>"

definition RegisterGetUserNameTool ::
  "UserService \<Rightarrow> ('ts, 'ss, 'rg, 'es) RatchetServiceImpl option \<Rightarrow> 'ss SessionStore \<Rightarrow>
   (unit, UserIdentificationResponse, 'ts, 'ss, 'rg, 'es) registered" where
  "RegisterGetUserNameTool user ratchet store =
     \<lparr>tool_Name = ''get_user_name'',
      tool_Description = ''Returns the current user's name (for demo purposes, returns 'DemoUser')'',
      tool_Handler = choose_handler UserIdentificationResponse0 ''get_user_name''
        (get_user_name_handler user) ratchet store\<rparr>"

definition RegisterGetTimeTool ::
  "('ts, 'ss, 'rg, 'es) RatchetServiceImpl option \<Rightarrow> 'ss SessionStore \<Rightarrow>
   (unit, getTimeResponse, 'ts, 'ss, 'rg, 'es) registered" where
  "RegisterGetTimeTool ratchet store =
     \<lparr>tool_Name = ''get_time'',
      tool_Description = ''Returns the current time (for demo purposes, returns a fixed time)'',
      tool_Handler = choose_handler \<lparr>Time = ''''\<rparr> ''get_time'' get_time_handler ratchet store\<rparr>"

definition RegisterGetDateTool ::
  "('ts, 'ss, 'rg, 'es) RatchetServiceImpl option \<Rightarrow> 'ss SessionStore \<Rightarrow>
   (unit, getDateResponse, 'ts, 'ss, 'rg, 'es) registered" where
  "RegisterGetDateTool ratchet store =
     \<lparr>tool_Name = ''get_date'',
      tool_Description = ''Returns the current date (for demo purposes, returns a fixed date)'',
      tool_Handler = choose_handler \<lparr>Date = ''''\<rparr> ''get_date'' get_date_handler ratchet store\<rparr>"

section \<open>What the tools answer\<close>

lemma greet_result:
  "GreetingServiceImpl_Greet r =
     (if req_name r = '''' then Inl (NewError ''name cannot be empty'')
      else Inr \<lparr>resp_message = ''Hello, '' @ req_name r @ ''!''\<rparr>)"
  by (simp add: GreetingServiceImpl_Greet_def GreetingRequest_Validate_def GreetingRequest_Greet_def
      GreetingResponse_SetMessage_def)

text \<open>
  The greet tool answers a non-empty name with the greeting text and refuses the empty name
  with an error; it never changes the world it runs in.
\<close>

lemma greet_tool_answer:
  "greet_handler GreetingServiceImpl_Greet name w =
     (if name = '''' then ((None, GreetingResponse0, Some (NewError ''name cannot be empty'')), w)
      else ((Some \<lparr>Content = [''Hello, '' @ name @ ''!'']\<rparr>, GreetingResponse0, None), w))"
  by (simp add: greet_handler_def greet_result GreetingRequest_SetName_def GreetingResponse_Message_def Let_def)

text \<open>
  The get_date tool answers with the text of the UTC date of one clock reading: a date of the
  calendar whose day contains the instant that was read.
\<close>

lemma get_date_answer:
  "\<exists>y m d w'. get_date_handler () w =
     ((Some \<lparr>Content = [date_text y m d]\<rparr>, \<lparr>Date = date_text y m d\<rparr>, None), w') \<and>
     valid_date y m d \<and>
     day_number y m d * civil_day \<le> w_wall w (w_reads w) \<and>
     w_wall w (w_reads w) < (day_number y m d + 1) * civil_day"
proof -
  let ?t = "w_wall w (w_reads w)"
  obtain y m d where ymd: "civil_date ?t = (y, m, d)" by (metis prod_cases3)
  have "civil_day * (?t div civil_day) \<le> ?t" "?t < civil_day * (?t div civil_day) + civil_day"
    by (rule div_bounds, simp add: civil_day_def duration_units)+
  with civil_date_right[OF ymd] show ?thesis
    by (intro exI[of _ y] exI[of _ m] exI[of _ d])
      (simp add: get_date_handler_def time_Now_def Format_date_def ymd algebra_simps)
qed

section \<open>The tools leave the ratchet alone\<close>

lemma tools_leave_ratchet:
  "leaves_ratchet (greet_handler greeting)" "leaves_ratchet (get_user_name_handler user)"
  "leaves_ratchet get_time_handler" "leaves_ratchet get_date_handler"
  by (simp_all add: leaves_ratchet_def greet_handler_def get_user_name_handler_def get_time_handler_def
      get_date_handler_def time_Now_def Let_def split: sum.splits)

end
