(* ===== verification/DemoServer.thy ===== *)
theory DemoServer
  imports Greeting EventStores CryptoRandom YamlLoader MemoryService
begin

text \<open>
  \<open>cmd/mcp-ratchet-demo/main.go\<close>: the broadcaster of WebSocket events, the server's configuration
  with its defaults, the wiring of the ratchet service in \<open>run\<close>, the two observability endpoints
  and the life of a streaming connection. Reading files, decoding YAML and upgrading
  connections are parameters. The bodies of the endpoints are the values that are encoded; their
  JSON is in \<open>Endpoints\<close>, the interleavings of the streams are in \<open>StreamRaces\<close>, and the flags, the
  routes and the life of the whole server are in \<open>DemoMain\<close>.
\<close>

section \<open>The broadcaster\<close>

text \<open>
  A connection is a number. \<open>write_calls\<close> records, for each connection, the calls of \<open>WriteJSON\<close> the
  code makes, in order, and not what arrives: \<open>WriteJSON\<close> is the library's, its errors are ignored by
  \<open>Broadcast\<close>, and it allows one writer at a time. What reaches the client is in \<open>StreamRaces\<close>.
\<close>

datatype ws_message = Connected SessionID | EventMessage Event

record eventBroadcaster =
  connections :: "SessionID \<rightharpoonup> nat set"
  write_calls :: "nat \<Rightarrow> ws_message list"

definition newEventBroadcaster :: eventBroadcaster where
  "newEventBroadcaster = \<lparr>connections = Map.empty, write_calls = (\<lambda>_. [])\<rparr>"

definition WriteJSON :: "nat \<Rightarrow> ws_message \<Rightarrow> eventBroadcaster \<Rightarrow> eventBroadcaster" where
  "WriteJSON conn m b = b\<lparr>write_calls := (write_calls b)(conn := write_calls b conn @ [m])\<rparr>"

definition subscribe :: "SessionID \<Rightarrow> nat \<Rightarrow> eventBroadcaster \<Rightarrow> eventBroadcaster" where
  "subscribe sid conn b =
     (let conns = (case connections b sid of None \<Rightarrow> {} | Some cs \<Rightarrow> cs)
      in b\<lparr>connections := (connections b)(sid \<mapsto> insert conn conns)\<rparr>)"

definition unsubscribe :: "SessionID \<Rightarrow> nat \<Rightarrow> eventBroadcaster \<Rightarrow> eventBroadcaster" where
  "unsubscribe sid conn b =
     (case connections b sid of
        None \<Rightarrow> b
      | Some conns \<Rightarrow>
          let conns = conns - {conn}
          in if conns = {} then b\<lparr>connections := (connections b)(sid := None)\<rparr>
             else b\<lparr>connections := (connections b)(sid \<mapsto> conns)\<rparr>)"

text \<open>The loop over the map sends one message on each connection; their order does not matter.\<close>

definition Broadcast :: "SessionID \<Rightarrow> Event \<Rightarrow> eventBroadcaster \<Rightarrow> eventBroadcaster" where
  "Broadcast sid e b =
     (let conns = (case connections b sid of None \<Rightarrow> {} | Some cs \<Rightarrow> cs)
      in b\<lparr>write_calls := (\<lambda>c. if c \<in> conns then write_calls b c @ [EventMessage e] else write_calls b c)\<rparr>)"

definition event_broadcaster :: "eventBroadcaster EventBroadcaster" where
  "event_broadcaster = \<lparr>bc_Broadcast = Broadcast\<rparr>"

section \<open>Configuration of the server\<close>

record MCPConfig =
  HTTPEnabled :: bool
  WebSocketEnabled :: bool
  WebSocketPath :: string
  Addr :: string
  MCPPath :: string

text \<open>\<open>os.ReadFile\<close> and \<open>yaml.Unmarshal\<close> are the parameters \<open>read_file\<close> and \<open>unmarshal\<close>.\<close>

definition loadMCPConfig ::
  "(string \<Rightarrow> error + string) \<Rightarrow> (string \<Rightarrow> error + MCPConfig) \<Rightarrow> string \<Rightarrow> error + MCPConfig" where
  "loadMCPConfig read_file unmarshal path =
     (case read_file path of
        Inl err \<Rightarrow> Inl (WrapError ''failed to read MCP config'' err)
      | Inr data \<Rightarrow>
          (case unmarshal data of
             Inl err \<Rightarrow> Inl (WrapError ''failed to parse MCP config'' err)
           | Inr cfg \<Rightarrow>
               let cfg = (if WebSocketPath cfg = '''' then cfg\<lparr>WebSocketPath := ''/observability/stream''\<rparr> else cfg);
                   cfg = (if Addr cfg = '''' then cfg\<lparr>Addr := '':8080''\<rparr> else cfg);
                   cfg = (if MCPPath cfg = '''' then cfg\<lparr>MCPPath := ''/mcp''\<rparr> else cfg)
               in Inr cfg))"

text \<open>A configuration that was loaded has a path and an address everywhere.\<close>

lemma loadMCPConfig_complete:
  "loadMCPConfig read_file unmarshal path = Inr cfg \<Longrightarrow>
   WebSocketPath cfg \<noteq> '''' \<and> Addr cfg \<noteq> '''' \<and> MCPPath cfg \<noteq> ''''"
  by (auto simp: loadMCPConfig_def Let_def if_distrib[of Addr] if_distrib[of MCPPath] if_distrib[of WebSocketPath]
      split: sum.splits if_splits)

section \<open>Wiring\<close>

text \<open>
  The event store of the demo works on the memory store's state and the broadcaster's; without
  WebSockets the second is never touched.
\<close>

definition plain_event_store :: "(MemoryEventStore \<times> eventBroadcaster) EventStore" where
  "plain_event_store =
     \<lparr>es_Store = (\<lambda>e st. let (err, m) = es_Store memory_event_store e (fst st) in (err, m, snd st)),
      es_GetEvents = (\<lambda>sid flt st. es_GetEvents memory_event_store sid flt (fst st)),
      es_GetStats = (\<lambda>st. es_GetStats memory_event_store (fst st))\<rparr>"

definition demo_event_store :: "bool \<Rightarrow> (MemoryEventStore \<times> eventBroadcaster) EventStore" where
  "demo_event_store websocket =
     (if websocket then NewBroadcastingEventStore memory_event_store (Some event_broadcaster)
      else plain_event_store)"

record flags =
  flag_addr :: string
  flag_path :: string
  flag_ratchetConfig :: string
  flag_mcpConfig :: string

text \<open>The defaults used when the server's configuration cannot be loaded.\<close>

definition mcp_config ::
  "(string \<Rightarrow> error + string) \<Rightarrow> (string \<Rightarrow> error + MCPConfig) \<Rightarrow> flags \<Rightarrow> MCPConfig" where
  "mcp_config read_file unmarshal fl =
     (case loadMCPConfig read_file unmarshal (flag_mcpConfig fl) of
        Inr cfg \<Rightarrow> cfg
      | Inl err \<Rightarrow> \<lparr>HTTPEnabled = False, WebSocketEnabled = False,
                   WebSocketPath = ''/observability/stream'',
                   Addr = flag_addr fl, MCPPath = flag_path fl\<rparr>)"

type_synonym demo_svc =
  "(MemoryTokenStore, MemorySessionStore, entropy, MemoryEventStore \<times> eventBroadcaster) RatchetServiceImpl"

text \<open>\<open>for _, rule := range fullCfg.Rules\<close>: the first failing registration ends the setup.\<close>

fun register_rules :: "Rule list \<Rightarrow> demo_svc \<Rightarrow> error + demo_svc" where
  "register_rules [] svc = Inr svc"
| "register_rules (rule # rs) svc =
     (case RegisterRule rule svc of
        (Some err, svc') \<Rightarrow> Inl (WrapError (''failed to register rule for tool '' @ Tool rule) err)
      | (None, svc') \<Rightarrow> register_rules rs svc')"

text \<open>
  The part of \<open>run\<close> that builds the service: \<open>None\<close> when no ratchet configuration is given. The
  result holds the event store's initial state too.
\<close>

definition setup_ratchet ::
  "(string \<Rightarrow> error + string) \<Rightarrow> (string \<Rightarrow> error + config) \<Rightarrow> (string list \<Rightarrow> string list) \<Rightarrow> MCPConfig \<Rightarrow> flags \<Rightarrow>
   error + (demo_svc \<times> MemoryEventStore \<times> eventBroadcaster) option" where
  "setup_ratchet open_file decode shuffle mcpCfg fl =
     (if flag_ratchetConfig fl = '''' then Inr None
      else
        let configLoader = NewYAMLConfigLoader decode shuffle
        in case open_file (flag_ratchetConfig fl) of
          Inl err \<Rightarrow> Inl (WrapError ''failed to open ratchet config'' err)
        | Inr configFile \<Rightarrow>
            (case cl_LoadConfig configLoader configFile of
               Inl err \<Rightarrow> Inl (WrapError ''failed to load ratchet configuration'' err)
             | Inr fullCfg \<Rightarrow>
                 let baseStore = NewMemoryEventStore (RetentionDays (Observability fullCfg));
                     eventStore = demo_event_store (WebSocketEnabled mcpCfg);
                     svc = NewRatchetServiceWithObservability configLoader memory_token_store
                             memory_session_store crypto_random real_clock (Some eventStore)
                 in case register_rules (Rules fullCfg) svc of
                      Inl err \<Rightarrow> Inl err
                    | Inr svc' \<Rightarrow> Inr (Some (svc', baseStore, newEventBroadcaster))))"

section \<open>Observability endpoints\<close>

text \<open>
  What a handler writes: an error status with its text, status 503 with the error object, or
  status 200 with the encoded value.
\<close>

datatype 'a reply = HTTPError nat string | Unavailable string | OK 'a

definition stats_handler ::
  "('ts, 'ss, 'rg, 'es) RatchetServiceImpl \<Rightarrow> ('ts, 'ss, 'rg, 'es) world \<Rightarrow> EventStats reply" where
  "stats_handler svc w =
     (case GetObservabilityStats svc w of
        Inl err \<Rightarrow> HTTPError 500 (''failed to get stats: '' @ Error err)
      | Inr None \<Rightarrow> Unavailable ''observability disabled''
      | Inr (Some stats) \<Rightarrow> OK stats)"

text \<open>\<open>q\<close> is \<open>r.URL.Query().Get\<close>: a missing parameter is empty.\<close>

definition list_param :: "string \<Rightarrow> string list" where
  "list_param raw = (if raw \<noteq> '''' then map TrimSpace (split_on (CHR '','') raw) else [])"

definition limit_param :: "string \<Rightarrow> 64 word" where
  "limit_param raw =
     (if raw \<noteq> '''' then (case Atoi raw of Some n \<Rightarrow> if n > 0 then word_of_int n else 100 | None \<Rightarrow> 100)
      else 100)"

definition offset_param :: "string \<Rightarrow> 64 word" where
  "offset_param raw =
     (if raw \<noteq> '''' then (case Atoi raw of Some n \<Rightarrow> if n \<ge> 0 then word_of_int n else 0 | None \<Rightarrow> 0)
      else 0)"

definition request_filter :: "(string \<Rightarrow> string) \<Rightarrow> EventFilter" where
  "request_filter q =
     \<lparr>EventTypes = list_param (q ''event_type''), ToolNames = list_param (q ''tool_name''),
      StartTime = 0, EndTime = 0, Limit = limit_param (q ''limit'') + offset_param (q ''offset'')\<rparr>"

text \<open>The slice \<open>events[offset:]\<close>, or the empty slice when the offset is past the end.\<close>

definition apply_offset :: "64 word \<Rightarrow> 'a list \<Rightarrow> 'a list" where
  "apply_offset offset es =
     (if sint offset > 0 \<and> sint offset < int (length es) then drop (nat (sint offset)) es
      else if sint offset \<ge> int (length es) then []
      else es)"

definition events_handler ::
  "('ts, 'ss, 'rg, 'es) RatchetServiceImpl \<Rightarrow> (string \<Rightarrow> string) \<Rightarrow> ('ts, 'ss, 'rg, 'es) world \<Rightarrow>
   Event list reply" where
  "events_handler svc q w =
     (let offset = offset_param (q ''offset'')
      in case GetObservabilityEvents svc (q ''session_id'') (Some (request_filter q)) w of
           Inl err \<Rightarrow> HTTPError 500 (''failed to get events: '' @ Error err)
         | Inr es \<Rightarrow> OK (apply_offset offset es))"

section \<open>Streaming\<close>

text \<open>
  The handler of the streaming endpoint up to its read loop, and its end. \<open>upgrade\<close> is the
  connection that the WebSocket package gives, or its error; \<open>confirmed\<close> tells whether the
  confirmation could be written. The deferred calls run at every return after their \<open>defer\<close>.
\<close>

datatype stream_outcome = BadRequest string | UpgradeFailed error | ConfirmationFailed | Streaming nat

definition stream_close :: "SessionID \<Rightarrow> nat \<Rightarrow> eventBroadcaster \<Rightarrow> eventBroadcaster" where
  "stream_close sid conn b = unsubscribe sid conn b"

definition stream_open ::
  "SessionID \<Rightarrow> error + nat \<Rightarrow> bool \<Rightarrow> eventBroadcaster \<Rightarrow> stream_outcome \<times> eventBroadcaster" where
  "stream_open sid upgrade confirmed b =
     (if sid = '''' then (BadRequest ''session_id required'', b)
      else case upgrade of
        Inl err \<Rightarrow> (UpgradeFailed err, b)
      | Inr conn \<Rightarrow>
          let b = subscribe sid conn b;
              b = WriteJSON conn (Connected sid) b
          in if \<not> confirmed then (ConfirmationFailed, stream_close sid conn b)
             else (Streaming conn, b))"

text \<open>
  The read loop, over what \<open>ReadMessage\<close> answers: messages (\<open>None\<close>) are ignored, the first error
  ends it. \<open>False\<close> when the connection is still open after the given answers.
\<close>

fun read_loop :: "error option list \<Rightarrow> bool" where
  "read_loop [] = False"
| "read_loop (None # reads) = read_loop reads"
| "read_loop (Some err # reads) = True"

text \<open>The whole handler when nothing else happens; \<open>True\<close> when it has returned.\<close>

definition stream_handler ::
  "SessionID \<Rightarrow> error + nat \<Rightarrow> bool \<Rightarrow> error option list \<Rightarrow> eventBroadcaster \<Rightarrow> bool \<times> eventBroadcaster" where
  "stream_handler sid upgrade confirmed reads b =
     (case stream_open sid upgrade confirmed b of
        (Streaming conn, b) \<Rightarrow> if read_loop reads then (True, stream_close sid conn b) else (False, b)
      | (outcome, b) \<Rightarrow> (True, b))"

section \<open>The event store of the demo\<close>

interpretation des: event_store "demo_event_store websocket" "events \<circ> fst" for websocket
proof (cases websocket)
  case True
  then show "event_store (demo_event_store websocket) (events \<circ> fst)"
    by (simp add: demo_event_store_def bes.event_store_axioms)
next
  case False
  have "es_Store memory_event_store e m = (None, m\<lparr>events := events m @ [e]\<rparr>)" for e m
    by (simp add: memory_event_store_def MemoryEventStore_Store_def)
  then have "event_store plain_event_store (events \<circ> fst)"
    by unfold_locales (simp_all add: plain_event_store_def mes.event_query mes.event_stats)
  with False show "event_store (demo_event_store websocket) (events \<circ> fst)"
    by (simp add: demo_event_store_def)
qed

section \<open>Pagination\<close>

lemma sint64: "int64_min \<le> n \<Longrightarrow> n \<le> int64_max \<Longrightarrow> sint (word_of_int n :: 64 word) = n"
  by (simp add: signed_of_int int64_min_def int64_max_def signed_take_bit_int_eq_self)

lemma limit_param_pos: "0 < sint (limit_param raw)"
  by (auto simp: limit_param_def sint64 dest: Atoi_int64 split: option.splits)

lemma offset_param_nonneg: "0 \<le> sint (offset_param raw)"
  by (auto simp: offset_param_def sint64 dest: Atoi_int64 split: option.splits)

text \<open>
  The sum of limit and offset may wrap around; it is then negative, and the query has no limit.
\<close>

lemma sum_or_wrap:
  fixes a b :: "64 word"
  assumes "0 < sint a" and "0 \<le> sint b"
  shows "sint (a + b) = sint a + sint b \<or> sint (a + b) < 0 \<and> 2 ^ 63 \<le> sint a + sint b"
proof -
  let ?x = "sint a + sint b"
  have "sint a < 2 ^ 63" "sint b < 2 ^ 63"
    using sint_less[of a] sint_less[of b] by simp_all
  then have le: "?x < 2 ^ 64" by simp
  have eq: "sint (a + b) = (?x + 2 ^ 63) mod 2 ^ 64 - 2 ^ 63"
    by (simp add: sint_word_add signed_take_bit_eq_take_bit_shift take_bit_eq_mod)
  show ?thesis
  proof (cases "?x < 2 ^ 63")
    case True
    with assms have "(?x + 2 ^ 63) mod 2 ^ 64 = ?x + 2 ^ 63" by (intro mod_pos_pos_trivial) simp_all
    with eq show ?thesis by simp
  next
    case False
    then have "(?x + 2 ^ 63 - 2 ^ 64) mod 2 ^ 64 = ?x + 2 ^ 63 - 2 ^ 64"
      using le by (intro mod_pos_pos_trivial) simp_all
    then have "(?x + 2 ^ 63) mod 2 ^ 64 = ?x + 2 ^ 63 - 2 ^ 64" by (metis mod_add_self2 diff_add_cancel)
    with eq le False show ?thesis by simp
  qed
qed

text \<open>
  C33: Pagination. With fewer than 2^63 matching events, the events endpoint answers with the
  requested page: the matching events in the order they were stored, the first \<open>offset\<close> skipped,
  at most \<open>limit\<close> of the rest. The sum \<open>limit + offset\<close> that it queries with may wrap around;
  the page is the right one all the same.
\<close>

theorem events_page:
  assumes "eventStore svc = Some (demo_event_store websocket)"
    and "int (length (filter (\<lambda>e. EvSession e = q ''session_id'' \<and> admits (Some (request_filter q)) e)
                (events (fst (w_es w))))) < 2 ^ 63"
  shows "events_handler svc q w =
    OK (take (nat (sint (limit_param (q ''limit''))))
         (drop (nat (sint (offset_param (q ''offset''))))
           (filter (\<lambda>e. EvSession e = q ''session_id'' \<and> admits (Some (request_filter q)) e)
             (events (fst (w_es w))))))"
proof -
  let ?l = "limit_param (q ''limit'')" and ?o = "offset_param (q ''offset'')"
  let ?es = "filter (\<lambda>e. EvSession e = q ''session_id'' \<and> admits (Some (request_filter q)) e)
             (events (fst (w_es w)))"
  have l: "0 < sint ?l" and o: "0 \<le> sint ?o" by (rule limit_param_pos, rule offset_param_nonneg)
  have "events_handler svc q w = OK (apply_offset ?o (cap (Some (request_filter q)) ?es))"
    using assms(1)
    by (simp add: events_handler_def GetObservabilityEvents_def des.event_query select_events_def)
  also have "apply_offset ?o (cap (Some (request_filter q)) ?es) = take (nat (sint ?l)) (drop (nat (sint ?o)) ?es)"
  proof -
    from sum_or_wrap[OF l o] have "cap (Some (request_filter q)) ?es = take (nat (sint ?l + sint ?o)) ?es"
    proof
      assume "sint (?l + ?o) = sint ?l + sint ?o"
      with l o show ?thesis by (simp add: cap_def request_filter_def)
    next
      assume wrap: "sint (?l + ?o) < 0 \<and> 2 ^ 63 \<le> sint ?l + sint ?o"
      have "int (length ?es) \<le> sint ?l + sint ?o"
        by (intro order.strict_implies_order[OF less_le_trans[OF assms(2) conjunct2[OF wrap]]])
      then have "length ?es \<le> nat (sint ?l + sint ?o)" using l o by (simp add: le_nat_iff)
      with wrap show ?thesis by (simp add: cap_def request_filter_def)
    qed
    moreover have "nat (sint ?l + sint ?o) = nat (sint ?l) + nat (sint ?o)" using l o by simp
    moreover have "apply_offset ?o xs = drop (nat (sint ?o)) xs" for xs :: "Event list"
      using o by (auto simp: apply_offset_def)
    ultimately show ?thesis by (simp add: take_drop add.commute)
  qed
  finally show ?thesis .
qed

definition ex_event :: "EventID \<Rightarrow> SessionID \<Rightarrow> Event" where
  "ex_event i sid = \<lparr>EvID = i, EvType = EventTypeToolCallSuccess, EvSession = sid, EvTool = ''greet'',
                     EvToken = '''', Timestamp = 5, Metadata = Map.empty\<rparr>"

definition ex_query :: "string \<Rightarrow> string" where
  "ex_query k = (if k = ''session_id'' then ''s'' else if k = ''limit'' then ''9223372036854775807''
                 else if k = ''offset'' then ''1'' else '''')"

definition ex_demo_svc :: "unit \<Rightarrow> demo_svc" where
  "ex_demo_svc _ = NewRatchetServiceWithObservability (NewYAMLConfigLoader (\<lambda>_. Inl (NewError '''')) id)
     memory_token_store memory_session_store crypto_random real_clock (Some (demo_event_store True))"

text \<open>The witness asks for a page whose limit and offset wrap around.\<close>

theorem events_page_witness:
  "events_handler (ex_demo_svc ()) ex_query
     (fresh_world (\<lambda>_. 0) (\<lambda>_. '''') \<lparr>rand_answers = (\<lambda>_. Inr []), rand_calls = 0\<rparr>
       ((NewMemoryEventStore 0)\<lparr>events := [ex_event ''1'' ''s'', ex_event ''2'' ''t'', ex_event ''3'' ''s'']\<rparr>,
        newEventBroadcaster)) = OK [ex_event ''3'' ''s'']"
proof -
  have l: "limit_param (ex_query ''limit'') = 9223372036854775807" and o: "offset_param (ex_query ''offset'') = 1"
    by code_simp+
  have "admits (Some (request_filter ex_query)) (ex_event i sid)" for i sid
    by (simp add: ex_event_def ex_query_def admits_def request_filter_def list_param_def)
  moreover have "EvSession (ex_event i sid) = sid" for i sid by (simp add: ex_event_def)
  moreover have "ex_query ''session_id'' = ''s''" by (simp add: ex_query_def)
  ultimately have m: "filter (\<lambda>e. EvSession e = ex_query ''session_id'' \<and> admits (Some (request_filter ex_query)) e)
      [ex_event ''1'' ''s'', ex_event ''2'' ''t'', ex_event ''3'' ''s''] = [ex_event ''1'' ''s'', ex_event ''3'' ''s'']"
    by simp
  let ?w = "fresh_world (\<lambda>_. 0) (\<lambda>_. '''') \<lparr>rand_answers = (\<lambda>_. Inr []), rand_calls = 0\<rparr>
       ((NewMemoryEventStore 0)\<lparr>events := [ex_event ''1'' ''s'', ex_event ''2'' ''t'', ex_event ''3'' ''s'']\<rparr>,
        newEventBroadcaster)"
  have ev: "events (fst (w_es ?w)) = [ex_event ''1'' ''s'', ex_event ''2'' ''t'', ex_event ''3'' ''s'']"
    by (simp add: fresh_world_def)
  have "eventStore (ex_demo_svc ()) = Some (demo_event_store True)"
    by (simp add: ex_demo_svc_def NewRatchetServiceWithObservability_def)
  from events_page[OF this, where q = ex_query and w = ?w, unfolded ev m l o] show ?thesis by simp
qed

section \<open>Setting up the service\<close>

lemma register_rules_valid:
  "\<forall>r\<in>set rs. Rule_Validate r = None \<Longrightarrow> register_rules rs svc = Inr (svc\<lparr>rules := rules svc @ rs\<rparr>)"
  by (induction rs arbitrary: svc) (simp_all add: RegisterRule_def)

lemma LoadConfig_rules_valid:
  "cl_LoadConfig (NewYAMLConfigLoader decode shuffle) src = Inr cfg \<Longrightarrow> r \<in> set (Rules cfg) \<Longrightarrow>
   Rule_Validate r = None"
  using ycl.load_valid[of decode shuffle src "Rules cfg"] ycl.loadconfig_rules[of decode shuffle src] by auto

lemma setup_ratchet_eq:
  "setup_ratchet open_file decode shuffle mcpCfg fl =
     (if flag_ratchetConfig fl = '''' then Inr None
      else case open_file (flag_ratchetConfig fl) of
        Inl err \<Rightarrow> Inl (WrapError ''failed to open ratchet config'' err)
      | Inr src \<Rightarrow>
          (case LoadConfig decode src of
             Inl err \<Rightarrow> Inl (WrapError ''failed to load ratchet configuration'' err)
           | Inr cfg \<Rightarrow>
               Inr (Some (memory_service (NewYAMLConfigLoader decode shuffle) crypto_random real_clock
                            (Some (demo_event_store (WebSocketEnabled mcpCfg))) (Rules cfg),
                          NewMemoryEventStore (RetentionDays (Observability cfg)), newEventBroadcaster))))"
proof -
  have load: "cl_LoadConfig (NewYAMLConfigLoader decode shuffle) = LoadConfig decode"
    by (simp add: NewYAMLConfigLoader_def)
  have "register_rules (Rules cfg) svc = Inr (svc\<lparr>rules := rules svc @ Rules cfg\<rparr>)"
    if "LoadConfig decode src = Inr cfg" for src cfg svc
    using LoadConfig_rules_valid[of decode shuffle src cfg] that by (intro register_rules_valid) (simp add: load)
  then show ?thesis
    by (simp add: setup_ratchet_def load Let_def memory_service_def NewRatchetServiceWithObservability_def
        split: sum.splits)
qed

text \<open>
  Once the configuration has been loaded, registering its rules cannot fail: \<open>run\<close> ends up with
  the service over the in-memory stores, the cryptographic generator and the system clock, with
  the rules of the configuration in their order. The setup fails only when the file cannot be
  opened or the configuration does not load.
\<close>

theorem setup_ratchet_result:
  "setup_ratchet open_file decode shuffle mcpCfg fl =
     (if flag_ratchetConfig fl = '''' then Inr None
      else case open_file (flag_ratchetConfig fl) of
        Inl err \<Rightarrow> Inl (WrapError ''failed to open ratchet config'' err)
      | Inr src \<Rightarrow>
          (case LoadConfig decode src of
             Inl err \<Rightarrow> Inl (WrapError ''failed to load ratchet configuration'' err)
           | Inr cfg \<Rightarrow>
               Inr (Some (memory_service (NewYAMLConfigLoader decode shuffle) crypto_random real_clock
                            (Some (demo_event_store (WebSocketEnabled mcpCfg))) (Rules cfg),
                          NewMemoryEventStore (RetentionDays (Observability cfg)), newEventBroadcaster))))"
  by (rule setup_ratchet_eq)

definition circular_config :: config where
  "circular_config =
     \<lparr>cfg_Rules =
        [\<lparr>rc_Tool = ''a'', rc_Prerequisite = ''b'', rc_Expiry = '''', rc_ErrorMessage = '''', rc_OneTimeUse = False\<rparr>,
         \<lparr>rc_Tool = ''b'', rc_Prerequisite = ''a'', rc_Expiry = '''', rc_ErrorMessage = '''', rc_OneTimeUse = False\<rparr>],
      cfg_Observability = \<lparr>Enabled = True, StorageType = '''', RetentionDays = 0\<rparr>\<rparr>"

text \<open>
  C29: The demo server accepts a circular configuration: \<open>run\<close> loads it without \<open>Validate\<close> and
  registers both rules, although the loader's validation rejects them and \<open>LoadConfiguration\<close>
  would refuse the same file.
\<close>

theorem setup_accepts_circle:
  "\<exists>svc es b. setup_ratchet (\<lambda>_. Inr ''file'') (\<lambda>_. Inr circular_config) id mcpCfg
      \<lparr>flag_addr = '':8080'', flag_path = ''/mcp'', flag_ratchetConfig = ''ratchet.yaml'', flag_mcpConfig = ''''\<rparr>
      = Inr (Some (svc, es, b)) \<and>
    cl_Validate (configLoader svc) (rules svc) = Some ErrCircularDependency \<and>
    fst (LoadConfiguration ''file'' svc) = Inl (WrapError ''rule validation failed'' ErrCircularDependency)"
proof -
  let ?rs = "[\<lparr>Tool = ''a'', Prerequisite = ''b'', Expiry = 5 * Minute, ErrorMessage = '''', OneTimeUse = False\<rparr>,
    \<lparr>Tool = ''b'', Prerequisite = ''a'', Expiry = 5 * Minute, ErrorMessage = '''', OneTimeUse = False\<rparr>]"
  let ?cl = "NewYAMLConfigLoader (\<lambda>_. Inr circular_config) id"
  have load: "LoadConfig (\<lambda>_. Inr circular_config) ''file'' =
      Inr \<lparr>Rules = ?rs, Observability = cfg_Observability circular_config\<rparr>"
    by (simp add: LoadConfig_def circular_config_def Rule_Validate_def ToolName_Validate_def)
  have "(''a'', ''a'') \<in> (dependencies ?rs)\<^sup>+"
    by (rule trancl_into_trancl[OF r_into_trancl, of _ "''b''"]) (simp_all add: dependencies_def)
  then have circle: "cl_Validate ?cl ?rs = Some ErrCircularDependency"
    using ycl.validate_acyclic[of _ id ?rs] by (auto simp: acyclic_def)
  have "cl_Load ?cl ''file'' = Inr ?rs"
    using ycl.loadconfig_rules[of "\<lambda>_. Inr circular_config" id "''file''"] load by (simp add: NewYAMLConfigLoader_def)
  with circle show ?thesis
    unfolding setup_ratchet_eq by (simp add: load LoadConfiguration_def)
qed

section \<open>Streaming\<close>

text \<open>
  What can happen while connections are open, one operation at a time: connecting, disconnecting,
  an event being stored.
\<close>

datatype stream_op = Connect SessionID "error + nat" bool | Disconnect SessionID nat | Publish Event

fun stream_step :: "stream_op \<Rightarrow> MemoryEventStore \<times> eventBroadcaster \<Rightarrow> MemoryEventStore \<times> eventBroadcaster" where
  "stream_step (Connect sid upgrade confirmed) (m, b) = (m, snd (stream_open sid upgrade confirmed b))"
| "stream_step (Disconnect sid conn) (m, b) = (m, stream_close sid conn b)"
| "stream_step (Publish e) st = snd (es_Store (demo_event_store True) e st)"

fun touches :: "nat \<Rightarrow> stream_op \<Rightarrow> bool" where
  "touches c (Connect sid upgrade confirmed) = (upgrade = Inr c)"
| "touches c (Disconnect sid conn) = (conn = c)"
| "touches c (Publish e) = False"

definition subscribed :: "eventBroadcaster \<Rightarrow> SessionID \<Rightarrow> nat \<Rightarrow> bool" where
  "subscribed b sid c \<longleftrightarrow> (case connections b sid of None \<Rightarrow> False | Some cs \<Rightarrow> c \<in> cs)"

lemma subscribed_subscribe:
  "subscribed (subscribe sid c b) sid' c' \<longleftrightarrow> subscribed b sid' c' \<or> (sid' = sid \<and> c' = c)"
  by (auto simp: subscribed_def subscribe_def Let_def split: option.splits)

lemma subscribed_unsubscribe:
  "subscribed (unsubscribe sid c b) sid' c' \<longleftrightarrow> subscribed b sid' c' \<and> \<not> (sid' = sid \<and> c' = c)"
  by (auto simp: subscribed_def unsubscribe_def Let_def split: option.splits if_splits)

lemma write_calls_same [simp]:
  "write_calls (subscribe sid c b) = write_calls b" "write_calls (unsubscribe sid c b) = write_calls b"
  by (simp_all add: subscribe_def unsubscribe_def Let_def split: option.splits)

lemma subscribed_WriteJSON [simp]: "subscribed (WriteJSON c m b) = subscribed b"
  by (simp add: fun_eq_iff subscribed_def WriteJSON_def)

lemma write_calls_WriteJSON: "write_calls (WriteJSON c m b) c' = write_calls b c' @ (if c' = c then [m] else [])"
  by (simp add: WriteJSON_def)

lemma write_calls_Broadcast:
  "write_calls (Broadcast sid e b) c = write_calls b c @ (if subscribed b sid c then [EventMessage e] else [])"
  "subscribed (Broadcast sid e b) = subscribed b"
  by (auto simp: Broadcast_def subscribed_def fun_eq_iff Let_def split: option.splits)

text \<open>No session is kept without a connection.\<close>

definition broadcaster_ok :: "eventBroadcaster \<Rightarrow> bool" where
  "broadcaster_ok b \<longleftrightarrow> (\<forall>sid. connections b sid \<noteq> Some {})"

lemma broadcaster_ok_ops [simp]:
  "broadcaster_ok newEventBroadcaster"
  "broadcaster_ok b \<Longrightarrow> broadcaster_ok (subscribe sid c b)"
  "broadcaster_ok b \<Longrightarrow> broadcaster_ok (unsubscribe sid c b)"
  "broadcaster_ok (WriteJSON c m b) = broadcaster_ok b"
  "broadcaster_ok (Broadcast sid e b) = broadcaster_ok b"
  by (auto simp: broadcaster_ok_def newEventBroadcaster_def subscribe_def unsubscribe_def WriteJSON_def
      Broadcast_def Let_def split: option.splits)

lemma unsubscribe_subscribe:
  assumes "broadcaster_ok b" and "\<not> subscribed b sid c"
  shows "connections (unsubscribe sid c (subscribe sid c b)) = connections b"
proof (cases "connections b sid")
  case None
  then show ?thesis by (simp add: subscribe_def unsubscribe_def fun_upd_idem)
next
  case (Some cs)
  with assms have "cs \<noteq> {}" "c \<notin> cs" by (auto simp: broadcaster_ok_def subscribed_def)
  with Some show ?thesis by (simp add: subscribe_def unsubscribe_def fun_upd_idem)
qed

lemma unsubscribe_WriteJSON: "connections (unsubscribe sid c (WriteJSON c' m b)) = connections (unsubscribe sid c b)"
  by (simp add: unsubscribe_def WriteJSON_def Let_def split: option.splits)

text \<open>
  A streaming request leaves no subscription behind: however the handler returns (no session ID, no
  upgrade, no confirmation, an error while reading), the connections are those from before it.
\<close>

lemma stream_handler_restores:
  assumes "broadcaster_ok b" and "\<And>c. upgrade = Inr c \<Longrightarrow> \<not> subscribed b sid c"
    and "stream_handler sid upgrade confirmed reads b = (True, b')"
  shows "connections b' = connections b"
proof (cases upgrade)
  case (Inl err)
  with assms(3) show ?thesis by (auto simp: stream_handler_def stream_open_def split: if_splits)
next
  case (Inr c)
  have "connections (unsubscribe sid c (WriteJSON c (Connected sid) (subscribe sid c b))) = connections b"
    using unsubscribe_subscribe[OF assms(1) assms(2)[OF Inr]] by (simp add: unsubscribe_WriteJSON)
  with Inr assms(3) show ?thesis
    by (auto simp: stream_handler_def stream_open_def stream_close_def Let_def split: if_splits)
qed

lemma publish_step:
  "stream_step (Publish e) (m, b) = (m\<lparr>events := events m @ [e]\<rparr>, Broadcast (EvSession e) e b)"
  by (simp add: demo_event_store_def NewBroadcastingEventStore_def BroadcastingEventStore_Store_def
      memory_event_store_def MemoryEventStore_Store_def event_broadcaster_def)

declare stream_step.simps(3) [simp del]

lemma stream_open_other:
  "upgrade \<noteq> Inr c \<Longrightarrow> subscribed (snd (stream_open sid upgrade confirmed b)) sid' c = subscribed b sid' c"
  "upgrade \<noteq> Inr c \<Longrightarrow> write_calls (snd (stream_open sid upgrade confirmed b)) c = write_calls b c"
  by (auto simp: stream_open_def stream_close_def Let_def subscribed_subscribe subscribed_unsubscribe
      write_calls_WriteJSON split: sum.splits)

lemma stream_run:
  assumes "\<And>op. op \<in> set ops \<Longrightarrow> \<not> touches c op"
    and "\<And>sid'. subscribed b sid' c \<longleftrightarrow> sid' = sid"
    and "fold stream_step ops (m, b) = (m', b')"
  shows "\<exists>es. events m' = events m @ es \<and>
    write_calls b' c = write_calls b c @ map EventMessage (filter (\<lambda>e. EvSession e = sid) es)"
  using assms
proof (induction ops arbitrary: m b)
  case Nil
  then show ?case by simp
next
  case (Cons op ops)
  have quiet: "\<not> touches c op" using Cons.prems(1) by simp
  show ?case
  proof (cases op)
    case (Connect sid' upgrade confirmed)
    with quiet Cons.prems Cons.IH[of "snd (stream_open sid' upgrade confirmed b)" m] show ?thesis
      by (simp add: stream_open_other)
  next
    case (Disconnect sid' conn)
    with quiet Cons.prems Cons.IH[of "stream_close sid' conn b" m] show ?thesis
      by (auto simp: stream_close_def subscribed_unsubscribe)
  next
    case (Publish e)
    have "\<exists>es. events m' = (events m @ [e]) @ es \<and> write_calls b' c =
        write_calls (Broadcast (EvSession e) e b) c @ map EventMessage (filter (\<lambda>e. EvSession e = sid) es)"
      using Cons.IH[of "Broadcast (EvSession e) e b" "m\<lparr>events := events m @ [e]\<rparr>"] Cons.prems Publish
      by (simp add: publish_step write_calls_Broadcast)
    then obtain es where "events m' = (events m @ [e]) @ es" "write_calls b' c =
        write_calls (Broadcast (EvSession e) e b) c @ map EventMessage (filter (\<lambda>e. EvSession e = sid) es)" by blast
    with Cons.prems(2) show ?thesis
      by (intro exI[of _ "e # es"]) (simp add: write_calls_Broadcast)
  qed
qed

text \<open>
  When operations follow one another, as they do for one request at a time, the calls made for a
  streaming client spell its session's log: the confirmation, then exactly the events of its
  session that are stored while it is connected, each once and in the order of the store, whatever
  other connections do. Operations that interleave give less: that is the subject of \<open>StreamRaces\<close>.
\<close>

theorem stream_is_log:
  assumes "sid \<noteq> ''''" and "\<And>sid'. \<not> subscribed b sid' c" and "\<And>op. op \<in> set ops \<Longrightarrow> \<not> touches c op"
    and "fold stream_step (Connect sid (Inr c) True # ops) (m, b) = (m', b')"
  shows "write_calls b' c = write_calls b c @ [Connected sid] @
    map EventMessage (filter (\<lambda>e. EvSession e = sid) (drop (length (events m)) (events m')))"
proof -
  let ?b = "WriteJSON c (Connected sid) (subscribe sid c b)"
  have "snd (stream_open sid (Inr c) True b) = ?b" using assms(1) by (simp add: stream_open_def Let_def)
  with assms(4) have "fold stream_step ops (m, ?b) = (m', b')" by simp
  from stream_run[OF assms(3) _ this, of sid] assms(2) obtain es where
    "events m' = events m @ es"
    "write_calls b' c = write_calls ?b c @ map EventMessage (filter (\<lambda>e. EvSession e = sid) es)"
    by (auto simp: subscribed_subscribe)
  then show ?thesis by (simp add: write_calls_WriteJSON)
qed

theorem stream_is_log_witness:
  "write_calls (snd (fold stream_step
      [Connect ''s'' (Inr 1) True, Publish (ex_event ''1'' ''s''), Connect ''s'' (Inr 2) True,
       Publish (ex_event ''2'' ''t''), Disconnect ''s'' 2, Publish (ex_event ''3'' ''s'')]
      (NewMemoryEventStore 0, newEventBroadcaster))) 1 =
   [Connected ''s'', EventMessage (ex_event ''1'' ''s''), EventMessage (ex_event ''3'' ''s'')]"
proof -
  let ?ops = "[Publish (ex_event ''1'' ''s''), Connect ''s'' (Inr 2) True,
       Publish (ex_event ''2'' ''t''), Disconnect ''s'' 2, Publish (ex_event ''3'' ''s'')]"
  obtain m' b' where r: "fold stream_step (Connect ''s'' (Inr 1) True # ?ops)
      (NewMemoryEventStore 0, newEventBroadcaster) = (m', b')" by fastforce
  then have "events m' = [ex_event ''1'' ''s'', ex_event ''2'' ''t'', ex_event ''3'' ''s'']"
    by (auto simp add: publish_step NewMemoryEventStore_def)
  moreover have "EvSession (ex_event i sid) = sid" for i sid by (simp add: ex_event_def)
  moreover have "write_calls b' 1 = write_calls newEventBroadcaster 1 @ [Connected ''s''] @
    map EventMessage (filter (\<lambda>e. EvSession e = ''s'') (drop (length (events (NewMemoryEventStore 0))) (events m')))"
    by (rule stream_is_log[OF _ _ _ r])
      (auto simp: subscribed_def newEventBroadcaster_def)
  ultimately have "write_calls b' 1 = [Connected ''s'', EventMessage (ex_event ''1'' ''s''), EventMessage (ex_event ''3'' ''s'')]"
    by (simp add: newEventBroadcaster_def NewMemoryEventStore_def)
  then show ?thesis unfolding r snd_conv .
qed

end
