(* ===== verification/StreamRaces.thy ===== *)
theory StreamRaces
  imports DemoServer "HOL-Library.Multiset" "HOL-Library.Sublist"
begin

text \<open>
  Streaming as it runs: several requests emit events, each through \<open>BroadcastingEventStore.Store\<close>
  and \<open>Broadcast\<close>, while streaming handlers connect and leave. The base store and the broadcaster
  lock separately: \<open>Store\<close> appends under the store's lock, then \<open>Broadcast\<close> takes the read lock of
  the broadcaster, ranges over the connections of the session and calls \<open>WriteJSON\<close> on each;
  \<open>subscribe\<close> and \<open>unsubscribe\<close> take its write lock. The confirmation is written without any lock.

  Each of these is an action of its own, a call of \<open>WriteJSON\<close> two (its begin and its end). The
  read/write lock is that of Go's \<open>sync.RWMutex\<close>: a writer announces itself (\<open>Want\<close>) and waits for the
  readers that hold the lock; until it has released the lock, new readers and new writers wait; and
  the readers that waited for it go before the next writer.

  A call of \<open>WriteJSON\<close> ends in one of the ways of \<open>write_result\<close>. The WebSocket package allows one
  writer at a time on a connection: a call that no other call overlaps sends its message or fails;
  once two calls have overlapped on a connection, anything may reach the client, and a call may
  panic, which ends the broadcast it belongs to. The system remembers, as ghosts, on which
  connections calls have overlapped (\<open>overlapped\<close>) or failed (\<open>failed\<close>), and which connections a
  broadcast that panicked left out (\<open>skipped\<close>).

  A handler carries, as a ghost, how long the log was when it subscribed. The store keeps its
  events (retention off): pruning is left out here.

  Shown: nothing that was not stored is sent to a client that no two writers met on, and nothing of
  its session is missing unless a write failed or a broadcast panicked; nothing is written to a
  connection that has been closed; a broadcast comes to its end. Not kept by the code: writers do
  meet on a connection, a client may get events in another order than the log has, and before the
  confirmation.
\<close>

section \<open>Publishers and handlers\<close>

text \<open>
  A publisher has stored the event; waits for the read lock behind a writer; holds the read lock
  with connections left to serve; or is inside \<open>WriteJSON\<close> on one of them.
\<close>

datatype publisher =
    Quiet
  | Stored Event
  | Blocked Event
  | Sending Event "nat set"
  | Writing Event "nat set" nat

text \<open>A streaming handler, with its session and the ghost.\<close>

datatype stream_phase =
    Unconnected
  | Subscribed SessionID nat
  | Confirming SessionID nat
  | Reading SessionID nat
  | Leaving SessionID nat
  | Closed SessionID

text \<open>
  The write lock is wanted by the handler of connection \<open>waiting\<close>, if any; \<open>wire s c\<close> is what has been
  written on connection \<open>c\<close>, while \<open>write_calls (hub s) c\<close> are the calls that were made.
\<close>

record stream_system =
  base :: MemoryEventStore
  hub :: eventBroadcaster
  pubs :: "publisher list"
  handlers :: "nat \<Rightarrow> stream_phase"
  waiting :: "nat option"
  wire :: "nat \<Rightarrow> ws_message list"
  overlapped :: "nat set"
  failed :: "nat set"
  skipped :: "nat set"

definition stream_start :: "nat \<Rightarrow> stream_system" where
  "stream_start n =
     \<lparr>base = NewMemoryEventStore 0, hub = newEventBroadcaster, pubs = replicate n Quiet,
      handlers = (\<lambda>_. Unconnected), waiting = None, wire = (\<lambda>_. []), overlapped = {}, failed = {}, skipped = {}\<rparr>"

fun read_locks :: "publisher \<Rightarrow> bool" where
  "read_locks (Sending e cs) = True"
| "read_locks (Writing e cs c) = True"
| "read_locks _ = False"

text \<open>The write lock of the broadcaster is free when nobody holds the read lock.\<close>

definition lock_free :: "stream_system \<Rightarrow> bool" where
  "lock_free s \<longleftrightarrow> (\<forall>p\<in>set (pubs s). \<not> read_locks p)"

fun is_blocked :: "publisher \<Rightarrow> bool" where
  "is_blocked (Blocked e) = True"
| "is_blocked _ = False"

text \<open>The calls of \<open>WriteJSON\<close> on connection \<open>c\<close> that have begun and not ended.\<close>

fun writes_to :: "nat \<Rightarrow> publisher \<Rightarrow> bool" where
  "writes_to c (Writing e cs d) = (d = c)"
| "writes_to c _ = False"

definition writers :: "stream_system \<Rightarrow> nat \<Rightarrow> nat" where
  "writers s c = length (filter (writes_to c) (pubs s)) +
     (case handlers s c of Confirming sid k \<Rightarrow> 1 | _ \<Rightarrow> 0)"

section \<open>Calls of WriteJSON\<close>

datatype write_result = Sent | Fails | Garbles "ws_message list" | Panics

text \<open>What such a call puts on the wire; the last two only where calls have overlapped.\<close>

fun on_wire :: "write_result \<Rightarrow> ws_message \<Rightarrow> bool \<Rightarrow> ws_message list option" where
  "on_wire Sent m shared = Some [m]"
| "on_wire Fails m shared = Some []"
| "on_wire (Garbles ms) m shared = (if shared then Some ms else None)"
| "on_wire Panics m shared = (if shared then Some [] else None)"

definition write_begin :: "nat \<Rightarrow> stream_system \<Rightarrow> stream_system" where
  "write_begin c s = (if writers s c = 0 then s else s\<lparr>overlapped := insert c (overlapped s)\<rparr>)"

definition write_end :: "write_result \<Rightarrow> nat \<Rightarrow> ws_message \<Rightarrow> stream_system \<Rightarrow> stream_system option" where
  "write_end r c m s =
     (case on_wire r m (c \<in> overlapped s) of
        None \<Rightarrow> None
      | Some ms \<Rightarrow>
          Some (s\<lparr>hub := WriteJSON c m (hub s), wire := (wire s)(c := wire s c @ ms),
                  failed := (if r = Fails then insert c (failed s) else failed s)\<rparr>))"

section \<open>Actions\<close>

datatype stream_act =
    Emit nat Event
  | Acquire nat
  | WriteBegin nat nat
  | WriteEnd nat write_result
  | Release nat
  | Want nat
  | Join nat SessionID
  | ConfirmBegin nat
  | ConfirmEnd nat write_result
  | Read nat "error option"
  | Leave nat

definition session_conns :: "eventBroadcaster \<Rightarrow> SessionID \<Rightarrow> nat set" where
  "session_conns b sid = (case connections b sid of None \<Rightarrow> {} | Some cs \<Rightarrow> cs)"

text \<open>
  The actions of publisher \<open>i\<close>. \<open>Acquire\<close> is \<open>RLock\<close>, which waits while a writer has announced
  itself. A panic in \<open>WriteJSON\<close> unlocks (the deferred \<open>RUnlock\<close>) and leaves the rest unserved.
\<close>

fun publisher_act :: "stream_act \<Rightarrow> publisher \<Rightarrow> stream_system \<Rightarrow> (publisher \<times> stream_system) option" where
  "publisher_act (Emit i e) Quiet s =
     (case es_Store memory_event_store e (base s) of
        (Some err, m) \<Rightarrow> Some (Quiet, s\<lparr>base := m\<rparr>)
      | (None, m) \<Rightarrow> Some (Stored e, s\<lparr>base := m\<rparr>))"
| "publisher_act (Acquire i) (Stored e) s =
     Some (if waiting s = None then Sending e (session_conns (hub s) (EvSession e)) else Blocked e, s)"
| "publisher_act (Acquire i) (Blocked e) s =
     (if waiting s = None then Some (Sending e (session_conns (hub s) (EvSession e)), s) else None)"
| "publisher_act (WriteBegin i c) (Sending e cs) s =
     (if c \<in> cs then Some (Writing e (cs - {c}) c, write_begin c s) else None)"
| "publisher_act (WriteEnd i r) (Writing e cs c) s =
     (case write_end r c (EventMessage e) s of
        None \<Rightarrow> None
      | Some s \<Rightarrow> Some (if r = Panics then (Quiet, s\<lparr>skipped := skipped s \<union> cs\<rparr>) else (Sending e cs, s)))"
| "publisher_act (Release i) (Sending e cs) s = (if cs = {} then Some (Quiet, s) else None)"
| "publisher_act _ _ _ = None"

text \<open>The handlers that come to a lock: before \<open>subscribe\<close> and before \<open>unsubscribe\<close>.\<close>

fun needs_lock :: "stream_phase \<Rightarrow> bool" where
  "needs_lock Unconnected = True"
| "needs_lock (Leaving sid k) = True"
| "needs_lock _ = False"

text \<open>
  The actions of the handler of connection \<open>c\<close>. \<open>Want\<close> is the begin of \<open>Lock\<close> in \<open>subscribe\<close> or
  \<open>unsubscribe\<close>, possible when no other writer has the lock or waits for it and the readers that the
  last one kept waiting have gone on; \<open>Join\<close> and \<open>Leave\<close> are the rest, up to \<open>Unlock\<close>. \<open>Leave\<close> is the
  deferred \<open>unsubscribe\<close> followed by the deferred \<open>Close\<close>.
\<close>

fun handler_act :: "stream_act \<Rightarrow> stream_phase \<Rightarrow> stream_system \<Rightarrow> (stream_phase \<times> stream_system) option" where
  "handler_act (Want c) h s =
     (if needs_lock h \<and> waiting s = None \<and> list_all (\<lambda>p. \<not> is_blocked p) (pubs s)
      then Some (h, s\<lparr>waiting := Some c\<rparr>) else None)"
| "handler_act (Join c sid) Unconnected s =
     (if sid = '''' \<or> waiting s \<noteq> Some c \<or> \<not> lock_free s then None
      else Some (Subscribed sid (length (events (base s))), s\<lparr>hub := subscribe sid c (hub s), waiting := None\<rparr>))"
| "handler_act (ConfirmBegin c) (Subscribed sid k) s = Some (Confirming sid k, write_begin c s)"
| "handler_act (ConfirmEnd c r) (Confirming sid k) s =
     (case write_end r c (Connected sid) s of
        None \<Rightarrow> None
      | Some s \<Rightarrow> Some (if r = Fails \<or> r = Panics then Leaving sid k else Reading sid k, s))"
| "handler_act (Read c err) (Reading sid k) s =
     Some (case err of None \<Rightarrow> Reading sid k | Some _ \<Rightarrow> Leaving sid k, s)"
| "handler_act (Leave c) (Leaving sid k) s =
     (if waiting s \<noteq> Some c \<or> \<not> lock_free s then None
      else Some (Closed sid, s\<lparr>hub := unsubscribe sid c (hub s), waiting := None\<rparr>))"
| "handler_act _ _ _ = None"

text \<open>Who acts: publisher \<open>Inl i\<close> or the handler of connection \<open>Inr c\<close>.\<close>

fun actor :: "stream_act \<Rightarrow> nat + nat" where
  "actor (Emit i e) = Inl i"
| "actor (Acquire i) = Inl i"
| "actor (WriteBegin i c) = Inl i"
| "actor (WriteEnd i r) = Inl i"
| "actor (Release i) = Inl i"
| "actor (Want c) = Inr c"
| "actor (Join c sid) = Inr c"
| "actor (ConfirmBegin c) = Inr c"
| "actor (ConfirmEnd c r) = Inr c"
| "actor (Read c err) = Inr c"
| "actor (Leave c) = Inr c"

definition stream_do :: "stream_act \<Rightarrow> stream_system \<Rightarrow> stream_system option" where
  "stream_do a s =
     (case actor a of
        Inl i \<Rightarrow>
          if i < length (pubs s)
          then (case publisher_act a (pubs s ! i) s of
                  None \<Rightarrow> None
                | Some (p, s') \<Rightarrow> Some (s'\<lparr>pubs := (pubs s)[i := p]\<rparr>))
          else None
      | Inr c \<Rightarrow>
          (case handler_act a (handlers s c) s of
             None \<Rightarrow> None
           | Some (h, s') \<Rightarrow> Some (s'\<lparr>handlers := (handlers s)(c := h)\<rparr>)))"

text \<open>A list of actions; \<open>None\<close> when one of them is not enabled.\<close>

fun stream_exec :: "stream_act list \<Rightarrow> stream_system \<Rightarrow> stream_system option" where
  "stream_exec [] s = Some s"
| "stream_exec (a # as) s = (case stream_do a s of None \<Rightarrow> None | Some s' \<Rightarrow> stream_exec as s')"

inductive stream_reach :: "nat \<Rightarrow> stream_system \<Rightarrow> bool" for n where
  start: "stream_reach n (stream_start n)"
| step: "stream_reach n s \<Longrightarrow> stream_do a s = Some s' \<Longrightarrow> stream_reach n s'"

lemma stream_exec_append:
  "stream_exec (as @ bs) s = (case stream_exec as s of None \<Rightarrow> None | Some s' \<Rightarrow> stream_exec bs s')"
  by (induction as arbitrary: s) (auto split: option.splits)

lemma reach_exec: "stream_reach n s \<Longrightarrow> stream_exec as s = Some s' \<Longrightarrow> stream_reach n s'"
  by (induction as arbitrary: s) (auto intro: stream_reach.step split: option.splits)

section \<open>Who is connected, and what is in flight\<close>

text \<open>A handler between \<open>subscribe\<close> and \<open>unsubscribe\<close>: its session and the ghost.\<close>

fun joined :: "stream_phase \<Rightarrow> (SessionID \<times> nat) option" where
  "joined (Subscribed sid k) = Some (sid, k)"
| "joined (Confirming sid k) = Some (sid, k)"
| "joined (Reading sid k) = Some (sid, k)"
| "joined (Leaving sid k) = Some (sid, k)"
| "joined _ = None"

text \<open>The session of a handler that has been connected.\<close>

fun phase_session :: "stream_phase \<Rightarrow> SessionID option" where
  "phase_session Unconnected = None"
| "phase_session (Closed sid) = Some sid"
| "phase_session h = map_option fst (joined h)"

fun events_in :: "ws_message list \<Rightarrow> Event list" where
  "events_in [] = []"
| "events_in (EventMessage e # ms) = e # events_in ms"
| "events_in (Connected sid # ms) = events_in ms"

lemma events_in_append [simp]: "events_in (xs @ ys) = events_in xs @ events_in ys"
  by (induction xs rule: events_in.induct) auto

definition sent_events :: "stream_system \<Rightarrow> nat \<Rightarrow> Event list" where
  "sent_events s c = events_in (write_calls (hub s) c)"

definition session_log :: "SessionID \<Rightarrow> Event list \<Rightarrow> Event list" where
  "session_log sid es = filter (\<lambda>e. EvSession e = sid) es"

text \<open>The event a publisher carries, and what it still owes to connection \<open>c\<close> of session \<open>sid\<close>.\<close>

fun carried :: "publisher \<Rightarrow> Event multiset" where
  "carried Quiet = {#}"
| "carried (Stored e) = {#e#}"
| "carried (Blocked e) = {#e#}"
| "carried (Sending e cs) = {#e#}"
| "carried (Writing e cs c) = {#e#}"

fun owed :: "SessionID \<Rightarrow> nat \<Rightarrow> publisher \<Rightarrow> Event multiset" where
  "owed sid c Quiet = {#}"
| "owed sid c (Stored e) = (if EvSession e = sid then {#e#} else {#})"
| "owed sid c (Blocked e) = (if EvSession e = sid then {#e#} else {#})"
| "owed sid c (Sending e cs) = (if c \<in> cs then {#e#} else {#})"
| "owed sid c (Writing e cs d) = (if c \<in> cs then {#e#} else {#}) + (if c = d then {#e#} else {#})"

definition all_carried :: "stream_system \<Rightarrow> Event multiset" where
  "all_carried s = sum_list (map carried (pubs s))"

definition all_owed :: "stream_system \<Rightarrow> SessionID \<Rightarrow> nat \<Rightarrow> Event multiset" where
  "all_owed s sid c = sum_list (map (owed sid c) (pubs s))"

fun targets :: "publisher \<Rightarrow> nat set" where
  "targets (Sending e cs) = cs"
| "targets (Writing e cs c) = insert c cs"
| "targets _ = {}"

lemma sum_list_update_add:
  fixes f :: "'a \<Rightarrow> 'b multiset"
  assumes "i < length xs"
  shows "sum_list (map f (xs[i := y])) + f (xs ! i) = sum_list (map f xs) + f y"
proof -
  have "xs = take i xs @ xs ! i # drop (Suc i) xs" using assms by (rule id_take_nth_drop)
  then have "sum_list (map f xs) = sum_list (map f (take i xs)) + f (xs ! i) + sum_list (map f (drop (Suc i) xs))"
    by (metis append_assoc list.simps(9) map_append sum_list.Cons sum_list.append add.assoc)
  moreover have "sum_list (map f (xs[i := y])) =
      sum_list (map f (take i xs)) + f y + sum_list (map f (drop (Suc i) xs))"
    using assms by (simp add: upd_conv_take_nth_drop add.assoc)
  ultimately show ?thesis by (simp add: ac_simps)
qed

section \<open>The invariant\<close>

definition hub_agrees :: "stream_system \<Rightarrow> bool" where
  "hub_agrees s \<longleftrightarrow>
     (\<forall>c sid. subscribed (hub s) sid c \<longleftrightarrow> (\<exists>k. joined (handlers s c) = Some (sid, k)))"

definition pub_ok :: "eventBroadcaster \<Rightarrow> publisher \<Rightarrow> bool" where
  "pub_ok b p \<longleftrightarrow> finite (targets p) \<and> (\<forall>c\<in>targets p. \<forall>e. e \<in># carried p \<longrightarrow> subscribed b (EvSession e) c)"

definition targets_connected :: "stream_system \<Rightarrow> bool" where
  "targets_connected s \<longleftrightarrow> (\<forall>sid. finite (session_conns (hub s) sid)) \<and> (\<forall>p\<in>set (pubs s). pub_ok (hub s) p)"

definition carried_stored :: "stream_system \<Rightarrow> bool" where
  "carried_stored s \<longleftrightarrow> all_carried s \<subseteq># mset (events (base s))"

definition accounts :: "stream_system \<Rightarrow> nat \<Rightarrow> bool" where
  "accounts s c \<longleftrightarrow>
     (case joined (handlers s c) of
        Some (sid, k) \<Rightarrow>
          (c \<notin> skipped s \<longrightarrow>
             mset (session_log sid (drop k (events (base s)))) \<subseteq># mset (sent_events s c) + all_owed s sid c) \<and>
          mset (sent_events s c) + all_owed s sid c \<subseteq># mset (session_log sid (events (base s)))
      | None \<Rightarrow>
          (case phase_session (handlers s c) of
             None \<Rightarrow> sent_events s c = []
           | Some sid \<Rightarrow> mset (sent_events s c) \<subseteq># mset (session_log sid (events (base s)))))"

section \<open>What an action does\<close>

lemma write_begin_eq: "\<exists>ov. write_begin c s = s\<lparr>overlapped := ov\<rparr> \<and> overlapped s \<subseteq> ov"
  unfolding write_begin_def by (cases "writers s c = 0") (auto intro: exI[of _ "overlapped s"])

lemma write_end_Some:
  "write_end r c m s = Some t \<longleftrightarrow>
   (\<exists>ms. on_wire r m (c \<in> overlapped s) = Some ms \<and>
      t = s\<lparr>hub := WriteJSON c m (hub s), wire := (wire s)(c := wire s c @ ms),
            failed := (if r = Fails then insert c (failed s) else failed s)\<rparr>)"
  by (auto simp: write_end_def split: option.splits)

lemma stream_do_cases [consumes 1, case_names Emit Wait Acquire WriteBegin WriteEnd Release Want Join ConfirmBegin ConfirmEnd Read Leave]:
  assumes "stream_do a s = Some s'"
  obtains
    i e where "a = Emit i e" "i < length (pubs s)" "pubs s ! i = Quiet"
      "s' = s\<lparr>base := (base s)\<lparr>events := events (base s) @ [e]\<rparr>, pubs := (pubs s)[i := Stored e]\<rparr>"
  | i e where "a = Acquire i" "i < length (pubs s)" "pubs s ! i = Stored e" "waiting s \<noteq> None"
      "s' = s\<lparr>pubs := (pubs s)[i := Blocked e]\<rparr>"
  | i e where "a = Acquire i" "i < length (pubs s)" "pubs s ! i = Stored e \<or> pubs s ! i = Blocked e" "waiting s = None"
      "s' = s\<lparr>pubs := (pubs s)[i := Sending e (session_conns (hub s) (EvSession e))]\<rparr>"
  | i e c cs ov where "a = WriteBegin i c" "i < length (pubs s)" "pubs s ! i = Sending e cs" "c \<in> cs"
      "overlapped s \<subseteq> ov" "s' = s\<lparr>overlapped := ov, pubs := (pubs s)[i := Writing e (cs - {c}) c]\<rparr>"
  | i r e c cs ms where "a = WriteEnd i r" "i < length (pubs s)" "pubs s ! i = Writing e cs c"
      "on_wire r (EventMessage e) (c \<in> overlapped s) = Some ms"
      "s' = s\<lparr>hub := WriteJSON c (EventMessage e) (hub s), wire := (wire s)(c := wire s c @ ms),
              failed := (if r = Fails then insert c (failed s) else failed s),
              skipped := (if r = Panics then skipped s \<union> cs else skipped s),
              pubs := (pubs s)[i := if r = Panics then Quiet else Sending e cs]\<rparr>"
  | i e where "a = Release i" "i < length (pubs s)" "pubs s ! i = Sending e {}"
      "s' = s\<lparr>pubs := (pubs s)[i := Quiet]\<rparr>"
  | c where "a = Want c" "needs_lock (handlers s c)" "waiting s = None" "\<forall>p\<in>set (pubs s). \<not> is_blocked p"
      "s' = s\<lparr>waiting := Some c\<rparr>"
  | c sid where "a = Join c sid" "handlers s c = Unconnected" "sid \<noteq> ''''" "waiting s = Some c" "lock_free s"
      "s' = s\<lparr>hub := subscribe sid c (hub s), waiting := None,
              handlers := (handlers s)(c := Subscribed sid (length (events (base s))))\<rparr>"
  | c sid k ov where "a = ConfirmBegin c" "handlers s c = Subscribed sid k" "overlapped s \<subseteq> ov"
      "s' = s\<lparr>overlapped := ov, handlers := (handlers s)(c := Confirming sid k)\<rparr>"
  | c sid k r ms where "a = ConfirmEnd c r" "handlers s c = Confirming sid k"
      "on_wire r (Connected sid) (c \<in> overlapped s) = Some ms"
      "s' = s\<lparr>hub := WriteJSON c (Connected sid) (hub s), wire := (wire s)(c := wire s c @ ms),
              failed := (if r = Fails then insert c (failed s) else failed s),
              handlers := (handlers s)(c := if r = Fails \<or> r = Panics then Leaving sid k else Reading sid k)\<rparr>"
  | c sid k err where "a = Read c err" "handlers s c = Reading sid k"
      "s' = s\<lparr>handlers := (handlers s)(c := case err of None \<Rightarrow> Reading sid k | Some _ \<Rightarrow> Leaving sid k)\<rparr>"
  | c sid k where "a = Leave c" "handlers s c = Leaving sid k" "waiting s = Some c" "lock_free s"
      "s' = s\<lparr>hub := unsubscribe sid c (hub s), waiting := None, handlers := (handlers s)(c := Closed sid)\<rparr>"
proof (cases "actor a")
  case (Inl i)
  with assms obtain p t where i: "i < length (pubs s)" and act: "publisher_act a (pubs s ! i) s = Some (p, t)"
    and s': "s' = t\<lparr>pubs := (pubs s)[i := p]\<rparr>"
    by (auto simp: stream_do_def split: if_splits option.splits)
  show thesis
  proof (cases a)
    case (WriteBegin j c)
    with Inl act obtain e cs where p: "pubs s ! i = Sending e cs" "c \<in> cs" "p = Writing e (cs - {c}) c" "t = write_begin c s"
      by (cases "pubs s ! i") (auto split: if_splits)
    from write_begin_eq[of c s] obtain ov where "overlapped s \<subseteq> ov" "t = s\<lparr>overlapped := ov\<rparr>" unfolding p by blast
    with that(4)[of i c e cs ov] WriteBegin Inl i p s' show thesis by simp
  next
    case (WriteEnd j r)
    with Inl act obtain e cs c u where p: "pubs s ! i = Writing e cs c" "write_end r c (EventMessage e) s = Some u"
      "(p, t) = (if r = Panics then (Quiet, u\<lparr>skipped := skipped u \<union> cs\<rparr>) else (Sending e cs, u))"
      by (cases "pubs s ! i") (auto split: option.splits)
    then obtain ms where "on_wire r (EventMessage e) (c \<in> overlapped s) = Some ms"
      "u = s\<lparr>hub := WriteJSON c (EventMessage e) (hub s), wire := (wire s)(c := wire s c @ ms),
             failed := (if r = Fails then insert c (failed s) else failed s)\<rparr>"
      unfolding write_end_Some by blast
    with that(5)[of i r e cs c ms] WriteEnd Inl i p s' show thesis by (cases "r = Panics") simp_all
  next
    case (Emit j e)
    with Inl act have "pubs s ! i = Quiet" "p = Stored e" "t = s\<lparr>base := (base s)\<lparr>events := events (base s) @ [e]\<rparr>\<rparr>"
      by (cases "pubs s ! i"; simp add: memory_event_store_def MemoryEventStore_Store_def)+
    with that(1)[of i e] Emit Inl i s' show thesis by simp
  next
    case (Acquire j)
    with Inl act obtain e where e: "pubs s ! i = Stored e \<or> pubs s ! i = Blocked e" by (cases "pubs s ! i") auto
    show thesis
    proof (cases "waiting s = None")
      case True
      with e Acquire Inl act have "p = Sending e (session_conns (hub s) (EvSession e))" "t = s" by auto
      with that(3)[of i e] Acquire Inl i e True s' show thesis by simp
    next
      case False
      with e Acquire Inl act have "pubs s ! i = Stored e" "p = Blocked e" "t = s" by auto
      with that(2)[of i e] Acquire Inl i False s' show thesis by simp
    qed
  next
    case (Release j)
    with Inl act obtain e where "pubs s ! i = Sending e {}" "p = Quiet" "t = s"
      by (cases "pubs s ! i") (auto split: if_splits)
    with that(6)[of i e] Release Inl i s' show thesis by simp
  qed (use Inl in simp_all)
next
  case (Inr c)
  with assms obtain h t where act: "handler_act a (handlers s c) s = Some (h, t)"
    and s': "s' = t\<lparr>handlers := (handlers s)(c := h)\<rparr>"
    by (auto simp: stream_do_def split: if_splits option.splits)
  show thesis
  proof (cases a)
    case (ConfirmBegin d)
    with Inr act obtain sid k where h: "handlers s c = Subscribed sid k" "h = Confirming sid k" "t = write_begin c s"
      by (cases "handlers s c") auto
    from write_begin_eq[of c s] obtain ov where "overlapped s \<subseteq> ov" "t = s\<lparr>overlapped := ov\<rparr>" unfolding h by blast
    with that(9)[of c sid k ov] ConfirmBegin Inr h s' show thesis by simp
  next
    case (ConfirmEnd d r)
    with Inr act obtain sid k where h: "handlers s c = Confirming sid k" "write_end r c (Connected sid) s = Some t"
      "h = (if r = Fails \<or> r = Panics then Leaving sid k else Reading sid k)"
      by (cases "handlers s c") (auto split: option.splits)
    then obtain ms where "on_wire r (Connected sid) (c \<in> overlapped s) = Some ms"
      "t = s\<lparr>hub := WriteJSON c (Connected sid) (hub s), wire := (wire s)(c := wire s c @ ms),
             failed := (if r = Fails then insert c (failed s) else failed s)\<rparr>"
      unfolding write_end_Some by blast
    with that(10)[of c r sid k ms] ConfirmEnd Inr h s' show thesis by simp
  next
    case (Want d)
    with Inr act have h: "needs_lock (handlers s c)" "waiting s = None" "\<forall>p\<in>set (pubs s). \<not> is_blocked p"
      "h = handlers s c" "t = s\<lparr>waiting := Some c\<rparr>"
      by (cases "handlers s c"; auto simp: list_all_iff split: if_splits)+
    have "s' = s\<lparr>waiting := Some c\<rparr>" unfolding s' h by simp
    with that(7)[of c] Want Inr h show thesis by simp
  next
    case (Join d sid)
    with Inr act have "handlers s c = Unconnected" "sid \<noteq> ''''" "waiting s = Some c" "lock_free s"
      "h = Subscribed sid (length (events (base s)))" "t = s\<lparr>hub := subscribe sid c (hub s), waiting := None\<rparr>"
      by (cases "handlers s c"; simp split: if_splits)+
    with that(8)[of c sid] Join Inr s' show thesis by simp
  next
    case (Read d err)
    with Inr act obtain sid k where "handlers s c = Reading sid k" "t = s"
      "h = (case err of None \<Rightarrow> Reading sid k | Some _ \<Rightarrow> Leaving sid k)"
      by (cases "handlers s c") auto
    with that(11)[of c err sid k] Read Inr s' show thesis by simp
  next
    case (Leave d)
    with Inr act obtain sid k where "handlers s c = Leaving sid k" "waiting s = Some c" "lock_free s"
      "h = Closed sid" "t = s\<lparr>hub := unsubscribe sid c (hub s), waiting := None\<rparr>"
      by (cases "handlers s c") (auto split: if_splits)
    with that(12)[of c sid k] Leave Inr s' show thesis by simp
  qed (use Inr in simp_all)
qed

section \<open>The invariant is kept\<close>

lemma session_conns_iff: "c \<in> session_conns b sid \<longleftrightarrow> subscribed b sid c"
  by (simp add: session_conns_def subscribed_def split: option.splits)

lemma session_conns_ops [simp]:
  "session_conns (subscribe sid c b) sid' = (if sid' = sid then insert c (session_conns b sid) else session_conns b sid')"
  "session_conns (unsubscribe sid c b) sid' = (if sid' = sid then session_conns b sid - {c} else session_conns b sid')"
  "session_conns (WriteJSON c m b) sid' = session_conns b sid'"
  by (auto simp: session_conns_iff subscribed_subscribe subscribed_unsubscribe)

lemma hub_agrees_cong:
  assumes "hub_agrees s" and "\<And>sid c. subscribed (hub s') sid c = subscribed (hub s) sid c"
    and "\<And>c. joined (handlers s' c) = joined (handlers s c)"
  shows "hub_agrees s'"
  using assms by (simp add: hub_agrees_def)

lemma hub_agrees_step:
  assumes "stream_do a s = Some s'" and "hub_agrees s"
  shows "hub_agrees s'"
  using assms(1)
proof (cases rule: stream_do_cases)
  case (Join c sid)
  with assms(2) show ?thesis by (auto simp: hub_agrees_def subscribed_subscribe)
next
  case (Leave c sid k)
  with assms(2) show ?thesis by (auto simp: hub_agrees_def subscribed_unsubscribe)
qed (rule hub_agrees_cong[OF assms(2)]; simp split: option.splits)+

lemma unlocked_targets: "lock_free s \<Longrightarrow> p \<in> set (pubs s) \<Longrightarrow> targets p = {}"
  by (cases p) (force simp: lock_free_def)+

lemma pub_ok_update:
  assumes "\<forall>p\<in>set ps. pub_ok b p" and "pub_ok b q"
  shows "\<forall>p\<in>set (ps[i := q]). pub_ok b p"
  using assms set_update_subset_insert[of ps i q] by blast

lemma pub_ok_WriteJSON [simp]: "pub_ok (WriteJSON c m b) p = pub_ok b p"
  by (simp add: pub_ok_def)

lemma targets_connected_update:
  assumes "targets_connected s" and "pub_ok (hub s) q" and "hub s' = hub s \<or> hub s' = WriteJSON c m (hub s)"
    and "pubs s' = (pubs s)[i := q]"
  shows "targets_connected s'"
proof -
  have "\<forall>p\<in>set ((pubs s)[i := q]). pub_ok (hub s) p"
    using assms(1,2) by (intro pub_ok_update) (simp_all add: targets_connected_def)
  with assms show ?thesis by (auto simp: targets_connected_def)
qed

lemma targets_connected_step:
  assumes "stream_do a s = Some s'" and "targets_connected s"
  shows "targets_connected s'"
  using assms(1)
proof (cases rule: stream_do_cases)
  case (Emit i e)
  have "pub_ok (hub s) (Stored e)" by (simp add: pub_ok_def)
  from targets_connected_update[OF assms(2) this, of s' _ _ i] Emit show ?thesis by simp
next
  case (Wait i e)
  have "pub_ok (hub s) (Blocked e)" by (simp add: pub_ok_def)
  from targets_connected_update[OF assms(2) this, of s' _ _ i] Wait show ?thesis by simp
next
  case (Acquire i e)
  from assms(2) have "pub_ok (hub s) (Sending e (session_conns (hub s) (EvSession e)))"
    by (auto simp: targets_connected_def pub_ok_def session_conns_iff)
  from targets_connected_update[OF assms(2) this, of s' _ _ i] Acquire show ?thesis by simp
next
  case (WriteBegin i e c cs ov)
  with assms(2) have "pub_ok (hub s) (Sending e cs)" by (metis nth_mem targets_connected_def)
  with WriteBegin have "pub_ok (hub s) (Writing e (cs - {c}) c)" by (auto simp: pub_ok_def)
  then show ?thesis
    by (rule targets_connected_update[OF assms(2), of _ s' _ _ i]) (simp_all add: WriteBegin)
next
  case (WriteEnd i r e c cs ms)
  with assms(2) have "pub_ok (hub s) (Writing e cs c)" by (metis nth_mem targets_connected_def)
  then have "pub_ok (hub s) (if r = Panics then Quiet else Sending e cs)" by (auto simp: pub_ok_def)
  then show ?thesis
    by (rule targets_connected_update[OF assms(2), of _ s' c "EventMessage e" i]) (simp_all add: WriteEnd)
next
  case (Release i e)
  have "pub_ok (hub s) Quiet" by (simp add: pub_ok_def)
  from targets_connected_update[OF assms(2) this, of s' _ _ i] Release show ?thesis by simp
next
  case (Join c sid)
  with assms(2) show ?thesis by (auto simp: targets_connected_def pub_ok_def unlocked_targets)
next
  case (Leave c sid k)
  with assms(2) show ?thesis by (auto simp: targets_connected_def pub_ok_def unlocked_targets)
qed (use assms(2) in \<open>simp_all add: targets_connected_def\<close>)

lemma all_carried_update:
  "i < length (pubs s) \<Longrightarrow> all_carried (t\<lparr>pubs := (pubs s)[i := p]\<rparr>) + carried (pubs s ! i) = all_carried s + carried p"
  by (simp add: all_carried_def sum_list_update_add)

lemma all_owed_update:
  "i < length (pubs s) \<Longrightarrow>
   all_owed (t\<lparr>pubs := (pubs s)[i := p]\<rparr>) sid c + owed sid c (pubs s ! i) = all_owed s sid c + owed sid c p"
  by (simp add: all_owed_def sum_list_update_add)

lemma carried_stored_update:
  assumes "carried_stored s" and "i < length (pubs s)" and "carried p \<subseteq># carried (pubs s ! i)"
    and "pubs s' = (pubs s)[i := p]" and "events (base s') = events (base s)"
  shows "carried_stored s'"
proof -
  have "all_carried s' + carried (pubs s ! i) = all_carried s + carried p"
    using sum_list_update_add[OF assms(2)] assms(4) by (simp add: all_carried_def)
  also have "\<dots> \<subseteq># all_carried s + carried (pubs s ! i)" by (rule subset_mset.add_left_mono[OF assms(3)])
  finally have "all_carried s' \<subseteq># all_carried s" by simp
  with assms(1,5) show ?thesis by (auto simp: carried_stored_def)
qed

lemma carried_stored_step:
  assumes "stream_do a s = Some s'" and "carried_stored s"
  shows "carried_stored s'"
  using assms(1)
proof (cases rule: stream_do_cases)
  case (Emit i e)
  then show ?thesis using all_carried_update[of i s "Stored e"] assms(2) by (simp add: carried_stored_def)
next
  case (Wait i e)
  then show ?thesis by (intro carried_stored_update[OF assms(2), of i "Blocked e"]) simp_all
next
  case (Acquire i e)
  then show ?thesis
    by (intro carried_stored_update[OF assms(2), of i "Sending e (session_conns (hub s) (EvSession e))"]) auto
next
  case (WriteBegin i e c cs ov)
  then show ?thesis by (intro carried_stored_update[OF assms(2), of i "Writing e (cs - {c}) c"]) simp_all
next
  case (WriteEnd i r e c cs ms)
  then show ?thesis
    by (intro carried_stored_update[OF assms(2), of i "if r = Panics then Quiet else Sending e cs"]) simp_all
next
  case (Release i e)
  then show ?thesis by (intro carried_stored_update[OF assms(2), of i Quiet]) simp_all
qed (use assms(2) in \<open>simp_all add: carried_stored_def all_carried_def\<close>)

lemma accounts_cong:
  assumes "sent_events s' c = sent_events s c" and "\<And>sid k. joined (handlers s c) = Some (sid, k) \<Longrightarrow> all_owed s' sid c = all_owed s sid c"
    and "events (base s') = events (base s)" and "joined (handlers s' c) = joined (handlers s c)"
    and "phase_session (handlers s' c) = phase_session (handlers s c)" and "skipped s' = skipped s"
  shows "accounts s' c = accounts s c"
  using assms by (auto simp: accounts_def split: option.splits)

lemma owed_carried: "\<not> read_locks p \<Longrightarrow> owed sid c p \<subseteq># filter_mset (\<lambda>e. EvSession e = sid) (carried p)"
  by (cases p) auto

lemma sum_list_subset_mset:
  fixes f g :: "'a \<Rightarrow> 'b multiset"
  shows "(\<And>x. x \<in> set xs \<Longrightarrow> f x \<subseteq># g x) \<Longrightarrow> sum_list (map f xs) \<subseteq># sum_list (map g xs)"
  by (induction xs) (auto intro: subset_mset.add_mono)

lemma filter_sum_list:
  fixes f :: "'a \<Rightarrow> 'b multiset"
  shows "filter_mset P (sum_list (map f xs)) = sum_list (map (\<lambda>x. filter_mset P (f x)) xs)"
  by (induction xs) auto

lemma owed_at_join:
  assumes "lock_free s" and "carried_stored s"
  shows "all_owed s sid c \<subseteq># mset (session_log sid (events (base s)))"
proof -
  have "all_owed s sid c \<subseteq># sum_list (map (\<lambda>p. filter_mset (\<lambda>e. EvSession e = sid) (carried p)) (pubs s))"
    unfolding all_owed_def using assms(1) by (intro sum_list_subset_mset owed_carried) (simp add: lock_free_def)
  also have "\<dots> = filter_mset (\<lambda>e. EvSession e = sid) (all_carried s)"
    by (simp add: all_carried_def filter_sum_list)
  also have "\<dots> \<subseteq># filter_mset (\<lambda>e. EvSession e = sid) (mset (events (base s)))"
    using assms(2) unfolding carried_stored_def by (rule multiset_filter_mono)
  also have "\<dots> = mset (session_log sid (events (base s)))" by (simp add: session_log_def)
  finally show ?thesis .
qed

lemma session_log_append [simp]: "session_log sid (xs @ ys) = session_log sid xs @ session_log sid ys"
  by (simp add: session_log_def)

lemma accounts_emit:
  assumes "accounts s c" and "sent_events s' c = sent_events s c" and "handlers s' = handlers s"
    and "events (base s') = events (base s) @ [e]" and "skipped s' = skipped s"
    and "\<And>sid. all_owed s' sid c = all_owed s sid c + (if EvSession e = sid then {#e#} else {#})"
  shows "accounts s' c"
proof (cases "joined (handlers s c)")
  case None
  with assms show ?thesis
    by (auto simp: accounts_def split: option.splits intro: subset_mset.order_trans mset_subset_eq_add_left)
next
  case (Some sk)
  obtain sid k where sk: "sk = (sid, k)" by fastforce
  let ?new = "if EvSession e = sid then {#e#} else {#}" and ?D = "mset (sent_events s c)" and ?O = "all_owed s sid c"
  have one: "mset (session_log sid [e]) = ?new" by (simp add: session_log_def)
  have part: "mset (session_log sid (drop n [e])) \<subseteq># ?new" for n
    by (cases n) (simp_all add: session_log_def)
  from assms(1) Some sk
  have l: "c \<notin> skipped s \<longrightarrow> mset (session_log sid (drop k (events (base s)))) \<subseteq># ?D + ?O"
    and u: "?D + ?O \<subseteq># mset (session_log sid (events (base s)))" by (simp_all add: accounts_def)
  have "c \<notin> skipped s \<longrightarrow> mset (session_log sid (drop k (events (base s')))) \<subseteq># (?D + ?O) + ?new"
    unfolding assms(4) drop_append session_log_append mset_append using l part by (blast intro: subset_mset.add_mono)
  moreover have "(?D + ?O) + ?new \<subseteq># mset (session_log sid (events (base s')))"
    unfolding assms(4) session_log_append mset_append one by (rule subset_mset.add_right_mono[OF u])
  ultimately show ?thesis
    using Some by (simp add: accounts_def sk assms(2,3,5,6) add.assoc)
qed

text \<open>The end of a call: what it sent is no longer owed; a panic drops what was still owed.\<close>

lemma accounts_sent:
  assumes "accounts s c" and "handlers s' = handlers s" and "events (base s') = events (base s)"
    and "joined (handlers s c) = None \<Longrightarrow> sent_events s' c = sent_events s c"
    and "\<And>sid. mset (sent_events s' c) + all_owed s' sid c + rest = mset (sent_events s c) + all_owed s sid c"
    and "skipped s \<subseteq> skipped s'" and "rest = {#} \<or> c \<in> skipped s'"
  shows "accounts s' c"
proof (cases "joined (handlers s c)")
  case None
  with assms show ?thesis by (simp add: accounts_def split: option.splits)
next
  case (Some sk)
  obtain sid k where sk: "sk = (sid, k)" by fastforce
  let ?S = "mset (sent_events s c) + all_owed s sid c" and ?S' = "mset (sent_events s' c) + all_owed s' sid c"
  from assms(1) Some sk
  have l: "c \<notin> skipped s \<longrightarrow> mset (session_log sid (drop k (events (base s)))) \<subseteq># ?S"
    and u: "?S \<subseteq># mset (session_log sid (events (base s)))" by (simp_all add: accounts_def)
  from assms(5)[of sid] have "?S' \<subseteq># ?S" by (metis mset_subset_eq_add_left)
  with u have "?S' \<subseteq># mset (session_log sid (events (base s)))" by (rule subset_mset.order_trans[rotated])
  moreover have "?S' = ?S \<and> c \<notin> skipped s" if "c \<notin> skipped s'" using assms(5)[of sid] assms(6,7) that by auto
  ultimately show ?thesis using Some l by (auto simp: accounts_def sk assms(2,3))
qed

lemma accounts_step:
  assumes "stream_do a s = Some s'" and "hub_agrees s" and "targets_connected s" and "carried_stored s" and "accounts s c"
  shows "accounts s' c"
  using assms(1)
proof (cases rule: stream_do_cases)
  case (Emit i e)
  show ?thesis
  proof (rule accounts_emit[OF assms(5)])
    fix sid
    from Emit have s': "s' = s\<lparr>base := (base s)\<lparr>events := events (base s) @ [e]\<rparr>\<rparr>\<lparr>pubs := (pubs s)[i := Stored e]\<rparr>"
      by simp
    show "all_owed s' sid c = all_owed s sid c + (if EvSession e = sid then {#e#} else {#})"
      using all_owed_update[of i s "Stored e" "s\<lparr>base := (base s)\<lparr>events := events (base s) @ [e]\<rparr>\<rparr>" sid c] Emit
      by (simp del: if_split)
  qed (simp_all add: Emit sent_events_def)
next
  case (Wait i e)
  have "all_owed s' sid c = all_owed s sid c" for sid
    using all_owed_update[of i s "Blocked e" s sid c] Wait by simp
  with assms(5) show ?thesis using accounts_cong[of s' c s] by (simp add: Wait sent_events_def)
next
  case (Acquire i e)
  have "all_owed s' sid c = all_owed s sid c" if "joined (handlers s c) = Some (sid, k)" for sid k
    using all_owed_update[of i s "Sending e (session_conns (hub s) (EvSession e))" s sid c] Acquire that assms(2)
    by (auto simp: session_conns_iff hub_agrees_def split: if_splits)
  with assms(5) show ?thesis using accounts_cong[of s' c s] by (simp add: Acquire sent_events_def)
next
  case (WriteBegin i e d cs ov)
  have "owed sid c (Writing e (cs - {d}) d) = owed sid c (Sending e cs)" for sid using WriteBegin by auto
  then have "all_owed s' sid c = all_owed s sid c" for sid
    using all_owed_update[of i s "Writing e (cs - {d}) d" "s\<lparr>overlapped := ov\<rparr>" sid c] WriteBegin
    by (simp del: owed.simps)
  with assms(5) show ?thesis using accounts_cong[of s' c s] by (simp add: WriteBegin sent_events_def)
next
  case (WriteEnd i r e d cs ms)
  let ?rest = "if r = Panics \<and> c \<in> cs then {#e#} else {#}"
  have "all_owed s' sid c + (if c = d then {#e#} else {#}) + ?rest = all_owed s sid c" for sid
    using sum_list_update_add[OF WriteEnd(2), of "owed sid c" "if r = Panics then Quiet else Sending e cs"] WriteEnd(3,5)
    by (auto simp: all_owed_def ac_simps)
  note owed = this
  have new: "mset (sent_events s' c) = mset (sent_events s c) + (if c = d then {#e#} else {#})"
    by (simp add: WriteEnd sent_events_def write_calls_WriteJSON)
  have sum: "mset (sent_events s' c) + all_owed s' sid c + ?rest = mset (sent_events s c) + all_owed s sid c" for sid
    unfolding new owed[symmetric] by (simp only: ac_simps)
  from assms(3) WriteEnd have "pub_ok (hub s) (Writing e cs d)" by (metis nth_mem targets_connected_def)
  then have "subscribed (hub s) (EvSession e) d" by (simp add: pub_ok_def)
  with assms(2) have d: "joined (handlers s d) \<noteq> None" by (auto simp: hub_agrees_def)
  show ?thesis
  proof (rule accounts_sent[OF assms(5) _ _ _ sum])
    show "joined (handlers s c) = None \<Longrightarrow> sent_events s' c = sent_events s c"
      using d by (auto simp: WriteEnd sent_events_def write_calls_WriteJSON)
  qed (auto simp: WriteEnd)
next
  case (Release i e)
  have "all_owed s' sid c = all_owed s sid c" for sid
    using all_owed_update[of i s Quiet s sid c] Release by simp
  with assms(5) show ?thesis using accounts_cong[of s' c s] by (simp add: Release sent_events_def)
next
  case (Want d)
  with assms(5) accounts_cong[of s' c s] show ?thesis by (simp add: sent_events_def all_owed_def)
next
  case (Join d sid)
  show ?thesis
  proof (cases "c = d")
    case True
    with Join assms(5) have "sent_events s c = []" by (simp add: accounts_def)
    with Join True owed_at_join[OF Join(5) assms(4), of sid c] show ?thesis
      by (simp add: accounts_def sent_events_def all_owed_def session_log_def)
  next
    case False
    with assms(5) accounts_cong[of s' c s] show ?thesis by (simp add: Join sent_events_def all_owed_def)
  qed
next
  case (ConfirmBegin d sid k ov)
  with assms(5) accounts_cong[of s' c s] show ?thesis by (simp add: sent_events_def all_owed_def)
next
  case (ConfirmEnd d sid k r ms)
  with assms(5) accounts_cong[of s' c s] show ?thesis
    by (auto simp: sent_events_def all_owed_def write_calls_WriteJSON)
next
  case (Read d sid k err)
  with assms(5) accounts_cong[of s' c s] show ?thesis by (auto simp: sent_events_def all_owed_def split: option.splits)
next
  case (Leave d sid k)
  show ?thesis
  proof (cases "c = d")
    case True
    with Leave assms(5) have "mset (sent_events s c) + all_owed s sid c \<subseteq># mset (session_log sid (events (base s)))"
      by (simp add: accounts_def)
    then have "mset (sent_events s c) \<subseteq># mset (session_log sid (events (base s)))"
      by (rule subset_mset.order_trans[OF mset_subset_eq_add_left])
    with Leave True show ?thesis by (simp add: accounts_def sent_events_def)
  next
    case False
    with assms(5) accounts_cong[of s' c s] show ?thesis by (simp add: Leave sent_events_def all_owed_def)
  qed
qed

text \<open>The invariant, for every reachable system.\<close>

lemma stream_invariant:
  assumes "stream_reach n s"
  shows "hub_agrees s \<and> targets_connected s \<and> carried_stored s \<and> (\<forall>c. accounts s c)"
  using assms
proof induction
  case start
  have "sum_list (map f (replicate n Quiet)) = {#}" if "f Quiet = {#}" for f :: "publisher \<Rightarrow> Event multiset"
    using that by (induction n) auto
  then show ?case
    by (simp add: stream_start_def hub_agrees_def subscribed_def newEventBroadcaster_def targets_connected_def
        session_conns_def pub_ok_def carried_stored_def all_carried_def accounts_def sent_events_def)
next
  case (step s a s')
  then show ?case
    by (blast intro: hub_agrees_step targets_connected_step carried_stored_step accounts_step)
qed

section \<open>Calls and what reaches the wire\<close>

text \<open>Without overlapping calls the wire carries the calls, less those that failed.\<close>

definition wired :: "stream_system \<Rightarrow> nat \<Rightarrow> bool" where
  "wired s c \<longleftrightarrow>
     (c \<notin> overlapped s \<longrightarrow>
        subseq (wire s c) (write_calls (hub s) c) \<and> (c \<notin> failed s \<longrightarrow> wire s c = write_calls (hub s) c))"

lemma on_wire_alone: "on_wire r m False = Some ms \<Longrightarrow> r = Sent \<and> ms = [m] \<or> r = Fails \<and> ms = []"
  by (cases r) auto

lemma wired_end:
  assumes "wired s c" and "on_wire r m (c \<in> overlapped s) = Some ms"
    and "hub s' = WriteJSON c m (hub s)" and "wire s' = (wire s)(c := wire s c @ ms)"
    and "failed s' = (if r = Fails then insert c (failed s) else failed s)" and "overlapped s' = overlapped s"
  shows "wired s' c"
proof -
  have "subseq (wire s' c) (write_calls (hub s') c) \<and> (c \<notin> failed s' \<longrightarrow> wire s' c = write_calls (hub s') c)"
    if "c \<notin> overlapped s"
  proof -
    from that assms(2) have "r = Sent \<and> ms = [m] \<or> r = Fails \<and> ms = []" using on_wire_alone by simp
    then have "subseq ms [m]" "r \<noteq> Fails \<Longrightarrow> ms = [m]" by auto
    with that assms(1,3-5) show ?thesis by (auto simp: wired_def write_calls_WriteJSON intro!: list_emb_append_mono)
  qed
  with assms(6) show ?thesis by (simp add: wired_def)
qed

lemma wired_cong:
  assumes "wired s c" and "write_calls (hub s') c = write_calls (hub s) c" and "wire s' c = wire s c"
    and "c \<in> failed s' \<longleftrightarrow> c \<in> failed s" and "overlapped s \<subseteq> overlapped s'"
  shows "wired s' c"
  using assms by (auto simp: wired_def)

lemma reach_wired: "stream_reach n s \<Longrightarrow> wired s c"
proof (induction rule: stream_reach.induct)
  case start
  then show ?case by (simp add: wired_def stream_start_def newEventBroadcaster_def)
next
  case (step s a s')
  from step(2) show ?case
  proof (cases rule: stream_do_cases)
    case (WriteEnd i r e d cs ms)
    show ?thesis
    proof (cases "c = d")
      case True
      then show ?thesis
        using WriteEnd(4) by (intro wired_end[OF step.IH, of r "EventMessage e" ms]) (simp_all add: WriteEnd(5))
    next
      case False
      then show ?thesis by (intro wired_cong[OF step.IH]) (simp_all add: WriteEnd write_calls_WriteJSON)
    qed
  next
    case (ConfirmEnd d sid k r ms)
    show ?thesis
    proof (cases "c = d")
      case True
      then show ?thesis
        using ConfirmEnd(3) by (intro wired_end[OF step.IH, of r "Connected sid" ms]) (simp_all add: ConfirmEnd(4))
    next
      case False
      then show ?thesis by (intro wired_cong[OF step.IH]) (simp_all add: ConfirmEnd write_calls_WriteJSON)
    qed
  qed (rule wired_cong[OF step.IH]; simp)+
qed

fun confirms_in :: "ws_message list \<Rightarrow> SessionID list" where
  "confirms_in [] = []"
| "confirms_in (EventMessage e # ms) = confirms_in ms"
| "confirms_in (Connected sid # ms) = sid # confirms_in ms"

lemma confirms_in_append [simp]: "confirms_in (xs @ ys) = confirms_in xs @ confirms_in ys"
  by (induction xs rule: confirms_in.induct) auto

text \<open>The confirmations that a handler has written: one when it reads, none before.\<close>

fun written_confirmations :: "stream_phase \<Rightarrow> SessionID list option" where
  "written_confirmations (Reading sid k) = Some [sid]"
| "written_confirmations (Leaving sid k) = None"
| "written_confirmations (Closed sid) = None"
| "written_confirmations _ = Some []"

definition confirmed :: "stream_system \<Rightarrow> nat \<Rightarrow> bool" where
  "confirmed s c \<longleftrightarrow>
     (\<forall>sids. written_confirmations (handlers s c) = Some sids \<longrightarrow> confirms_in (write_calls (hub s) c) = sids)"

lemma confirmed_cong:
  assumes "confirmed s c" and "confirms_in (write_calls (hub s') c) = confirms_in (write_calls (hub s) c)"
    and "written_confirmations (handlers s' c) \<in> {None, written_confirmations (handlers s c)}"
  shows "confirmed s' c"
  using assms by (auto simp: confirmed_def)

lemma reach_confirmed: "stream_reach n s \<Longrightarrow> confirmed s c"
proof (induction rule: stream_reach.induct)
  case start
  then show ?case by (simp add: confirmed_def stream_start_def newEventBroadcaster_def)
next
  case (step s a s')
  from step(2) show ?case
  proof (cases rule: stream_do_cases)
    case (ConfirmEnd d sid k r ms)
    show ?thesis
    proof (cases "c = d")
      case True
      from step.IH True ConfirmEnd(2) have "confirms_in (write_calls (hub s) d) = []" by (simp add: confirmed_def)
      with True ConfirmEnd show ?thesis by (simp add: confirmed_def write_calls_WriteJSON)
    next
      case False
      then show ?thesis by (intro confirmed_cong[OF step.IH]) (simp_all add: ConfirmEnd write_calls_WriteJSON)
    qed
  qed (rule confirmed_cong[OF step.IH]; simp add: write_calls_WriteJSON split: option.splits)+
qed

lemma subseq_events: "subseq xs ys \<Longrightarrow> subseq (events_in xs) (events_in ys)"
proof (induction rule: list_emb.induct)
  case (list_emb_Cons xs ys y)
  then show ?case by (cases y) auto
next
  case (list_emb_Cons2 x y xs ys)
  then show ?case by (cases x) auto
qed simp

lemma subseq_mset: "subseq xs ys \<Longrightarrow> mset xs \<subseteq># mset ys"
  by (induction rule: list_emb.induct) (auto intro: subset_mset.order_trans)

section \<open>What streaming guarantees\<close>

lemma reach_pub_ok: "stream_reach n s \<Longrightarrow> p \<in> set (pubs s) \<Longrightarrow> pub_ok (hub s) p"
  using stream_invariant by (auto simp: targets_connected_def)

lemma reach_joined: "stream_reach n s \<Longrightarrow> subscribed (hub s) sid c \<longleftrightarrow> (\<exists>k. joined (handlers s c) = Some (sid, k))"
  using stream_invariant by (auto simp: hub_agrees_def)

lemma quiet_owed:
  assumes "\<forall>p\<in>set (pubs s). p = Quiet"
  shows "all_owed s sid c = {#}"
proof -
  have "sum_list (map (owed sid c) ps) = {#}" if "\<forall>p\<in>set ps. p = Quiet" for ps
    using that by (induction ps) auto
  with assms show ?thesis by (simp add: all_owed_def)
qed

lemma streamed:
  assumes "stream_reach n s" and "\<forall>p\<in>set (pubs s). p = Quiet" and "handlers s c = Reading sid k"
    and "c \<notin> overlapped s"
  shows "mset (events_in (wire s c)) \<subseteq># mset (session_log sid (events (base s)))"
    and "c \<notin> failed s \<union> skipped s \<Longrightarrow> mset (session_log sid (drop k (events (base s)))) \<subseteq># mset (events_in (wire s c))"
proof -
  from stream_invariant[OF assms(1)] have "accounts s c" by blast
  with assms(3) quiet_owed[OF assms(2)]
  have calls: "mset (sent_events s c) \<subseteq># mset (session_log sid (events (base s)))"
    and all: "c \<notin> skipped s \<Longrightarrow> mset (session_log sid (drop k (events (base s)))) \<subseteq># mset (sent_events s c)"
    by (simp_all add: accounts_def)
  from reach_wired[OF assms(1)] assms(4) have w: "subseq (wire s c) (write_calls (hub s) c)"
    "c \<notin> failed s \<Longrightarrow> wire s c = write_calls (hub s) c" by (simp_all add: wired_def)
  from subseq_mset[OF subseq_events[OF w(1)]] calls
  show "mset (events_in (wire s c)) \<subseteq># mset (session_log sid (events (base s)))"
    by (simp add: sent_events_def subset_mset.order_trans)
  show "mset (session_log sid (drop k (events (base s)))) \<subseteq># mset (events_in (wire s c))"
    if "c \<notin> failed s \<union> skipped s"
    using that all w(2) by (simp add: sent_events_def)
qed

text \<open>
  C13: A client on whose connection no two calls of \<open>WriteJSON\<close> have overlapped has been sent only stored
  events of its session, none more often than it was stored, and each that was stored since it
  subscribed, unless a write failed or a panic cut a broadcast short. It holds whenever no publisher
  is at work, however requests, connections and disconnections interleave, while the store keeps its
  events (retention off). Where calls have overlapped nothing is claimed.
\<close>

theorem streamed_exactly_once:
  assumes "stream_reach n s" and "\<forall>p\<in>set (pubs s). p = Quiet" and "handlers s c = Reading sid k"
    and "c \<notin> overlapped s"
  shows "mset (events_in (wire s c)) \<subseteq># mset (filter (\<lambda>e. EvSession e = sid) (events (base s))) \<and>
    (c \<notin> failed s \<union> skipped s \<longrightarrow>
       mset (filter (\<lambda>e. EvSession e = sid) (drop k (events (base s)))) \<subseteq># mset (events_in (wire s c)))"
  using streamed[OF assms] unfolding session_log_def by blast

text \<open>
  Three calls that meet on connection 7; and two requests and a client whose calls follow each
  other, the later event first, while the request of another session runs into the client's lock.
\<close>

definition race_acts :: "stream_act list" where
  "race_acts =
     [Want 7, Join 7 ''s'', Emit 0 (ex_event ''1'' ''s''), Emit 1 (ex_event ''2'' ''s''),
      Acquire 0, Acquire 1, WriteBegin 0 7, WriteBegin 1 7, ConfirmBegin 7]"

definition turn_acts :: "stream_act list" where
  "turn_acts =
     [Emit 2 (ex_event ''0'' ''t''), Want 7, Acquire 2, Join 7 ''s'', Acquire 2, Release 2,
      Emit 0 (ex_event ''1'' ''s''), Emit 1 (ex_event ''2'' ''s''), Acquire 1, WriteBegin 1 7, WriteEnd 1 Sent,
      Acquire 0, ConfirmBegin 7, ConfirmEnd 7 Sent, WriteBegin 0 7, Release 1, WriteEnd 0 Sent, Release 0]"

lemmas stream_eval = race_acts_def turn_acts_def stream_start_def stream_do_def memory_event_store_def
  MemoryEventStore_Store_def NewMemoryEventStore_def subscribe_def newEventBroadcaster_def lock_free_def
  session_conns_def WriteJSON_def ex_event_def write_begin_def write_end_def writers_def numeral_2_eq_2 numeral_3_eq_3

theorem streamed_exactly_once_witness:
  "\<exists>s. stream_exec turn_acts (stream_start 3) = Some s \<and>
     wire s 7 = [EventMessage (ex_event ''2'' ''s''), Connected ''s'', EventMessage (ex_event ''1'' ''s'')] \<and>
     mset (events_in (wire s 7)) \<subseteq># mset (filter (\<lambda>e. EvSession e = ''s'') (events (base s))) \<and>
     mset (filter (\<lambda>e. EvSession e = ''s'') (drop 1 (events (base s)))) \<subseteq># mset (events_in (wire s 7))"
proof -
  obtain s where s: "stream_exec turn_acts (stream_start 3) = Some s"
    and q: "\<forall>p\<in>set (pubs s). p = Quiet" "handlers s 7 = Reading ''s'' 1" "7 \<notin> overlapped s" "7 \<notin> failed s \<union> skipped s"
    and w: "wire s 7 = [EventMessage (ex_event ''2'' ''s''), Connected ''s'', EventMessage (ex_event ''1'' ''s'')]"
    by (simp add: stream_eval)
  with streamed_exactly_once[OF reach_exec[OF stream_reach.start s] q(1-3)] show ?thesis by blast
qed

text \<open>
  C26: Nothing is written to a connection that its handler has closed: while a publisher is inside
  \<open>WriteJSON\<close> on a connection, that connection's handler is between \<open>subscribe\<close> and
  \<open>unsubscribe\<close>, for the session of the event.
\<close>

theorem no_write_after_close:
  assumes "stream_reach n s" and "Writing e cs c \<in> set (pubs s)"
  shows "\<exists>k. handlers s c \<in> {Subscribed (EvSession e) k, Confirming (EvSession e) k,
                            Reading (EvSession e) k, Leaving (EvSession e) k}"
proof -
  from reach_pub_ok[OF assms] have "subscribed (hub s) (EvSession e) c" by (simp add: pub_ok_def)
  with reach_joined[OF assms(1)] obtain k where "joined (handlers s c) = Some (EvSession e, k)" by blast
  then show ?thesis by (cases "handlers s c") auto
qed

theorem no_write_after_close_witness:
  "\<exists>s k. stream_exec race_acts (stream_start 2) = Some s \<and>
     handlers s 7 \<in> {Subscribed ''s'' k, Confirming ''s'' k, Reading ''s'' k, Leaving ''s'' k}"
proof -
  obtain s where s: "stream_exec race_acts (stream_start 2) = Some s"
    and w: "Writing (ex_event ''1'' ''s'') {} 7 \<in> set (pubs s)"
    by (simp add: stream_eval)
  from no_write_after_close[OF reach_exec[OF stream_reach.start s] w] s show ?thesis
    by (auto simp: ex_event_def)
qed

section \<open>What it does not guarantee\<close>

text \<open>
  A crowd: one connection of the session, and of \<open>length es\<close> publishers the first \<open>m\<close> hold the read
  lock with their event still to be sent to it.
\<close>

definition crowd :: "Event list \<Rightarrow> SessionID \<Rightarrow> nat \<Rightarrow> nat \<Rightarrow> stream_system" where
  "crowd es sid c m =
     (stream_start (length es))
       \<lparr>base := (NewMemoryEventStore 0)\<lparr>events := take m es\<rparr>, hub := subscribe sid c newEventBroadcaster,
        pubs := map (\<lambda>e. Sending e {c}) (take m es) @ replicate (length es - m) Quiet,
        handlers := (\<lambda>_. Unconnected)(c := Subscribed sid 0)\<rparr>"

lemma reach_crowd:
  assumes "sid \<noteq> ''''" and "\<forall>e\<in>set es. EvSession e = sid"
  shows "m \<le> length es \<Longrightarrow> stream_reach (length es) (crowd es sid c m)"
proof (induction m)
  case 0
  have "stream_exec [Want c, Join c sid] (stream_start (length es)) = Some (crowd es sid c 0)"
    using assms(1)
    by (simp add: stream_do_def stream_start_def crowd_def lock_free_def NewMemoryEventStore_def list_all_iff)
  then show ?case by (rule reach_exec[OF stream_reach.start])
next
  case (Suc m)
  let ?s = "crowd es sid c m"
  from Suc.prems have m: "m < length es" by simp
  then have i: "m < length (pubs ?s)" "pubs ?s ! m = Quiet" by (simp_all add: crowd_def nth_append)
  have conns: "session_conns (hub ?s) (EvSession (es ! m)) = {c}"
    using assms(2) m by (simp add: crowd_def session_conns_def subscribe_def newEventBroadcaster_def)
  have upd: "(pubs ?s)[m := p] = map (\<lambda>e. Sending e {c}) (take m es) @ p # replicate (length es - Suc m) Quiet" for p
  proof -
    obtain r where r: "length es - m = Suc r" using m by (metis Suc_diff_Suc)
    then have "length es - Suc m = r" by simp
    with m r show ?thesis by (simp add: crowd_def list_update_append)
  qed
  let ?t = "?s\<lparr>base := (base ?s)\<lparr>events := events (base ?s) @ [es ! m]\<rparr>, pubs := (pubs ?s)[m := Stored (es ! m)]\<rparr>"
  have emit: "stream_do (Emit m (es ! m)) ?s = Some ?t"
    using i by (simp add: stream_do_def memory_event_store_def MemoryEventStore_Store_def)
  have "waiting ?s = None" by (simp add: crowd_def stream_start_def)
  with i conns have "stream_do (Acquire m) ?t = Some (?t\<lparr>pubs := (pubs ?s)[m := Sending (es ! m) {c}]\<rparr>)"
    by (simp add: stream_do_def)
  also have "?t\<lparr>pubs := (pubs ?s)[m := Sending (es ! m) {c}]\<rparr> = crowd es sid c (Suc m)"
    unfolding upd using m by (simp add: crowd_def stream_start_def take_Suc_conv_app_nth)
  finally show ?case
    using Suc.prems by (intro stream_reach.step[OF stream_reach.step[OF Suc.IH emit]]) simp_all
qed

text \<open>All of them in the middle of their call.\<close>

lemma reach_crowd_writing:
  assumes "sid \<noteq> ''''" and "\<forall>e\<in>set es. EvSession e = sid"
  shows "m \<le> length es \<Longrightarrow> \<exists>ov. stream_reach (length es) ((crowd es sid c (length es))
    \<lparr>pubs := map (\<lambda>e. Writing e {} c) (take m es) @ map (\<lambda>e. Sending e {c}) (drop m es), overlapped := ov\<rparr>)"
proof (induction m)
  case 0
  from reach_crowd[OF assms, of "length es" c] show ?case
    by (intro exI[of _ "{}"]) (simp add: crowd_def stream_start_def)
next
  case (Suc m)
  then have m: "m < length es" by simp
  from Suc obtain ov where "stream_reach (length es) ((crowd es sid c (length es))
    \<lparr>pubs := map (\<lambda>e. Writing e {} c) (take m es) @ map (\<lambda>e. Sending e {c}) (drop m es), overlapped := ov\<rparr>)"
    (is "stream_reach _ ?s") by auto
  moreover have i: "m < length (pubs ?s)" "pubs ?s ! m = Sending (es ! m) {c}" using m by (simp_all add: nth_append)
  have "(pubs ?s)[m := p] = map (\<lambda>e. Writing e {} c) (take m es) @ p # map (\<lambda>e. Sending e {c}) (drop (Suc m) es)" for p
    using m by (simp add: list_update_append Cons_nth_drop_Suc[symmetric])
  moreover obtain ov' where "write_begin c ?s = ?s\<lparr>overlapped := ov'\<rparr>" using write_begin_eq[of c ?s] by blast
  ultimately have "stream_do (WriteBegin m c) ?s = Some ((crowd es sid c (length es))
      \<lparr>pubs := map (\<lambda>e. Writing e {} c) (take (Suc m) es) @ map (\<lambda>e. Sending e {c}) (drop (Suc m) es), overlapped := ov'\<rparr>)"
    using i m by (simp add: stream_do_def take_Suc_conv_app_nth)
  with \<open>stream_reach (length es) ?s\<close> show ?case by (blast intro: stream_reach.step)
qed

text \<open>They may also send one after the other, in any order.\<close>

definition pending :: "nat \<Rightarrow> publisher \<Rightarrow> bool" where
  "pending c p \<longleftrightarrow> p = Quiet \<or> (\<exists>e. p = Sending e {c})"

lemma pending_none: "\<forall>p\<in>set ps. pending c p \<Longrightarrow> filter (writes_to c') ps = []"
  by (induction ps) (auto simp: pending_def)

lemma reach_in_turn:
  assumes "stream_reach n s" and "\<forall>p\<in>set (pubs s). pending c p" and "all_carried s = mset fs"
    and "handlers s c = Subscribed sid k" and "overlapped s = {}"
  shows "\<exists>s'. stream_reach n s' \<and> base s' = base s \<and> handlers s' = handlers s \<and> overlapped s' = {} \<and>
    (\<forall>p\<in>set (pubs s'). p = Quiet) \<and> wire s' c = wire s c @ map EventMessage fs"
  using assms
proof (induction fs arbitrary: s)
  case Nil
  have "p = Quiet" if "p \<in> set (pubs s)" for p
  proof (rule ccontr)
    assume "p \<noteq> Quiet"
    with Nil(2) that obtain e where "p = Sending e {c}" by (auto simp: pending_def)
    with that have "e \<in># all_carried s" by (force simp: all_carried_def in_set_conv_nth dest: split_list)
    with Nil(3) show False by simp
  qed
  with Nil show ?case by (intro exI[of _ s]) auto
next
  case (Cons f fs)
  have "f \<in># all_carried s" using Cons.prems(3) by simp
  then have "f \<in># sum_list (map carried ps) \<Longrightarrow> \<exists>p\<in>set ps. f \<in># carried p" for ps by (induction ps) auto
  with \<open>f \<in># all_carried s\<close> obtain p where "p \<in> set (pubs s)" "f \<in># carried p" unfolding all_carried_def by blast
  moreover from this Cons.prems(2) have "p = Sending f {c}" by (auto simp: pending_def)
  ultimately obtain i where i: "i < length (pubs s)" "pubs s ! i = Sending f {c}" by (auto simp: in_set_conv_nth)
  let ?s = "s\<lparr>hub := WriteJSON c (EventMessage f) (hub s), wire := (wire s)(c := wire s c @ [EventMessage f]),
    pubs := (pubs s)[i := Quiet]\<rparr>"
  have w: "write_begin c s = s"
    using pending_none[OF Cons.prems(2)] Cons.prems(4) by (simp add: write_begin_def writers_def)
  have "stream_exec [WriteBegin i c, WriteEnd i Sent, Release i] s = Some ?s"
    using i w by (simp add: stream_do_def write_end_def)
  then have "stream_reach n ?s" by (rule reach_exec[OF Cons.prems(1)])
  moreover have "\<forall>p\<in>set (pubs ?s). pending c p"
    using Cons.prems(2) set_update_subset_insert[of "pubs s" i Quiet] by (auto simp: pending_def)
  moreover have "all_carried ?s = mset fs"
    using sum_list_update_add[OF i(1), of carried Quiet] Cons.prems(3) i(2) by (simp add: all_carried_def)
  ultimately obtain s' where "stream_reach n s'" "base s' = base ?s" "handlers s' = handlers ?s" "overlapped s' = {}"
    "\<forall>p\<in>set (pubs s'). p = Quiet" "wire s' c = wire ?s c @ map EventMessage fs"
    using Cons.IH[of ?s] Cons.prems(4,5) by auto
  then show ?case by (intro exI[of _ s']) simp
qed

text \<open>
  C27: The lock does not serialise writers. Any number of requests of a session and the handler of a
  client can all be inside \<open>WriteJSON\<close> on its connection at once, because \<open>Broadcast\<close> holds the read
  lock only and the confirmation none. And even if no two calls ever overlap, a client may be sent
  the events in any order \<open>fs\<close> whatever the order \<open>es\<close> of the log, all of them before the confirmation.
\<close>

theorem concurrent_writers:
  assumes "sid \<noteq> ''''" and "\<forall>e\<in>set es. EvSession e = sid" and "mset fs = mset es"
  shows "(\<exists>s. stream_reach (length es) s \<and> events (base s) = es \<and> writers s c = length es + 1) \<and>
    (\<exists>s k. stream_reach (length es) s \<and> events (base s) = es \<and> (\<forall>p\<in>set (pubs s). p = Quiet) \<and>
       handlers s c = Reading sid k \<and> overlapped s = {} \<and> wire s c = map EventMessage fs @ [Connected sid])"
proof
  let ?n = "length es" and ?s = "crowd es sid c (length es)"
  from reach_crowd_writing[OF assms(1,2), of ?n c] obtain ov
    where "stream_reach ?n (?s\<lparr>pubs := map (\<lambda>e. Writing e {} c) es, overlapped := ov\<rparr>)" (is "stream_reach _ ?t") by auto
  moreover obtain ov' where "write_begin c ?t = ?t\<lparr>overlapped := ov'\<rparr>" using write_begin_eq[of c ?t] by blast
  then have "stream_do (ConfirmBegin c) ?t = Some (?t\<lparr>overlapped := ov', handlers := (handlers ?t)(c := Confirming sid 0)\<rparr>)"
    by (simp add: stream_do_def crowd_def)
  ultimately have "stream_reach ?n (?t\<lparr>overlapped := ov', handlers := (handlers ?t)(c := Confirming sid 0)\<rparr>)"
    (is "stream_reach _ ?u") by (rule stream_reach.step)
  moreover have "events (base ?u) = es \<and> writers ?u c = ?n + 1" by (simp add: writers_def crowd_def)
  ultimately show "\<exists>s. stream_reach ?n s \<and> events (base s) = es \<and> writers s c = ?n + 1" by blast
  have "sum_list (map carried (map (\<lambda>e. Sending e {c}) es)) = mset es" by (induction es) auto
  then have "all_carried ?s = mset fs" by (simp add: all_carried_def crowd_def assms(3))
  moreover have "\<forall>p\<in>set (pubs ?s). pending c p" by (auto simp: crowd_def pending_def)
  ultimately obtain s where s: "stream_reach ?n s" "base s = base ?s" "handlers s = handlers ?s" "overlapped s = {}"
    and q: "\<forall>p\<in>set (pubs s). p = Quiet" and w: "wire s c = map EventMessage fs"
    using reach_in_turn[OF reach_crowd[OF assms(1,2) order_refl, of c], of c fs sid 0]
    by (auto simp: crowd_def stream_start_def)
  have "filter (writes_to c) (pubs s) = []" using q by (intro pending_none[of _ c]) (auto simp: pending_def)
  with s(3) have "write_begin c s = s" "handlers s c = Subscribed sid 0"
    by (simp_all add: write_begin_def writers_def crowd_def)
  then have "stream_exec [ConfirmBegin c, ConfirmEnd c Sent] s =
      Some (s\<lparr>hub := WriteJSON c (Connected sid) (hub s), wire := (wire s)(c := wire s c @ [Connected sid]),
              handlers := (handlers s)(c := Reading sid 0)\<rparr>)" (is "_ = Some ?v")
    by (simp add: stream_do_def write_end_def)
  then have "stream_reach ?n ?v" by (rule reach_exec[OF s(1)])
  moreover have "events (base ?v) = es" by (simp add: s(2) crowd_def)
  ultimately show "\<exists>s k. stream_reach ?n s \<and> events (base s) = es \<and> (\<forall>p\<in>set (pubs s). p = Quiet) \<and>
      handlers s c = Reading sid k \<and> overlapped s = {} \<and> wire s c = map EventMessage fs @ [Connected sid]"
    using q w s(4) by (intro exI[of _ ?v] exI[of _ 0]) simp
qed

theorem concurrent_writers_witness:
  "\<exists>s. stream_reach 2 s \<and> writers s 7 = 3"
proof -
  have "mset [ex_event ''2'' ''s'', ex_event ''1'' ''s''] = mset [ex_event ''1'' ''s'', ex_event ''2'' ''s'']" by simp
  from conjunct1[OF concurrent_writers[OF _ _ this, of "''s''" 7]] show ?thesis
    by (simp add: ex_event_def numeral_2_eq_2 numeral_3_eq_3) blast
qed

section \<open>Progress\<close>















section \<open>One publisher alone\<close>

text \<open>The actions of one \<open>Store\<close> that nothing interrupts, when the loop meets the connections as \<open>cs\<close>.\<close>

definition store_acts :: "nat \<Rightarrow> Event \<Rightarrow> nat list \<Rightarrow> stream_act list" where
  "store_acts i e cs = Emit i e # Acquire i # concat (map (\<lambda>c. [WriteBegin i c, WriteEnd i Sent]) cs) @ [Release i]"

definition send_all :: "nat set \<Rightarrow> Event \<Rightarrow> eventBroadcaster \<Rightarrow> eventBroadcaster" where
  "send_all cs e b = b\<lparr>write_calls := (\<lambda>c. if c \<in> cs then write_calls b c @ [EventMessage e] else write_calls b c)\<rparr>"

lemma send_all_insert: "c \<notin> cs \<Longrightarrow> send_all cs e (WriteJSON c (EventMessage e) b) = send_all (insert c cs) e b"
  by (auto simp: send_all_def WriteJSON_def fun_eq_iff)

lemma send_loop:
  "i < length (pubs s) \<Longrightarrow> pubs s ! i = Sending e (set cs) \<Longrightarrow> distinct cs \<Longrightarrow>
   \<exists>w ov. stream_exec (concat (map (\<lambda>c. [WriteBegin i c, WriteEnd i Sent]) cs) @ [Release i]) s =
     Some (s\<lparr>hub := send_all (set cs) e (hub s), wire := w, overlapped := ov, pubs := (pubs s)[i := Quiet]\<rparr>)"
proof (induction cs arbitrary: s)
  case Nil
  then show ?case by (intro exI[of _ "wire s"] exI[of _ "overlapped s"]) (simp add: stream_do_def send_all_def)
next
  case (Cons c cs)
  from write_begin_eq[of c s] obtain ov where ov: "write_begin c s = s\<lparr>overlapped := ov\<rparr>" by blast
  let ?s = "s\<lparr>hub := WriteJSON c (EventMessage e) (hub s), wire := (wire s)(c := wire s c @ [EventMessage e]),
    overlapped := ov, pubs := (pubs s)[i := Sending e (set cs)]\<rparr>"
  from Cons.prems have rest: "insert c (set cs) - {c} = set cs" by auto
  with Cons.prems have "stream_exec [WriteBegin i c, WriteEnd i Sent] s = Some ?s"
    by (simp add: stream_do_def ov write_end_def)
  then show ?case
    using Cons.IH[of ?s] Cons.prems stream_exec_append[of "[WriteBegin i c, WriteEnd i Sent]"
        "concat (map (\<lambda>c. [WriteBegin i c, WriteEnd i Sent]) cs) @ [Release i]" s]
    by (simp add: send_all_insert)
qed

text \<open>
  Without interference the fine-grained actions of a publisher are one \<open>Store\<close> of the
  broadcasting store: in whatever order the loop meets the connections, the store and the
  broadcaster end up as in the sequential model.
\<close>

theorem store_alone:
  assumes "i < length (pubs s)" and "pubs s ! i = Quiet" and "distinct cs" and "waiting s = None"
    and "\<And>c. c \<in> set cs \<longleftrightarrow> subscribed (hub s) (EvSession e) c"
  shows "\<exists>s'. stream_exec (store_acts i e cs) s = Some s' \<and> handlers s' = handlers s \<and> pubs s' = pubs s \<and>
    es_Store (demo_event_store True) e (base s, hub s) = (None, base s', hub s')"
proof -
  let ?m = "(base s)\<lparr>events := events (base s) @ [e]\<rparr>" and ?rest = "concat (map (\<lambda>c. [WriteBegin i c, WriteEnd i Sent]) cs) @ [Release i]"
  let ?s = "s\<lparr>base := ?m, pubs := (pubs s)[i := Sending e (set cs)]\<rparr>"
  have conns: "session_conns (hub s) (EvSession e) = set cs"
    by (rule set_eqI) (simp add: session_conns_iff assms(5))
  have "stream_exec [Emit i e, Acquire i] s = Some ?s"
    using assms(1,2,4) conns by (simp add: stream_do_def memory_event_store_def MemoryEventStore_Store_def)
  moreover obtain w ov where "stream_exec ?rest ?s =
      Some (?s\<lparr>hub := send_all (set cs) e (hub ?s), wire := w, overlapped := ov, pubs := (pubs ?s)[i := Quiet]\<rparr>)"
    using send_loop[of i ?s e cs] assms(1,3) by auto
  moreover have "(pubs s)[i := Quiet] = pubs s" using assms(2) by (metis list_update_id)
  ultimately have "stream_exec (store_acts i e cs) s =
      Some (s\<lparr>base := ?m, hub := send_all (set cs) e (hub s), wire := w, overlapped := ov\<rparr>)" (is "_ = Some ?s'")
    using stream_exec_append[of "[Emit i e, Acquire i]" ?rest s] by (simp add: store_acts_def)
  moreover have "Broadcast (EvSession e) e (hub s) = send_all (set cs) e (hub s)"
    by (simp add: Broadcast_def Let_def conns[symmetric] session_conns_def send_all_def)
  ultimately show ?thesis
    by (intro exI[of _ ?s'] conjI) (simp_all add: demo_event_store_def NewBroadcastingEventStore_def
        BroadcastingEventStore_Store_def memory_event_store_def MemoryEventStore_Store_def event_broadcaster_def)
qed

theorem store_alone_witness:
  "\<exists>s s'. stream_exec [Want 7, Join 7 ''s'', ConfirmBegin 7, ConfirmEnd 7 Sent] (stream_start 1) = Some s \<and>
     stream_exec (store_acts 0 (ex_event ''1'' ''s'') [7]) s = Some s' \<and>
     es_Store (demo_event_store True) (ex_event ''1'' ''s'') (base s, hub s) = (None, base s', hub s')"
proof -
  obtain s where s: "stream_exec [Want 7, Join 7 ''s'', ConfirmBegin 7, ConfirmEnd 7 Sent] (stream_start 1) = Some s"
    and i: "0 < length (pubs s)" "pubs s ! 0 = Quiet" and w: "waiting s = None"
    and c: "\<And>c. c \<in> set [7] \<longleftrightarrow> subscribed (hub s) (EvSession (ex_event ''1'' ''s'')) c"
    by (simp add: stream_eval subscribed_def)
  with store_alone[OF i _ w c] show ?thesis by auto
qed

end
