(* ===== verification/DemoRuns.thy ===== *)
theory DemoRuns
  imports DemoServer Guarantees
begin

text \<open>
  The demo server as a whole: the four tools that \<open>run\<close> registers, the routes and the address it
  serves, how it ends, and its runs. A run is a list of tool calls, each dispatched by name to the
  registered handler, with pauses between them. The server set up from a configuration file keeps
  the order and the freshness its rules demand.
\<close>

section \<open>The tools of the server\<close>

record ('ts, 'ss, 'rg, 'es) demo_tools =
  srv_greet :: "(string, GreetingResponse, 'ts, 'ss, 'rg, 'es) registered"
  srv_user :: "(unit, UserIdentificationResponse, 'ts, 'ss, 'rg, 'es) registered"
  srv_time :: "(unit, getTimeResponse, 'ts, 'ss, 'rg, 'es) registered"
  srv_date :: "(unit, getDateResponse, 'ts, 'ss, 'rg, 'es) registered"

definition run_tools ::
  "('ts, 'ss, 'rg, 'es) RatchetServiceImpl option \<Rightarrow> 'ss SessionStore \<Rightarrow> ('ts, 'ss, 'rg, 'es) demo_tools" where
  "run_tools ratchetSvc store =
     \<lparr>srv_greet = RegisterGreetingTool NewGreetingService ratchetSvc store,
      srv_user = RegisterGetUserNameTool NewUserService ratchetSvc store,
      srv_time = RegisterGetTimeTool ratchetSvc store,
      srv_date = RegisterGetDateTool ratchetSvc store\<rparr>"

section \<open>Routes, address and end of the server\<close>

definition run_routes :: "bool \<Rightarrow> MCPConfig \<Rightarrow> flags \<Rightarrow> string list" where
  "run_routes ratchet mcpCfg fl =
     (if ratchet then [''GET /observability/stats'', ''GET /observability/events''] else []) @
     (if ratchet \<and> WebSocketEnabled mcpCfg then [''GET '' @ WebSocketPath mcpCfg] else []) @
     map (\<lambda>method. method @ '' '' @ flag_path fl) [''GET'', ''POST'', ''DELETE'']"

definition run_addr :: "MCPConfig \<Rightarrow> flags \<Rightarrow> string" where
  "run_addr mcpCfg fl = flag_addr fl"

text \<open>
  What the final \<open>select\<close> of \<open>run\<close> sees: a signal, then the results of \<open>Shutdown\<close> and of
  \<open>ListenAndServe\<close>; or the result of \<open>ListenAndServe\<close> alone. \<open>closed\<close> is \<open>errors.Is\<close> against
  \<open>http.ErrServerClosed\<close>.
\<close>

datatype run_event = Signalled "error option" "error option" | Served "error option"

definition serve_error :: "(error \<Rightarrow> bool) \<Rightarrow> error option \<Rightarrow> error option" where
  "serve_error closed e =
     (case e of None \<Rightarrow> None
      | Some err \<Rightarrow> if \<not> closed err then Some (WrapError ''server error'' err) else None)"

fun run_end :: "(error \<Rightarrow> bool) \<Rightarrow> run_event \<Rightarrow> error option" where
  "run_end closed (Signalled shutdown firstErr) =
     (case shutdown of
        Some err \<Rightarrow> Some (WrapError ''server shutdown failed'' err)
      | None \<Rightarrow> serve_error closed firstErr)"
| "run_end closed (Served err) = serve_error closed err"

definition main_exit :: "error option \<Rightarrow> nat" where
  "main_exit e = (case e of None \<Rightarrow> 0 | Some err \<Rightarrow> 1)"

text \<open>The configured address and MCP path are read but never used: only the flags are.\<close>

lemma configured_address_ignored:
  "run_addr mcpCfg fl = run_addr (mcpCfg\<lparr>Addr := a\<rparr>) fl"
  "run_routes ratchet mcpCfg fl = run_routes ratchet (mcpCfg\<lparr>MCPPath := p, HTTPEnabled := h\<rparr>) fl"
  by (simp_all add: run_addr_def run_routes_def)

lemma clean_exit_iff:
  "main_exit (run_end closed ev) = 0 \<longleftrightarrow>
     (case ev of
        Signalled shutdown first \<Rightarrow> shutdown = None \<and> (case first of None \<Rightarrow> True | Some e \<Rightarrow> closed e)
      | Served first \<Rightarrow> (case first of None \<Rightarrow> True | Some e \<Rightarrow> closed e))"
  by (cases ev) (auto simp: main_exit_def serve_error_def split: option.splits)

section \<open>Calls of the tools\<close>

datatype tool_call = Greet string | GetUserName | GetTime | GetDate

fun called_tool :: "tool_call \<Rightarrow> ToolName" where
  "called_tool (Greet name) = ''greet''"
| "called_tool GetUserName = ''get_user_name''"
| "called_tool GetTime = ''get_time''"
| "called_tool GetDate = ''get_date''"

text \<open>The answer without the structured output, whose type differs from tool to tool.\<close>

definition plain :: "'res option \<times> 'out \<times> error option \<Rightarrow> 'res option \<times> unit \<times> error option" where
  "plain = (\<lambda>(res, out, e). (res, (), e))"

fun call_tool ::
  "('ts, 'ss, 'rg, 'es) demo_tools \<Rightarrow> tool_call \<Rightarrow> ('ts, 'ss, 'rg, 'es) world \<Rightarrow>
   (CallToolResult option \<times> unit \<times> error option) go_result \<times> ('ts, 'ss, 'rg, 'es) world" where
  "call_tool ts (Greet name) w = map_prod (map_go_result plain) id (tool_Handler (srv_greet ts) name w)"
| "call_tool ts GetUserName w = map_prod (map_go_result plain) id (tool_Handler (srv_user ts) () w)"
| "call_tool ts GetTime w = map_prod (map_go_result plain) id (tool_Handler (srv_time ts) () w)"
| "call_tool ts GetDate w = map_prod (map_go_result plain) id (tool_Handler (srv_date ts) () w)"

datatype demo_request = Call tool_call | Pause nat

fun demo_serve ::
  "('ts, 'ss, 'rg, 'es) demo_tools \<Rightarrow> demo_request \<Rightarrow> call list \<times> ('ts, 'ss, 'rg, 'es) world \<Rightarrow>
   call list \<times> ('ts, 'ss, 'rg, 'es) world" where
  "demo_serve ts (Pause n) (log, w) = (log, w\<lparr>w_reads := w_reads w + n\<rparr>)"
| "demo_serve ts (Call c) (log, w) =
     (case call_tool ts c w of
        (Return (res, out, None), w') \<Rightarrow>
          (log @ [\<lparr>c_tool = called_tool c, c_start = w_wall w (w_reads w), c_done = w_wall w' (w_reads w')\<rparr>], w')
      | (Return (res, out, Some err), w') \<Rightarrow> (log, w')
      | (Panic, w') \<Rightarrow> (log, w'))"

definition demo_run ::
  "('ts, 'ss, 'rg, 'es) RatchetServiceImpl \<Rightarrow> demo_request list \<Rightarrow> ('ts, 'ss, 'rg, 'es) world \<Rightarrow>
   call list \<times> ('ts, 'ss, 'rg, 'es) world" where
  "demo_run svc rqs w = fold (demo_serve (run_tools (Some svc) (sessionStore svc))) rqs ([], w)"

section \<open>Runs of the server are runs of wrapped tools\<close>

text \<open>The four handlers as one, over the union of their inputs.\<close>

fun demo_handler :: "(tool_call, CallToolResult, unit, 'ts, 'ss, 'rg, 'es) handler" where
  "demo_handler (Greet name) w = map_prod plain id (greet_handler NewGreetingService name w)"
| "demo_handler GetUserName w = map_prod plain id (get_user_name_handler NewUserService () w)"
| "demo_handler GetTime w = map_prod plain id (get_time_handler () w)"
| "demo_handler GetDate w = map_prod plain id (get_date_handler () w)"

fun as_request :: "demo_request \<Rightarrow> tool_call request" where
  "as_request (Call c) = CallTool (called_tool c) c"
| "as_request (Pause n) = Idle n"

lemma demo_handler_leaves: "leaves_ratchet demo_handler"
  unfolding leaves_ratchet_def
proof (intro allI)
  fix c and w :: "('ts, 'ss, 'rg, 'es) world"
  show "core (snd (demo_handler c w)) = core w \<and> w_reads w \<le> w_reads (snd (demo_handler c w))"
    by (cases c) (simp_all add: tools_leave_ratchet[unfolded leaves_ratchet_def, rule_format])
qed

text \<open>The wrapper treats the output as it is: changing its type before or after is the same.\<close>

lemma WrapWithRatchet_plain:
  assumes "\<And>w. h' inp' w = map_prod plain id (h inp w)"
  shows "map_prod (map_go_result plain) id (WrapWithRatchet zero tool h svc store inp w) =
    WrapWithRatchet () tool h' svc store inp' w"
  unfolding WrapWithRatchet_unfold
  by (auto simp: assms plain_def Let_def split: prod.splits go_result.splits option.splits)

lemma call_tool_wrapped:
  "call_tool (run_tools (Some svc) store) c w = WrapWithRatchet () (called_tool c) demo_handler svc store c w"
  by (cases c)
    (simp_all add: run_tools_def RegisterGreetingTool_def RegisterGetUserNameTool_def RegisterGetTimeTool_def
      RegisterGetDateTool_def choose_handler_def WrapWithRatchet_plain[where h' = demo_handler])

lemma demo_run_serve_all:
  "demo_run svc rqs w = serve_all () (\<lambda>_. demo_handler) svc (map as_request rqs) w"
proof -
  have "demo_serve (run_tools (Some svc) (sessionStore svc)) rq lw =
      serve () (\<lambda>_. demo_handler) svc (as_request rq) lw" for rq lw
    by (cases rq; cases lw) (simp_all add: call_tool_wrapped)
  then have "fold (demo_serve (run_tools (Some svc) (sessionStore svc))) rqs lw =
      fold (serve () (\<lambda>_. demo_handler) svc) (map as_request rqs) lw" for lw
    by (induction rqs arbitrary: lw) simp_all
  then show ?thesis by (simp add: demo_run_def serve_all_def)
qed

section \<open>What a configured server guarantees\<close>

lemma setup_service:
  assumes "setup_ratchet open_file decode shuffle mcpCfg fl = Inr (Some (svc, m0, b0))"
  obtains cl es rs where "svc = demo_service cl es rs"
  using assms that unfolding setup_ratchet_eq
  by (auto simp: demo_service_def split: if_splits sum.splits)

text \<open>
  C3: The demo server, set up from any configuration that loads, keeps the order its rules demand:
  in every run of its four tools, a call that is answered without an error and whose tool is
  restricted comes after an answered call of one of its prerequisites and starts less than that
  prerequisite's expiry after it.
\<close>

theorem demo_server_keeps_order:
  assumes "setup_ratchet open_file decode shuffle mcpCfg fl = Inr (Some (svc, m0, b0))" and "mono wall"
    and "demo_run svc rqs (fresh_world wall uuids rg (m0, b0)) = (log, w)"
    and "i < length log" and "restricted (rules svc) (c_tool (log ! i))"
  shows "\<exists>ru\<in>set (rules_for (rules svc) (c_tool (log ! i))). \<exists>j<i.
    c_tool (log ! j) = Prerequisite ru \<and>
    c_start (log ! i) < c_done (log ! j) + rule_expiry (rules svc) (Prerequisite ru)"
proof -
  from assms(1) obtain cl es rs where svc: "svc = demo_service cl es rs" by (rule setup_service)
  have "justified rs log i"
    by (rule run_justified[OF assms(2) demo_handler_leaves assms(3)[unfolded svc demo_run_serve_all] assms(4)])
  with assms(5) show ?thesis by (simp add: svc justified_def)
qed

definition demo_config :: config where
  "demo_config =
     \<lparr>cfg_Rules =
        [\<lparr>rc_Tool = ''get_user_name'', rc_Prerequisite = ''greet'', rc_Expiry = ''10s'', rc_ErrorMessage = '''',
          rc_OneTimeUse = False\<rparr>],
      cfg_Observability = \<lparr>Enabled = True, StorageType = '''', RetentionDays = 1\<rparr>\<rparr>"

definition demo_flags :: flags where
  "demo_flags = \<lparr>flag_addr = '':8080'', flag_path = ''/mcp'', flag_ratchetConfig = ''ratchet.yaml'', flag_mcpConfig = ''''\<rparr>"

definition demo_mcp :: MCPConfig where
  "demo_mcp = \<lparr>HTTPEnabled = True, WebSocketEnabled = True, WebSocketPath = ''/ws'', Addr = '''', MCPPath = ''''\<rparr>"

definition demo_rule :: Rule where
  "demo_rule = \<lparr>Tool = ''get_user_name'', Prerequisite = ''greet'', Expiry = 10 * Second, ErrorMessage = '''', OneTimeUse = False\<rparr>"

definition demo_example :: "unit \<Rightarrow> demo_svc" where
  "demo_example _ = demo_service (NewYAMLConfigLoader (\<lambda>_. Inr demo_config) id) (Some (demo_event_store True)) [demo_rule]"

definition ex_demo_run :: "call list" where
  "ex_demo_run = fst (demo_run (demo_example ()) [Call (Greet ''Ann''), Call GetUserName]
     (fresh_world int (\<lambda>_. ''uuid'') ex_entropy (NewMemoryEventStore 1, newEventBroadcaster)))"

lemma ex_demo_tools: "map c_tool ex_demo_run = [''greet'', ''get_user_name'']"
  by code_simp

lemma ex_demo_setup:
  "setup_ratchet (\<lambda>_. Inr ''file'') (\<lambda>_. Inr demo_config) id demo_mcp demo_flags =
     Inr (Some (demo_example (), NewMemoryEventStore 1, newEventBroadcaster))"
proof -
  have "LoadConfig (\<lambda>_. Inr demo_config) ''file'' =
      Inr \<lparr>Rules = [demo_rule], Observability = cfg_Observability demo_config\<rparr>" by code_simp
  then show ?thesis
    by (simp add: setup_ratchet_eq demo_flags_def demo_example_def demo_service_def demo_mcp_def demo_config_def)
qed

theorem demo_server_keeps_order_witness:
  "map c_tool ex_demo_run = [''greet'', ''get_user_name''] \<and>
   c_start (ex_demo_run ! 1) < c_done (ex_demo_run ! 0) + 5 * Minute"
proof -
  have "length (map c_tool ex_demo_run) = 2" by (simp add: ex_demo_tools)
  then have len: "1 < length ex_demo_run" by simp
  have second: "map c_tool ex_demo_run ! 1 = ''get_user_name''" unfolding ex_demo_tools by simp
  have "c_tool (ex_demo_run ! 1) = ''get_user_name''" by (rule trans[OF nth_map[OF len, symmetric] second])
  note t = len this
  obtain w where run: "demo_run (demo_example ()) [Call (Greet ''Ann''), Call GetUserName]
      (fresh_world int (\<lambda>_. ''uuid'') ex_entropy (NewMemoryEventStore 1, newEventBroadcaster)) = (ex_demo_run, w)"
    by (metis ex_demo_run_def prod.collapse)
  have rules: "rules (demo_example ()) = [demo_rule]" by (simp add: demo_example_def)
  have "restricted (rules (demo_example ())) (c_tool (ex_demo_run ! 1))"
    unfolding t rules by (simp add: demo_rule_def restricted_def rules_for_def)
  from demo_server_keeps_order[OF ex_demo_setup mono_int run t(1) this, unfolded t rules]
  obtain ru j where ru: "ru \<in> set (rules_for [demo_rule] ''get_user_name'')" and "j < (1 :: nat)"
    and fresh: "c_start (ex_demo_run ! 1) < c_done (ex_demo_run ! j) + rule_expiry [demo_rule] (Prerequisite ru)"
    by blast
  moreover have "Prerequisite ru = ''greet''" using ru by (simp add: rules_for_def demo_rule_def)
  moreover have "rule_expiry [demo_rule] ''greet'' = 5 * Minute"
    by (simp add: rule_expiry_def first_rule_def demo_rule_def)
  ultimately show ?thesis using ex_demo_tools by simp
qed

end
