(* ===== verification/GoCmd.thy ===== *)
theory GoCmd
  imports GoStd
begin

text \<open>
  What the commands use of Go's standard library: string flags of package \<open>flag\<close>, the registration
  of patterns with \<open>http.ServeMux\<close>, \<open>url.URL.String\<close>. The patterns are those of Go 1.22 and later
  (\<open>go.mod\<close> asks for 1.26): wildcards in braces, escapes in literal segments, a panic on a malformed
  pattern and on one that conflicts with a registered one.
\<close>

section \<open>Package flag\<close>

text \<open>
  A flag set maps the names of its string flags to their values, at first the defaults. The
  outcome of \<open>flag.Parse\<close> with \<open>flag.ExitOnError\<close>: the values, the help text (exit status 0), or an
  error (exit status 2).
\<close>

type_synonym FlagSet = "string \<rightharpoonup> string"

datatype flag_result = Parsed FlagSet | HelpRequested | FlagError string

definition String_flag :: "string \<Rightarrow> string \<Rightarrow> FlagSet \<Rightarrow> FlagSet" where
  "String_flag name value fs = fs(name \<mapsto> value)"

text \<open>Cut a flag at its first equals sign; the name is not empty and does not begin with one.\<close>

definition cut_flag :: "string \<Rightarrow> string \<times> string option" where
  "cut_flag s =
     (case dropWhile (\<lambda>c. c \<noteq> CHR ''='') s of
        [] \<Rightarrow> (s, None)
      | _ # v \<Rightarrow> (takeWhile (\<lambda>c. c \<noteq> CHR ''='') s, Some v))"

fun flag_Parse :: "string list \<Rightarrow> FlagSet \<Rightarrow> flag_result" where
  "flag_Parse [] fs = Parsed fs"
| "flag_Parse (s # args) fs =
     (if length s < 2 \<or> s ! 0 \<noteq> CHR ''-'' then Parsed fs
      else if s = ''--'' then Parsed fs
      else
        let name = (if s ! 1 = CHR ''-'' then drop 2 s else drop 1 s)
        in if name = '''' \<or> name ! 0 = CHR ''-'' \<or> name ! 0 = CHR ''='' then FlagError (''bad flag syntax: '' @ s)
           else
             let (n, v) = cut_flag name
             in if fs n = None then
                  (if n = ''help'' \<or> n = ''h'' then HelpRequested
                   else FlagError (''flag provided but not defined: -'' @ n))
                else
                  (case v of
                     Some value \<Rightarrow> flag_Parse args (fs(n \<mapsto> value))
                   | None \<Rightarrow>
                       (case args of
                          [] \<Rightarrow> FlagError (''flag needs an argument: -'' @ n)
                        | value # rest \<Rightarrow> flag_Parse rest (fs(n \<mapsto> value)))))"

declare flag_Parse.simps(2) [simp del]

text \<open>A name that a command may define.\<close>

definition flag_name :: "string \<Rightarrow> bool" where
  "flag_name n \<longleftrightarrow> n \<noteq> '''' \<and> CHR ''='' \<notin> set n \<and> hd n \<noteq> CHR ''-''"

lemma dropWhile_all: "c \<notin> set n \<Longrightarrow> dropWhile (\<lambda>x. x \<noteq> c) n = []"
  by (induction n) auto

lemma cut_flag_eq [simp]:
  assumes "CHR ''='' \<notin> set n"
  shows "cut_flag (n @ CHR ''='' # v) = (n, Some v)" and "cut_flag n = (n, None)"
proof -
  have "dropWhile (\<lambda>c. c \<noteq> CHR ''='') (n @ CHR ''='' # v) = CHR ''='' # v"
    "takeWhile (\<lambda>c. c \<noteq> CHR ''='') (n @ CHR ''='' # v) = n"
    using assms by (induction n) auto
  then show "cut_flag (n @ CHR ''='' # v) = (n, Some v)" by (simp add: cut_flag_def)
  show "cut_flag n = (n, None)" using assms by (simp add: cut_flag_def dropWhile_all)
qed

text \<open>Both ways to write a flag set its value, whatever the value is.\<close>

lemma flag_Parse_set:
  assumes "flag_name n" and "fs n \<noteq> None"
  shows "flag_Parse ((''-'' @ n @ ''='' @ v) # args) fs = flag_Parse args (fs(n \<mapsto> v))"
    and "flag_Parse ((''-'' @ n) # v # args) fs = flag_Parse args (fs(n \<mapsto> v))"
proof -
  from assms(1) obtain c n' where n: "n = c # n'" "c \<noteq> CHR ''-''" and eq: "CHR ''='' \<notin> set n"
    by (cases n) (auto simp: flag_name_def)
  from n eq have "c \<noteq> CHR ''=''" by auto
  then have "cut_flag (n @ CHR ''='' # v) = (n, Some v)" "cut_flag n = (n, None)" using eq by simp_all
  with n \<open>c \<noteq> CHR ''=''\<close> assms(2)
  show "flag_Parse ((''-'' @ n @ ''='' @ v) # args) fs = flag_Parse args (fs(n \<mapsto> v))"
    "flag_Parse ((''-'' @ n) # v # args) fs = flag_Parse args (fs(n \<mapsto> v))"
    by (auto simp: flag_Parse.simps(2))
qed

text \<open>A list of settings is read back as it was written, the last one of a name counts.\<close>

definition flag_args :: "(string \<times> string) list \<Rightarrow> string list" where
  "flag_args kvs = map (\<lambda>(n, v). ''-'' @ n @ ''='' @ v) kvs"

lemma flag_Parse_args:
  "\<forall>(n, v)\<in>set kvs. flag_name n \<and> n \<in> dom fs \<Longrightarrow> flag_Parse (flag_args kvs) fs = Parsed (fs ++ map_of (rev kvs))"
proof (induction kvs arbitrary: fs)
  case Nil
  then show ?case by (simp add: flag_args_def)
next
  case (Cons kv kvs)
  obtain n v where kv: "kv = (n, v)" by fastforce
  from Cons.prems kv have n: "flag_name n" "fs n \<noteq> None" by auto
  have "flag_Parse (flag_args (kv # kvs)) fs = flag_Parse (flag_args kvs) (fs(n \<mapsto> v))"
    using flag_Parse_set(1)[of n fs v "flag_args kvs", OF n] by (simp add: flag_args_def kv)
  also have "\<dots> = Parsed (fs(n \<mapsto> v) ++ map_of (rev kvs))" using Cons.prems by (intro Cons.IH) auto
  also have "fs(n \<mapsto> v) ++ map_of (rev kvs) = fs ++ map_of (rev (kv # kvs))"
    by (auto simp: fun_eq_iff map_add_def kv split: option.splits)
  finally show ?case .
qed

section \<open>Patterns of http.ServeMux\<close>

text \<open>
  \<open>path.Clean\<close> on a path that begins with a slash drops empty and dot segments and resolves \<open>..\<close>;
  \<open>clean_path\<close> keeps a slash at the end.
\<close>

definition clean_step :: "string list \<Rightarrow> string \<Rightarrow> string list" where
  "clean_step acc seg =
     (if seg = '''' \<or> seg = ''.'' then acc else if seg = ''..'' then butlast acc else acc @ [seg])"

definition clean_path :: "string \<Rightarrow> string" where
  "clean_path p =
     (let segs = foldl clean_step [] (split_on (CHR ''/'') p);
          np = (if segs = [] then ''/'' else concat (map (\<lambda>s. ''/'' @ s) segs))
      in if p \<noteq> '''' \<and> last p = CHR ''/'' \<and> np \<noteq> ''/'' then np @ ''/'' else np)"

text \<open>\<open>url.PathUnescape\<close>; a segment with an invalid escape is taken as it is.\<close>

definition hex_nibble :: "char \<Rightarrow> nat option" where
  "hex_nibble c =
     (let n = of_char c :: nat
      in if 48 \<le> n \<and> n \<le> 57 then Some (n - 48)
         else if 65 \<le> n \<and> n \<le> 70 then Some (n - 55)
         else if 97 \<le> n \<and> n \<le> 102 then Some (n - 87)
         else None)"

fun PathUnescape :: "string \<Rightarrow> string option" where
  "PathUnescape [] = Some []"
| "PathUnescape (c # s) =
     (if c \<noteq> CHR ''%'' then map_option (Cons c) (PathUnescape s)
      else
        (case s of
           a # b # rest \<Rightarrow>
             (case (hex_nibble a, hex_nibble b) of
                (Some h, Some l) \<Rightarrow> map_option (Cons (char_of (16 * h + l))) (PathUnescape rest)
              | _ \<Rightarrow> None)
         | _ \<Rightarrow> None))"

definition literal_text :: "string \<Rightarrow> string" where
  "literal_text seg = (case PathUnescape seg of Some s \<Rightarrow> s | None \<Rightarrow> seg)"

text \<open>
  The name of a wildcard is a Go identifier. What counts as a letter beyond ASCII is the parameter
  \<open>uni\<close>, which tells it for a name with such bytes.
\<close>

definition wildcard_name :: "(string \<Rightarrow> bool) \<Rightarrow> string \<Rightarrow> bool" where
  "wildcard_name uni name =
     (let letter = (\<lambda>c. let n = of_char c :: nat in 65 \<le> n \<and> n \<le> 90 \<or> 97 \<le> n \<and> n \<le> 122 \<or> n = 95);
          digit = (\<lambda>c. let n = of_char c :: nat in 48 \<le> n \<and> n \<le> 57)
      in if list_ex (\<lambda>c. (of_char c :: nat) \<ge> 128) name then uni name
         else name \<noteq> '''' \<and> letter (hd name) \<and> list_all (\<lambda>c. letter c \<or> digit c) (tl name))"

text \<open>
  A segment of a pattern: a literal, a wildcard for one segment, or one for the rest of the path. A
  slash at the end is a nameless \<open>Multi\<close>, \<open>{$}\<close> the literal slash.
\<close>

datatype pat_seg = Literal string | Wildcard string | Multi string

fun pattern_segs :: "(string \<Rightarrow> bool) \<Rightarrow> string list \<Rightarrow> string list \<Rightarrow> pat_seg list option" where
  "pattern_segs uni seen [] = Some []"
| "pattern_segs uni seen (seg # rest) =
     (if seg = '''' \<and> rest = [] then Some [Multi '''']
      else if CHR ''{'' \<notin> set seg then map_option (Cons (Literal (literal_text seg))) (pattern_segs uni seen rest)
      else if hd seg \<noteq> CHR ''{'' \<or> last seg \<noteq> CHR ''}'' then None
      else
        let name = butlast (tl seg)
        in if name = ''$'' then (if rest = [] then Some [Literal ''/''] else None)
           else
             let multi = 3 \<le> length name \<and> drop (length name - 3) name = ''...'';
                 name = (if multi then take (length name - 3) name else name)
             in if multi \<and> rest \<noteq> [] \<or> \<not> wildcard_name uni name \<or> name \<in> set seen then None
                else map_option (Cons (if multi then Multi name else Wildcard name))
                       (pattern_segs uni (name # seen) rest))"

text \<open>
  \<open>parsePattern(method + " " + rest)\<close> for a method other than CONNECT: the host (empty for any) and
  the segments, or \<open>None\<close> when the pattern has no path, a brace in its host, a path that is not clean
  or a malformed wildcard.
\<close>

definition parse_pattern :: "(string \<Rightarrow> bool) \<Rightarrow> string \<Rightarrow> (string \<times> pat_seg list) option" where
  "parse_pattern uni rest =
     (let rest = dropWhile (\<lambda>c. c = CHR '' '' \<or> c = CHR 0x09) rest;
          host = takeWhile (\<lambda>c. c \<noteq> CHR ''/'') rest;
          path = dropWhile (\<lambda>c. c \<noteq> CHR ''/'') rest
      in if path = '''' \<or> CHR ''{'' \<in> set host \<or> path \<noteq> clean_path path then None
         else map_option (Pair host) (pattern_segs uni [] (tl (split_on (CHR ''/'') path))))"

section \<open>Conflicts\<close>

datatype relationship = Equivalent | MoreGeneral | MoreSpecific | Disjoint | Overlaps

fun combine :: "relationship \<Rightarrow> relationship \<Rightarrow> relationship" where
  "combine Equivalent r = r"
| "combine Disjoint r = Disjoint"
| "combine Overlaps r = (if r = Disjoint then Disjoint else Overlaps)"
| "combine MoreGeneral r = (if r = Equivalent then MoreGeneral else if r = MoreSpecific then Overlaps else r)"
| "combine MoreSpecific r = (if r = Equivalent then MoreSpecific else if r = MoreGeneral then Overlaps else r)"

text \<open>A wildcard for one segment does not match the slash at the end.\<close>

fun compare_segments :: "pat_seg \<Rightarrow> pat_seg \<Rightarrow> relationship" where
  "compare_segments (Multi a) (Multi b) = Equivalent"
| "compare_segments (Multi a) y = MoreGeneral"
| "compare_segments x (Multi b) = MoreSpecific"
| "compare_segments (Wildcard a) (Wildcard b) = Equivalent"
| "compare_segments (Wildcard a) (Literal t) = (if t = ''/'' then Disjoint else MoreGeneral)"
| "compare_segments (Literal s) (Wildcard b) = (if s = ''/'' then Disjoint else MoreSpecific)"
| "compare_segments (Literal s) (Literal t) = (if s = t then Equivalent else Disjoint)"

fun is_multi :: "pat_seg \<Rightarrow> bool" where
  "is_multi (Multi name) = True"
| "is_multi _ = False"

definition last_multi :: "pat_seg list \<Rightarrow> bool" where
  "last_multi segs \<longleftrightarrow> segs \<noteq> [] \<and> is_multi (last segs)"

text \<open>The loop over corresponding segments; the flags tell which pattern ends in a \<open>Multi\<close>.\<close>

fun compare_loop :: "bool \<Rightarrow> bool \<Rightarrow> relationship \<Rightarrow> pat_seg list \<Rightarrow> pat_seg list \<Rightarrow> relationship" where
  "compare_loop m1 m2 rel [] [] = rel"
| "compare_loop m1 m2 rel [] (y # ys) = (if m1 then combine rel MoreGeneral else Disjoint)"
| "compare_loop m1 m2 rel (x # xs) [] = (if m2 then combine rel MoreSpecific else Disjoint)"
| "compare_loop m1 m2 rel (x # xs) (y # ys) =
     (let rel = combine rel (compare_segments x y)
      in if rel = Disjoint then Disjoint else compare_loop m1 m2 rel xs ys)"

definition compare_paths :: "pat_seg list \<Rightarrow> pat_seg list \<Rightarrow> relationship" where
  "compare_paths xs ys =
     (if length xs \<noteq> length ys \<and> \<not> last_multi xs \<and> \<not> last_multi ys then Disjoint
      else compare_loop (last_multi xs) (last_multi ys) Equivalent xs ys)"

definition compare_methods :: "string \<Rightarrow> string \<Rightarrow> relationship" where
  "compare_methods a b =
     (if a = b then Equivalent
      else if a = '''' then MoreGeneral
      else if b = '''' then MoreSpecific
      else if a = ''GET'' \<and> b = ''HEAD'' then MoreGeneral
      else if b = ''GET'' \<and> a = ''HEAD'' then MoreSpecific
      else Disjoint)"

definition paths_clash :: "string \<times> pat_seg list \<Rightarrow> string \<times> pat_seg list \<Rightarrow> bool" where
  "paths_clash = (\<lambda>(host1, segs1) (host2, segs2).
     host1 = host2 \<and> (compare_paths segs1 segs2 = Equivalent \<or> compare_paths segs1 segs2 = Overlaps))"

record 'h route =
  rt_method :: string
  rt_host :: string
  rt_segs :: "pat_seg list"
  rt_handler :: 'h

definition conflicts_with :: "'h route \<Rightarrow> 'h route \<Rightarrow> bool" where
  "conflicts_with a b \<longleftrightarrow>
     rt_host a = rt_host b \<and>
     (let mrel = compare_methods (rt_method a) (rt_method b);
          rel = (if mrel = Disjoint then Disjoint else combine mrel (compare_paths (rt_segs a) (rt_segs b)))
      in rel = Equivalent \<or> rel = Overlaps)"

text \<open>\<open>mux.Handle(method + " " + rest, handler)\<close>: \<open>None\<close> when it panics.\<close>

definition mux_Handle :: "(string \<Rightarrow> bool) \<Rightarrow> string \<Rightarrow> string \<Rightarrow> 'h \<Rightarrow> 'h route list \<Rightarrow> 'h route list option" where
  "mux_Handle uni method rest h mux =
     (case parse_pattern uni rest of
        None \<Rightarrow> None
      | Some (host, segs) \<Rightarrow>
          let r = \<lparr>rt_method = method, rt_host = host, rt_segs = segs, rt_handler = h\<rparr>
          in if list_ex (conflicts_with r) mux then None else Some (mux @ [r]))"

text \<open>Without wildcards two patterns conflict only when they are the same.\<close>

lemma compare_loop_literals:
  "rel = Equivalent \<or> rel = MoreGeneral \<Longrightarrow>
   compare_loop m False rel segs (map Literal ls) \<noteq> Overlaps \<and>
   (compare_loop m False rel segs (map Literal ls) = Equivalent \<longleftrightarrow> rel = Equivalent \<and> segs = map Literal ls)"
proof (induction segs arbitrary: ls rel)
  case Nil
  then show ?case by (cases ls) auto
next
  case (Cons x xs)
  show ?case
  proof (cases ls)
    case Nil
    then show ?thesis by simp
  next
    case (Cons l ls')
    have "compare_segments x (Literal l) = Disjoint \<or> compare_segments x (Literal l) = MoreGeneral \<or>
        compare_segments x (Literal l) = Equivalent \<and> x = Literal l"
      by (cases x) auto
    moreover have "x = Literal l \<Longrightarrow> compare_segments x (Literal l) = Equivalent" by simp
    ultimately show ?thesis
      using Cons.IH[of "combine rel (compare_segments x (Literal l))" ls'] Cons.prems \<open>ls = l # ls'\<close>
      by (auto simp: Let_def)
  qed
qed

lemma last_multi_literals [simp]: "\<not> last_multi (map Literal ls)"
  by (cases ls rule: rev_cases) (auto simp: last_multi_def)

lemma paths_clash_literals:
  "paths_clash (host1, segs) (host2, map Literal ls) \<longleftrightarrow> host1 = host2 \<and> segs = map Literal ls"
  using compare_loop_literals[of Equivalent "last_multi segs" segs ls]
  by (auto simp: paths_clash_def compare_paths_def)

section \<open>net/url\<close>

record URL =
  Scheme :: string
  Host :: string
  Path :: string
  RawQuery :: string

text \<open>\<open>u.String()\<close> for a URL with scheme and host and a path that needs no escaping.\<close>

definition URL_String :: "URL \<Rightarrow> string" where
  "URL_String u =
     Scheme u @ ''://'' @ Host u @ Path u @ (if RawQuery u = '''' then '''' else ''?'' @ RawQuery u)"

end
