(* ===== verification/DemoMain.thy ===== *)
theory DemoMain
  imports DemoRuns GoCmd StreamRaces
begin

text \<open>
  The two commands as a whole. \<open>cmd/mcp-ratchet-demo/main.go\<close>: its flags, \<open>run\<close> from the flags to a
  server that listens, the exit status of \<open>main\<close>; with \<open>internal/adapter/primary/mcp/server.go\<close>, whose
  calls of the MCP SDK are parameters. \<open>cmd/ws-test/main.go\<close>: a client that prints the events it is sent,
  put together with the streaming endpoint it connects to.
\<close>

section \<open>The MCP server adapter\<close>

record Implementation =
  Impl_Name :: string
  Impl_Version :: string

record 'log StreamableHTTPOptions =
  Logger :: "'log option"

text \<open>\<open>mcp.NewServer\<close> and \<open>mcp.NewStreamableHTTPHandler\<close> of the SDK are the first arguments.\<close>

definition NewServer ::
  "(Implementation \<Rightarrow> 'opts option \<Rightarrow> 'srv) \<Rightarrow> string \<Rightarrow> string \<Rightarrow> 'opts option \<Rightarrow> 'srv" where
  "NewServer sdk_NewServer name version opts =
     sdk_NewServer \<lparr>Impl_Name = name, Impl_Version = version\<rparr> opts"

definition StreamableHTTPHandler ::
  "(('req \<Rightarrow> 'srv) \<Rightarrow> 'log StreamableHTTPOptions \<Rightarrow> 'h) \<Rightarrow> 'srv \<Rightarrow> 'log option \<Rightarrow> 'h" where
  "StreamableHTTPHandler sdk_NewHandler srv log =
     (let opts = \<lparr>Logger = None\<rparr>;
          opts = (case log of None \<Rightarrow> opts | Some l \<Rightarrow> opts\<lparr>Logger := Some l\<rparr>)
      in sdk_NewHandler (\<lambda>_. srv) opts)"

section \<open>Flags\<close>

definition demo_flag_set :: FlagSet where
  "demo_flag_set =
     String_flag ''mcp-config'' ''configs/mcp-config.yaml''
       (String_flag ''ratchet-config'' ''''
         (String_flag ''path'' ''/mcp''
           (String_flag ''addr'' '':8080'' Map.empty)))"

definition flags_of :: "FlagSet \<Rightarrow> flags" where
  "flags_of fs =
     \<lparr>flag_addr = the (fs ''addr''), flag_path = the (fs ''path''),
      flag_ratchetConfig = the (fs ''ratchet-config''), flag_mcpConfig = the (fs ''mcp-config'')\<rparr>"

section \<open>Routes\<close>

datatype 'h endpoint = StatsEndpoint | EventsEndpoint | StreamEndpoint | MCPEndpoint 'h

definition run_entries :: "bool \<Rightarrow> MCPConfig \<Rightarrow> flags \<Rightarrow> 'h \<Rightarrow> (string \<times> string \<times> 'h endpoint) list" where
  "run_entries ratchet mcpCfg fl h =
     (if ratchet
      then [(''GET'', ''/observability/stats'', StatsEndpoint), (''GET'', ''/observability/events'', EventsEndpoint)]
      else []) @
     (if ratchet \<and> WebSocketEnabled mcpCfg then [(''GET'', WebSocketPath mcpCfg, StreamEndpoint)] else []) @
     map (\<lambda>method. (method, flag_path fl, MCPEndpoint h)) [''GET'', ''POST'', ''DELETE'']"

text \<open>The registrations in turn, \<open>None\<close> when one panics; \<open>uni\<close> as in \<open>GoCmd\<close>.\<close>

fun handle_all ::
  "(string \<Rightarrow> bool) \<Rightarrow> (string \<times> string \<times> 'e) list \<Rightarrow> 'e route list \<Rightarrow> 'e route list option" where
  "handle_all uni [] mux = Some mux"
| "handle_all uni ((method, rest, h) # es) mux =
     (case mux_Handle uni method rest h mux of None \<Rightarrow> None | Some mux' \<Rightarrow> handle_all uni es mux')"

lemma run_entries_routes:
  "map (\<lambda>(method, rest, h). method @ '' '' @ rest) (run_entries ratchet mcpCfg fl h) = run_routes ratchet mcpCfg fl"
  by (simp add: run_entries_def run_routes_def)

section \<open>From the flags to a server\<close>

datatype 'a run_result = RunFailed error | RunPanicked | RunServing 'a

record 'h demo_server =
  server_addr :: string
  server_mux :: "'h endpoint route list"
  server_ratchet :: "(demo_svc \<times> MemoryEventStore \<times> eventBroadcaster) option"

text \<open>\<open>h\<close> is the HTTP handler of the MCP server. A panic can only come from the registration.\<close>

definition run_server ::
  "(string \<Rightarrow> bool) \<Rightarrow> (string \<Rightarrow> error + string) \<Rightarrow> (string \<Rightarrow> error + MCPConfig) \<Rightarrow> (string \<Rightarrow> error + string) \<Rightarrow>
   (string \<Rightarrow> error + config) \<Rightarrow> (string list \<Rightarrow> string list) \<Rightarrow> 'h \<Rightarrow> flags \<Rightarrow> 'h demo_server run_result" where
  "run_server uni read_file unmarshal open_file decode shuffle h fl =
     (let mcpCfg = mcp_config read_file unmarshal fl
      in case setup_ratchet open_file decode shuffle mcpCfg fl of
           Inl err \<Rightarrow> RunFailed err
         | Inr ratchet \<Rightarrow>
             (case handle_all uni (run_entries (ratchet \<noteq> None) mcpCfg fl h) [] of
                None \<Rightarrow> RunPanicked
              | Some mux \<Rightarrow>
                  RunServing \<lparr>server_addr = run_addr mcpCfg fl, server_mux = mux, server_ratchet = ratchet\<rparr>))"

text \<open>
  The exit status of the process for its command line; \<open>ev\<close> and \<open>closed\<close> are what the end of \<open>run\<close>
  sees. An unknown flag and a panic end a Go program with status 2.
\<close>

definition demo_main ::
  "(flags \<Rightarrow> 'h demo_server run_result) \<Rightarrow> (error \<Rightarrow> bool) \<Rightarrow> run_event \<Rightarrow> string list \<Rightarrow> nat" where
  "demo_main run closed ev args =
     (case flag_Parse args demo_flag_set of
        HelpRequested \<Rightarrow> 0
      | FlagError msg \<Rightarrow> 2
      | Parsed fs \<Rightarrow>
          (case run (flags_of fs) of
             RunFailed err \<Rightarrow> main_exit (Some err)
           | RunPanicked \<Rightarrow> 2
           | RunServing srv \<Rightarrow> main_exit (run_end closed ev)))"

section \<open>Registration\<close>

definition handler_route :: "string \<Rightarrow> string \<times> pat_seg list \<Rightarrow> 'h \<Rightarrow> 'h route" where
  "handler_route method pat h = \<lparr>rt_method = method, rt_host = fst pat, rt_segs = snd pat, rt_handler = h\<rparr>"

lemma mux_Handle_route:
  "mux_Handle uni method rest h mux =
     (case parse_pattern uni rest of
        None \<Rightarrow> None
      | Some pat \<Rightarrow>
          if list_ex (conflicts_with (handler_route method pat h)) mux then None
          else Some (mux @ [handler_route method pat h]))"
  by (simp add: mux_Handle_def handler_route_def Let_def split: option.split prod.split)

lemma conflicts_same_method [simp]:
  "conflicts_with (handler_route m pat h) (handler_route m pat' h') = paths_clash pat pat'"
  by (auto simp: conflicts_with_def handler_route_def compare_methods_def paths_clash_def split: prod.split)

lemma conflicts_other_method [simp]:
  "m \<in> {''POST'', ''DELETE''} \<Longrightarrow> m' \<in> {''GET'', ''POST''} \<Longrightarrow> m \<noteq> m' \<Longrightarrow>
   \<not> conflicts_with (handler_route m pat h) (handler_route m' pat' h')"
  by (auto simp: conflicts_with_def handler_route_def compare_methods_def)

definition stats_pattern :: "string \<times> pat_seg list" where
  "stats_pattern = ('''', map Literal [''observability'', ''stats''])"

definition events_pattern :: "string \<times> pat_seg list" where
  "events_pattern = ('''', map Literal [''observability'', ''events''])"

lemma fixed_patterns [simp]:
  "parse_pattern uni ''/observability/stats'' = Some stats_pattern"
  "parse_pattern uni ''/observability/events'' = Some events_pattern"
  by code_simp+

lemma clash_fixed [simp]:
  "paths_clash pat stats_pattern \<longleftrightarrow> pat = stats_pattern"
  "paths_clash pat events_pattern \<longleftrightarrow> pat = events_pattern"
  by (cases pat; simp only: stats_pattern_def events_pattern_def paths_clash_literals prod.inject)+

lemma stats_not_events [simp]: "events_pattern \<noteq> stats_pattern"
  by (simp add: stats_pattern_def events_pattern_def)

text \<open>A brace that is not closed is no pattern; an escape may spell another endpoint.\<close>

lemma path_examples:
  "parse_pattern uni ''/mcp'' = Some ('''', [Literal ''mcp''])"
  "parse_pattern uni ''/%6dcp'' = Some ('''', [Literal ''mcp''])"
  "parse_pattern uni ''/{'' = None"
  "parse_pattern uni ''mcp'' = None"
  "parse_pattern uni ''/a//b'' = None"
  by code_simp+

section \<open>What the server command guarantees\<close>

text \<open>
  The command line is read as it was meant: any settings of the four flags, in any order and
  with any values, give each flag its last value, and its default when it is not set.
\<close>

theorem flags_roundtrip:
  assumes "set (map fst kvs) \<subseteq> {''addr'', ''path'', ''ratchet-config'', ''mcp-config''}"
  shows "\<exists>fs. flag_Parse (flag_args kvs) demo_flag_set = Parsed fs \<and>
    flags_of fs =
      (let get = (\<lambda>n d. case map_of (rev kvs) n of None \<Rightarrow> d | Some v \<Rightarrow> v)
       in \<lparr>flag_addr = get ''addr'' '':8080'', flag_path = get ''path'' ''/mcp'',
           flag_ratchetConfig = get ''ratchet-config'' '''',
           flag_mcpConfig = get ''mcp-config'' ''configs/mcp-config.yaml''\<rparr>)"
proof -
  have "flag_name n \<and> n \<in> dom demo_flag_set" if "(n, v) \<in> set kvs" for n v
  proof -
    from that have "n \<in> set (map fst kvs)" by force
    with assms have "n \<in> {''addr'', ''path'', ''ratchet-config'', ''mcp-config''}" by blast
    then show ?thesis by (auto simp: flag_name_def demo_flag_set_def String_flag_def)
  qed
  then have "flag_Parse (flag_args kvs) demo_flag_set = Parsed (demo_flag_set ++ map_of (rev kvs))"
    by (intro flag_Parse_args) blast
  moreover have "flags_of (demo_flag_set ++ map_of (rev kvs)) =
      (let get = (\<lambda>n d. case map_of (rev kvs) n of None \<Rightarrow> d | Some v \<Rightarrow> v)
       in \<lparr>flag_addr = get ''addr'' '':8080'', flag_path = get ''path'' ''/mcp'',
           flag_ratchetConfig = get ''ratchet-config'' '''',
           flag_mcpConfig = get ''mcp-config'' ''configs/mcp-config.yaml''\<rparr>)"
    by (simp add: flags_of_def demo_flag_set_def String_flag_def map_add_def Let_def split: option.splits)
  ultimately show ?thesis by blast
qed

theorem flags_roundtrip_witness:
  "\<exists>fs. flag_Parse [''-path=/a=b'', ''-addr=:1'', ''-path=''] demo_flag_set = Parsed fs \<and>
     flags_of fs = \<lparr>flag_addr = '':1'', flag_path = '''', flag_ratchetConfig = '''',
                    flag_mcpConfig = ''configs/mcp-config.yaml''\<rparr>"
  using flags_roundtrip[of "[(''path'', ''/a=b''), (''addr'', '':1''), (''path'', '''')]"]
  by (simp add: flag_args_def)

text \<open>
  C30: The server command panics on start exactly when its setup succeeds and the MCP path is no
  pattern of \<open>ServeMux\<close>, or with a ratchet is the pattern of another endpoint, or with WebSockets the
  stream's path is no pattern, is that of another endpoint or clashes with the MCP path. No pattern
  is a text without a path, with a path that is not clean or with a malformed wildcard; two
  patterns clash when they have the same host and paths that are equivalent or overlap.
\<close>

theorem run_panics_iff:
  "run_server uni read_file unmarshal open_file decode shuffle h fl = RunPanicked \<longleftrightarrow>
   (let mcpCfg = mcp_config read_file unmarshal fl;
        mcp = parse_pattern uni (flag_path fl);
        ws = parse_pattern uni (WebSocketPath mcpCfg);
        fixed = {Some ('''', [Literal ''observability'', Literal ''stats'']),
                 Some ('''', [Literal ''observability'', Literal ''events''])}
    in \<exists>ratchet. setup_ratchet open_file decode shuffle mcpCfg fl = Inr ratchet \<and>
         (mcp = None \<or> ratchet \<noteq> None \<and> mcp \<in> fixed \<or>
          ratchet \<noteq> None \<and> WebSocketEnabled mcpCfg \<and>
            (ws = None \<or> ws \<in> fixed \<or>
             (\<exists>host p q. mcp = Some (host, p) \<and> ws = Some (host, q) \<and>
                (compare_paths p q = Equivalent \<or> compare_paths p q = Overlaps)))))"
proof -
  have handle: "handle_all uni (run_entries r cfg fl h) [] = None \<longleftrightarrow>
      parse_pattern uni (flag_path fl) = None \<or>
      r \<and> parse_pattern uni (flag_path fl) \<in> {Some stats_pattern, Some events_pattern} \<or>
      r \<and> WebSocketEnabled cfg \<and> (parse_pattern uni (WebSocketPath cfg) = None \<or>
        parse_pattern uni (WebSocketPath cfg) \<in> {Some stats_pattern, Some events_pattern} \<or>
        (\<exists>p q. parse_pattern uni (flag_path fl) = Some p \<and> parse_pattern uni (WebSocketPath cfg) = Some q \<and>
           paths_clash p q))" for r cfg
    by (cases r; cases "WebSocketEnabled cfg"; cases "parse_pattern uni (flag_path fl)";
        cases "parse_pattern uni (WebSocketPath cfg)")
      (simp_all add: run_entries_def mux_Handle_route disj_comms)
  have clash: "(\<exists>p q. mcp = Some p \<and> ws = Some q \<and> paths_clash p q) \<longleftrightarrow>
      (\<exists>host p q. mcp = Some (host, p) \<and> ws = Some (host, q) \<and>
         (compare_paths p q = Equivalent \<or> compare_paths p q = Overlaps))" for mcp ws
    by (auto simp: paths_clash_def)
  have "run_server uni read_file unmarshal open_file decode shuffle h fl = RunPanicked \<longleftrightarrow>
      (\<exists>ratchet. setup_ratchet open_file decode shuffle (mcp_config read_file unmarshal fl) fl = Inr ratchet \<and>
         handle_all uni (run_entries (ratchet \<noteq> None) (mcp_config read_file unmarshal fl) fl h) [] = None)"
    by (auto simp: run_server_def Let_def split: sum.splits option.splits)
  then show ?thesis unfolding handle Let_def clash stats_pattern_def events_pattern_def list.map .
qed

section \<open>The streaming client\<close>

text \<open>
  \<open>cmd/ws-test\<close>: dial, print every message, stop at the first read error. \<open>dial\<close> is the dialer of
  the WebSocket package, \<open>reads\<close> what \<open>ReadMessage\<close> gives on a connection, one answer after the
  other. The result is what is printed and the exit status, none while the client is still reading.
\<close>

definition ws_test_url :: string where
  "ws_test_url = URL_String
     \<lparr>Scheme = ''ws'', Host = ''localhost:8787'', Path = ''/observability/stream'',
      RawQuery = ''session_id=demo-session''\<rparr>"

fun ws_test_loop :: "(error + string) list \<Rightarrow> string list \<times> nat option" where
  "ws_test_loop [] = ([], None)"
| "ws_test_loop (Inl err # rs) = ([], Some 0)"
| "ws_test_loop (Inr message # rs) =
     (let (out, status) = ws_test_loop rs in ((''EVENT: '' @ message @ [CHR 0x0A]) # out, status))"

definition ws_test_main ::
  "(string \<Rightarrow> error + 'conn) \<Rightarrow> ('conn \<Rightarrow> (error + string) list) \<Rightarrow> string list \<times> nat option" where
  "ws_test_main dial reads =
     (case dial ws_test_url of
        Inl err \<Rightarrow> ([], Some 1)
      | Inr c \<Rightarrow> ws_test_loop (reads c))"

lemma ws_test_loop_messages:
  "ws_test_loop (map Inr ms @ [Inl err]) = (map (\<lambda>m. ''EVENT: '' @ m @ [CHR 0x0A]) ms, Some 0)"
  by (induction ms) simp_all

text \<open>It asks for the session of the wrapped tools, but not at the port the server listens on by default.\<close>

lemma ws_test_url_eq: "ws_test_url = ''ws://localhost:8787/observability/stream?session_id='' @ demo_session"
  by (simp add: ws_test_url_def URL_String_def demo_session_def)

lemma ws_test_misses_default: "''ws://localhost'' @ flag_addr (flags_of demo_flag_set) @ ''/observability/stream?session_id='' @ demo_session \<noteq> ws_test_url"
  by code_simp

text \<open>
  C35: The client prints one line for each message sent to it: one confirmation of the session of the
  wrapped tools, and events of that session, all that were stored since it subscribed and none that
  was not stored, nor more often; it ends with status 0 when the connection ends. The lines are in
  the order of the writes: neither the order of the log nor the confirmation first is promised
  (C27). The server's requests and clients interleave in any way (retention off); no publisher is at
  work, the handler of this client reads, and no call of \<open>WriteJSON\<close> on the connection has overlapped
  another or failed, and no panic cut a broadcast short. \<open>enc\<close> is the JSON encoding of a message.
\<close>

theorem client_prints_session_log:
  assumes "stream_reach n s" and "\<forall>p\<in>set (pubs s). p = Quiet" and "handlers s c = Reading demo_session k"
    and "c \<notin> overlapped s \<union> failed s \<union> skipped s"
    and "dial ws_test_url = Inr c" and "reads c = map Inr (map enc (wire s c)) @ [Inl err]"
  shows "\<exists>msgs. ws_test_main dial reads = (map (\<lambda>msg. ''EVENT: '' @ enc msg @ [CHR 0x0A]) msgs, Some 0) \<and>
    confirms_in msgs = [demo_session] \<and>
    mset (filter (\<lambda>e. EvSession e = demo_session) (drop k (events (base s)))) \<subseteq># mset (events_in msgs) \<and>
    mset (events_in msgs) \<subseteq># mset (filter (\<lambda>e. EvSession e = demo_session) (events (base s)))"
proof (intro exI conjI)
  show "ws_test_main dial reads = (map (\<lambda>msg. ''EVENT: '' @ enc msg @ [CHR 0x0A]) (wire s c), Some 0)"
    unfolding ws_test_main_def assms(5,6) sum.case ws_test_loop_messages by (simp add: comp_def)
  from reach_wired[OF assms(1), of c] assms(4) have "wire s c = write_calls (hub s) c" by (simp add: wired_def)
  with reach_confirmed[OF assms(1), of c] assms(3) show "confirms_in (wire s c) = [demo_session]"
    by (simp add: confirmed_def)
  from streamed[OF assms(1-3)] assms(4)
  show "mset (filter (\<lambda>e. EvSession e = demo_session) (drop k (events (base s)))) \<subseteq># mset (events_in (wire s c))"
    and "mset (events_in (wire s c)) \<subseteq># mset (filter (\<lambda>e. EvSession e = demo_session) (events (base s)))"
    by (simp_all add: session_log_def)
qed

text \<open>The witness: the confirmation comes second, between two events that are in the other order in the log.\<close>

theorem client_prints_session_log_witness:
  "\<exists>s reads. stream_exec
      [Want 7, Join 7 demo_session, Emit 0 (ex_event ''1'' demo_session), Emit 1 (ex_event ''2'' demo_session),
       Acquire 1, WriteBegin 1 7, WriteEnd 1 Sent, Release 1, ConfirmBegin 7, ConfirmEnd 7 Sent,
       Acquire 0, WriteBegin 0 7, WriteEnd 0 Sent, Release 0] (stream_start 2) = Some s \<and>
     map EvID (events (base s)) = [''1'', ''2''] \<and>
     ws_test_main (\<lambda>url. if url = ws_test_url then Inr (7 :: nat) else Inl (NewError ''refused'')) reads =
       ([''EVENT: 2'' @ [CHR 0x0A], ''EVENT: connected'' @ [CHR 0x0A], ''EVENT: 1'' @ [CHR 0x0A]], Some 0) \<and>
     (\<exists>msgs. confirms_in msgs = [demo_session] \<and>
       mset (filter (\<lambda>e. EvSession e = demo_session) (events (base s))) \<subseteq># mset (events_in msgs))"
proof -
  let ?dial = "\<lambda>url. if url = ws_test_url then Inr (7 :: nat) else Inl (NewError ''refused'')"
  let ?enc = "\<lambda>msg. case msg of Connected sid \<Rightarrow> ''connected'' | EventMessage e \<Rightarrow> EvID e"
  let ?acts = "[Want 7, Join 7 demo_session, Emit 0 (ex_event ''1'' demo_session), Emit 1 (ex_event ''2'' demo_session),
       Acquire 1, WriteBegin 1 7, WriteEnd 1 Sent, Release 1, ConfirmBegin 7, ConfirmEnd 7 Sent,
       Acquire 0, WriteBegin 0 7, WriteEnd 0 Sent, Release 0]"
  have sid: "demo_session \<noteq> ''''" by (simp add: demo_session_def)
  obtain s where s: "stream_exec ?acts (stream_start 2) = Some s"
    and q: "\<forall>p\<in>set (pubs s). p = Quiet" "handlers s 7 = Reading demo_session 0"
      "7 \<notin> overlapped s \<union> failed s \<union> skipped s"
    and ev: "map EvID (events (base s)) = [''1'', ''2'']"
    and w: "wire s 7 = [EventMessage (ex_event ''2'' demo_session), Connected demo_session,
                        EventMessage (ex_event ''1'' demo_session)]"
    using sid by (simp add: stream_eval)
  let ?reads = "\<lambda>c :: nat. map Inr (map ?enc (wire s 7)) @ [Inl (NewError ''closed'')]"
  have out: "ws_test_main ?dial ?reads =
      ([''EVENT: 2'' @ [CHR 0x0A], ''EVENT: connected'' @ [CHR 0x0A], ''EVENT: 1'' @ [CHR 0x0A]], Some 0)"
    by (simp add: ws_test_main_def w ex_event_def)
  from client_prints_session_log[OF reach_exec[OF stream_reach.start s] q, of ?dial ?reads ?enc "NewError ''closed''"]
  obtain msgs where "confirms_in msgs = [demo_session]"
    "mset (filter (\<lambda>e. EvSession e = demo_session) (events (base s))) \<subseteq># mset (events_in msgs)" by auto
  then show ?thesis using s ev out by (intro exI[of _ s] exI[of _ ?reads] exI[of _ msgs] conjI)
qed

end
