(* ===== verification/GoJson.thy ===== *)
theory GoJson
  imports GoTime CryptoRandom "HOL-Library.List_Lexorder" "HOL-Library.Char_ord"
begin

text \<open>
  What the program uses of \<open>encoding/json\<close>: the text of a value built from null, natural numbers,
  strings, arrays and objects, as \<open>json.NewEncoder\<close> writes it (compact, with HTML escaping). A
  string is a list of bytes: bytes that are not UTF-8 are replaced, the others are kept or escaped.

  A reference reader of JSON is given too, after RFC 8259 and without white space. Reading what was
  written gives the value again when its strings are UTF-8 (\<open>read_text\<close>), so the text determines
  the value.
\<close>

section \<open>Values and their text\<close>

datatype json =
    JNull
  | JNum nat
  | JStr string
  | JArr "json list"
  | JObj "(string \<times> json) list"

abbreviation byte :: "char \<Rightarrow> nat" where
  "byte c \<equiv> of_char c"

text \<open>A byte that continues a rune, and the length of the rune at the front: 0 when there is none.\<close>

definition cont :: "char \<Rightarrow> bool" where
  "cont c \<longleftrightarrow> 128 \<le> byte c \<and> byte c \<le> 191"

definition conts :: "nat \<Rightarrow> string \<Rightarrow> bool" where
  "conts n s \<longleftrightarrow> n \<le> length s \<and> list_all cont (take n s)"

fun rune_len :: "string \<Rightarrow> nat" where
  "rune_len [] = 0"
| "rune_len (a # s) =
     (if byte a < 128 then 1
      else if 194 \<le> byte a \<and> byte a \<le> 223 then (if conts 1 s then 2 else 0)
      else if 224 \<le> byte a \<and> byte a \<le> 239 then
        (if conts 2 s \<and> (byte a = 224 \<longrightarrow> 160 \<le> byte (hd s)) \<and> (byte a = 237 \<longrightarrow> byte (hd s) \<le> 159) then 3 else 0)
      else if 240 \<le> byte a \<and> byte a \<le> 244 then
        (if conts 3 s \<and> (byte a = 240 \<longrightarrow> 144 \<le> byte (hd s)) \<and> (byte a = 244 \<longrightarrow> byte (hd s) \<le> 143) then 4 else 0)
      else 0)"

abbreviation backslash :: char where "backslash \<equiv> CHR 0x5C"
abbreviation quote :: char where "quote \<equiv> CHR 0x22"

text \<open>The text of an ASCII byte: quotes, backslashes, control characters and \<open>< > &\<close> are escaped.\<close>

definition json_byte :: "char \<Rightarrow> string" where
  "json_byte c =
     (let n = byte c in
      if n = 34 \<or> n = 92 then [backslash, c]
      else if n = 8 then [backslash, CHR ''b''] else if n = 12 then [backslash, CHR ''f'']
      else if n = 10 then [backslash, CHR ''n''] else if n = 13 then [backslash, CHR ''r'']
      else if n = 9 then [backslash, CHR ''t'']
      else if n < 32 \<or> n = 60 \<or> n = 62 \<or> n = 38
        then backslash # ''u00'' @ [hex_digit (n div 16), hex_digit (n mod 16)]
      else [c])"

text \<open>The line and paragraph separators U+2028 and U+2029.\<close>

definition line_sep :: string where "line_sep = map char_of [226, 128, 168 :: nat]"
definition par_sep :: string where "par_sep = map char_of [226, 128, 169 :: nat]"

function json_chars :: "string \<Rightarrow> string" where
  "json_chars [] = []"
| "json_chars (c # s) =
     (if byte c < 128 then json_byte c @ json_chars s
      else if rune_len (c # s) = 0 then (backslash # ''ufffd'') @ json_chars s
      else let n = rune_len (c # s); r = take n (c # s)
           in (if r = line_sep then backslash # ''u2028'' else if r = par_sep then backslash # ''u2029'' else r)
                @ json_chars (drop n (c # s)))"
  by pat_completeness auto
termination json_chars
  by (relation "measure length") (auto simp del: rune_len.simps)

definition json_string :: "string \<Rightarrow> string" where
  "json_string s = quote # json_chars s @ [quote]"

fun join :: "string list \<Rightarrow> string" where
  "join [] = []"
| "join [x] = x"
| "join (x # y # xs) = x @ '','' @ join (y # xs)"

fun json_text :: "json \<Rightarrow> string" where
  "json_text JNull = ''null''"
| "json_text (JNum n) = decimal n"
| "json_text (JStr s) = json_string s"
| "json_text (JArr vs) = ''['' @ join (map json_text vs) @ '']''"
| "json_text (JObj kvs) = ''{'' @ join (map (\<lambda>(k, v). json_string k @ '':'' @ json_text v) kvs) @ ''}''"

text \<open>\<open>Encoder.Encode\<close> ends the text with a newline.\<close>

definition json_Encode :: "json \<Rightarrow> string" where
  "json_Encode v = json_text v @ [CHR 0x0A]"

text \<open>A Go map with string keys: its keys are sorted.\<close>

definition json_map :: "('v \<Rightarrow> json) \<Rightarrow> (string \<rightharpoonup> 'v) \<Rightarrow> json" where
  "json_map f m = JObj (map (\<lambda>k. (k, f (the (m k)))) (sorted_list_of_set (dom m)))"

section \<open>UTF-8\<close>

function utf8 :: "string \<Rightarrow> bool" where
  "utf8 [] = True"
| "utf8 (c # s) = (if rune_len (c # s) = 0 then False else utf8 (drop (rune_len (c # s)) (c # s)))"
  by pat_completeness auto
termination utf8
  by (relation "measure length") (auto simp del: rune_len.simps)

declare json_chars.simps(2) [simp del] utf8.simps(2) [simp del]

lemma rune_len_ascii: "byte c < 128 \<Longrightarrow> rune_len (c # s) = 1"
  by simp

text \<open>A longer rune is its first byte and continuation bytes, none of them ASCII.\<close>

lemma rune_len_conts:
  assumes "128 \<le> byte c" and "rune_len (c # s) \<noteq> 0"
  shows "\<exists>n. rune_len (c # s) = Suc n \<and> conts n s"
  using assms by (auto simp: eval_nat_numeral split: if_splits)

lemma rune_bytes:
  assumes "128 \<le> byte c" and "b \<in> set (take (rune_len (c # s)) (c # s))"
  shows "128 \<le> byte b"
proof (cases "rune_len (c # s) = 0")
  case True
  with assms(2) show ?thesis by simp
next
  case False
  with rune_len_conts[OF assms(1) this] obtain n where "rune_len (c # s) = Suc n" "conts n s" by blast
  with assms show ?thesis by (auto simp: conts_def list_all_iff cont_def simp del: rune_len.simps)
qed

section \<open>A reader of JSON strings\<close>

definition utf8_of :: "nat \<Rightarrow> string" where
  "utf8_of n =
     (if n < 128 then [char_of n]
      else if n < 2048 then [char_of (192 + n div 64), char_of (128 + n mod 64)]
      else [char_of (224 + n div 4096), char_of (128 + n div 64 mod 64), char_of (128 + n mod 64)])"

definition hex4 :: "char \<Rightarrow> char \<Rightarrow> char \<Rightarrow> char \<Rightarrow> nat option" where
  "hex4 a b c d =
     (if list_all (\<lambda>h. hex_val h < 16 \<and> hex_digit (hex_val h) = h) [a, b, c, d]
      then Some (((hex_val a * 16 + hex_val b) * 16 + hex_val c) * 16 + hex_val d) else None)"

definition unescape :: "char \<Rightarrow> char option" where
  "unescape e =
     map_of [(quote, quote), (backslash, backslash), (CHR ''/'', CHR ''/''), (CHR ''b'', CHR 0x08), (CHR ''f'', CHR 0x0C),
             (CHR ''n'', CHR 0x0A), (CHR ''r'', CHR 0x0D), (CHR ''t'', CHR 0x09)] e"

definition before_it :: "string \<Rightarrow> (string \<times> string) option \<Rightarrow> (string \<times> string) option" where
  "before_it p x = (case x of None \<Rightarrow> None | Some (s, r) \<Rightarrow> Some (p @ s, r))"

text \<open>From after the opening quote: the string and what follows the closing quote.\<close>

fun read_chars :: "string \<Rightarrow> (string \<times> string) option" where
  "read_chars [] = None"
| "read_chars (c # s) =
     (if c = quote then Some ([], s)
      else if c = backslash then
        (case s of
           [] \<Rightarrow> None
         | e # t \<Rightarrow>
             (case unescape e of
                Some b \<Rightarrow> before_it [b] (read_chars t)
              | None \<Rightarrow>
                  if e = CHR ''u'' then
                    (case t of
                       h1 # h2 # h3 # h4 # r \<Rightarrow>
                         (case hex4 h1 h2 h3 h4 of
                            None \<Rightarrow> None
                          | Some n \<Rightarrow> if 55296 \<le> n \<and> n < 57344 then None else before_it (utf8_of n) (read_chars r))
                     | _ \<Rightarrow> None)
                  else None))
      else if byte c < 32 then None
      else before_it [c] (read_chars s))"

declare read_chars.simps(2) [simp del]

lemma before_it_simps [simp]:
  "before_it p (before_it q x) = before_it (p @ q) x" "before_it [] x = x" "before_it p (Some (s, r)) = Some (p @ s, r)"
  by (auto simp: before_it_def split: option.splits)

lemma read_plain: "c \<noteq> quote \<Longrightarrow> c \<noteq> backslash \<Longrightarrow> 32 \<le> byte c \<Longrightarrow> read_chars (c # s) = before_it [c] (read_chars s)"
  by (simp add: read_chars.simps(2))

lemma read_high: "\<forall>b\<in>set bs. 128 \<le> byte b \<Longrightarrow> read_chars (bs @ s) = before_it bs (read_chars s)"
proof (induction bs)
  case Nil
  then show ?case by simp
next
  case (Cons b bs)
  then have "128 \<le> byte b" by simp
  then have "b \<noteq> quote" "b \<noteq> backslash" "32 \<le> byte b" by auto
  with Cons show ?case by (simp add: read_plain)
qed

lemma read_escaped: "unescape e = Some b \<Longrightarrow> read_chars (backslash # e # s) = before_it [b] (read_chars s)"
  by (simp add: read_chars.simps(2))

lemma read_hex:
  assumes "hex4 h1 h2 h3 h4 = Some n" and "n < 55296"
  shows "read_chars (backslash # CHR ''u'' # h1 # h2 # h3 # h4 # s) = before_it (utf8_of n) (read_chars s)"
  using assms by (simp add: read_chars.simps(2) unescape_def)

lemma hex_digit_0: "hex_digit 0 = CHR ''0''" by code_simp

lemma hex4_separators:
  "hex4 (CHR ''2'') (CHR ''0'') (CHR ''2'') (CHR ''8'') = Some 8232"
  "hex4 (CHR ''2'') (CHR ''0'') (CHR ''2'') (CHR ''9'') = Some 8233"
  by code_simp+

lemma hex4_low:
  assumes "n < 256"
  shows "hex4 (CHR ''0'') (CHR ''0'') (hex_digit (n div 16)) (hex_digit (n mod 16)) = Some n"
proof -
  have "n div 16 < 16" using assms by simp
  then have "hex_val (hex_digit (n div 16)) = n div 16" "hex_val (hex_digit (n mod 16)) = n mod 16" by simp_all
  moreover have "hex_val (CHR ''0'') = 0" unfolding hex_digit_0[symmetric] by simp
  ultimately show ?thesis using \<open>n div 16 < 16\<close> by (simp add: hex4_def hex_digit_0)
qed

lemma short_escapes:
  "list_all (\<lambda>(n, e). json_byte (char_of (n :: nat)) = [backslash, e] \<and> unescape e = Some (char_of n))
     [(34, quote), (92, backslash), (8, CHR ''b''), (12, CHR ''f''), (10, CHR ''n''), (13, CHR ''r''), (9, CHR ''t'')]"
  by code_simp

lemma read_json_byte:
  assumes "byte c < 128"
  shows "read_chars (json_byte c @ s) = before_it [c] (read_chars s)"
proof -
  have c: "c = char_of (byte c)" by simp
  let ?n = "byte c"
  consider "?n \<in> {34, 92, 8, 12, 10, 13, 9}"
    | "?n \<notin> {34, 92, 8, 12, 10, 13, 9}" "?n < 32 \<or> ?n = 60 \<or> ?n = 62 \<or> ?n = 38"
    | "32 \<le> ?n" "?n \<notin> {34, 92}" "\<not> (?n = 60 \<or> ?n = 62 \<or> ?n = 38)" by fastforce
  then show ?thesis
  proof cases
    case 1
    then obtain e where "json_byte (char_of ?n) = [backslash, e]" "unescape e = Some (char_of ?n)"
      using short_escapes by (auto simp only: list.pred_inject prod.case insert_iff empty_iff)
    with read_escaped[of e c s] show ?thesis by simp
  next
    case 2
    have h: "hex4 (CHR ''0'') (CHR ''0'') (hex_digit (?n div 16)) (hex_digit (?n mod 16)) = Some ?n"
      using assms by (intro hex4_low) simp
    have "utf8_of ?n = [c]" using assms by (simp add: utf8_of_def)
    with 2 read_hex[OF h, of s] assms show ?thesis by (auto simp: json_byte_def Let_def)
  next
    case 3
    then have "c \<noteq> quote" "c \<noteq> backslash" by auto
    with 3 read_plain[of c s] show ?thesis by (auto simp: json_byte_def Let_def)
  qed
qed

lemma read_json_chars:
  "utf8 s \<Longrightarrow> read_chars (json_chars s @ quote # rest) = Some (s, rest)"
proof (induction s rule: json_chars.induct)
  case 1
  then show ?case by (simp add: read_chars.simps(2))
next
  case (2 c s)
  let ?n = "rune_len (c # s)"
  from 2(4) have n: "?n \<noteq> 0" "utf8 (drop ?n (c # s))"
    by (simp_all add: utf8.simps(2) del: rune_len.simps split: if_splits)
  show ?case
  proof (cases "byte c < 128")
    case True
    with n(2) have "utf8 s" using rune_len_ascii[OF True, of s] by (simp del: rune_len.simps)
    with 2(1)[OF True] True show ?thesis by (simp add: json_chars.simps(2) read_json_byte)
  next
    case False
    let ?r = "take ?n (c # s)"
    have IH: "read_chars (json_chars (drop ?n (c # s)) @ quote # rest) = Some (drop ?n (c # s), rest)"
      using 2(3)[OF False n(1) refl refl n(2)] .
    have "128 \<le> byte b" if "b \<in> set ?r" for b using rune_bytes[of c b s] False that by linarith
    then have r: "read_chars (?r @ t) = before_it ?r (read_chars t)" for t by (intro read_high) blast
    have "utf8_of 8232 = line_sep" "utf8_of 8233 = par_sep"
      by (simp_all add: utf8_of_def line_sep_def par_sep_def)
    with hex4_separators have seps: "read_chars ((backslash # ''u2028'') @ t) = before_it line_sep (read_chars t)"
      "read_chars ((backslash # ''u2029'') @ t) = before_it par_sep (read_chars t)" for t
      using read_hex[of "CHR ''2''" "CHR ''0''" "CHR ''2''" "CHR ''8''" 8232 t]
        read_hex[of "CHR ''2''" "CHR ''0''" "CHR ''2''" "CHR ''9''" 8233 t] by simp_all
    have "json_chars (c # s) =
        (if ?r = line_sep then backslash # ''u2028'' else if ?r = par_sep then backslash # ''u2029'' else ?r)
          @ json_chars (drop ?n (c # s))"
      using False n(1) by (simp only: json_chars.simps(2) Let_def if_False)
    moreover have "read_chars ((if ?r = line_sep then backslash # ''u2028'' else if ?r = par_sep then backslash # ''u2029''
        else ?r) @ t) = before_it ?r (read_chars t)" for t
      using seps[of t] r[of t] by presburger
    ultimately have "read_chars (json_chars (c # s) @ quote # rest) =
        before_it ?r (Some (drop ?n (c # s), rest))"
      using IH by (simp only: append_assoc)
    then show ?thesis by (simp only: before_it_simps append_take_drop_id)
  qed
qed

section \<open>A reader of JSON values\<close>

text \<open>The first argument bounds the depth of the recursion; the length of the text is always enough.\<close>

fun read_value :: "nat \<Rightarrow> string \<Rightarrow> (json \<times> string) option"
  and read_elems :: "nat \<Rightarrow> string \<Rightarrow> (json list \<times> string) option"
  and read_members :: "nat \<Rightarrow> string \<Rightarrow> ((string \<times> json) list \<times> string) option" where
  "read_value 0 s = None"
| "read_value (Suc n) s =
     (case s of
        [] \<Rightarrow> None
      | c # t \<Rightarrow>
          if c = CHR ''n'' then (if take 3 t = ''ull'' then Some (JNull, drop 3 t) else None)
          else if is_digit c then Some (JNum (nat (digits_val (takeWhile is_digit s))), dropWhile is_digit s)
          else if c = quote then map_option (\<lambda>(x, r). (JStr x, r)) (read_chars t)
          else if c = CHR ''['' then
            (case t of
               d # r \<Rightarrow> if d = CHR '']'' then Some (JArr [], r) else map_option (\<lambda>(vs, r). (JArr vs, r)) (read_elems n t)
             | [] \<Rightarrow> None)
          else if c = CHR ''{'' then
            (case t of
               d # r \<Rightarrow> if d = CHR ''}'' then Some (JObj [], r) else map_option (\<lambda>(kvs, r). (JObj kvs, r)) (read_members n t)
             | [] \<Rightarrow> None)
          else None)"
| "read_elems 0 s = None"
| "read_elems (Suc n) s =
     (case read_value n s of
        Some (v, c # r) \<Rightarrow>
          if c = CHR '','' then map_option (\<lambda>(vs, r). (v # vs, r)) (read_elems n r)
          else if c = CHR '']'' then Some ([v], r) else None
      | _ \<Rightarrow> None)"
| "read_members 0 s = None"
| "read_members (Suc n) s =
     (case s of
        q # t \<Rightarrow>
          if q = quote then
            (case read_chars t of
               Some (k, col # r) \<Rightarrow>
                 if col = CHR '':'' then
                   (case read_value n r of
                      Some (v, c # r) \<Rightarrow>
                        if c = CHR '','' then map_option (\<lambda>(kvs, r). ((k, v) # kvs, r)) (read_members n r)
                        else if c = CHR ''}'' then Some ([(k, v)], r) else None
                    | _ \<Rightarrow> None)
                 else None
             | _ \<Rightarrow> None)
          else None
      | [] \<Rightarrow> None)"

text \<open>A whole text, with or without the newline at its end.\<close>

definition read_json :: "string \<Rightarrow> json option" where
  "read_json s =
     (case read_value (length s) s of
        Some (v, r) \<Rightarrow> if r = [] \<or> r = [CHR 0x0A] then Some v else None
      | None \<Rightarrow> None)"

section \<open>What was written is read again\<close>

fun json_utf8 :: "json \<Rightarrow> bool" where
  "json_utf8 JNull = True"
| "json_utf8 (JNum n) = True"
| "json_utf8 (JStr s) = utf8 s"
| "json_utf8 (JArr vs) = list_all json_utf8 vs"
| "json_utf8 (JObj kvs) = list_all (\<lambda>(k, v). utf8 k \<and> json_utf8 v) kvs"

text \<open>The recursion depth that reading a value takes.\<close>

fun fuel :: "json \<Rightarrow> nat" where
  "fuel (JArr vs) = Suc (sum_list (map (\<lambda>v. Suc (fuel v)) vs))"
| "fuel (JObj kvs) = Suc (sum_list (map (\<lambda>(k, v). Suc (fuel v)) kvs))"
| "fuel _ = 1"

lemma decimal_nonempty [simp]: "decimal n \<noteq> []"
  by (subst decimal.simps) simp

lemma is_digit_of: "n < 10 \<Longrightarrow> is_digit (char_of (48 + n)) \<and> digit_val (char_of (48 + n)) = int n"
  using of_nat_of_char[of "char_of (48 + n)", where 'a = int, symmetric] by (simp add: is_digit_def digit_val_def)

lemma decimal_digits: "list_all is_digit (decimal n) \<and> digits_val (decimal n) = int n"
proof (induction n rule: decimal.induct)
  case (1 n)
  show ?case
  proof (cases "n < 10")
    case True
    then show ?thesis using is_digit_of[OF True] by (subst (1 2) decimal.simps) (simp add: digits_val_def)
  next
    case False
    have "n mod 10 < 10" by simp
    with is_digit_of[OF this] 1[OF False] False show ?thesis
      by (subst (1 2) decimal.simps) (simp add: digits_val_def, presburger)
  qed
qed

lemma json_text_start:
  "\<exists>c t. json_text v = c # t \<and> c \<notin> {CHR '']'', CHR ''}'', CHR '','', CHR '':''}"
proof (cases v)
  case (JNum n)
  from decimal_digits[of n] obtain c t where "decimal n = c # t" "is_digit c" by (cases "decimal n") auto
  moreover have "\<not> is_digit (CHR '']'')" "\<not> is_digit (CHR ''}'')" "\<not> is_digit (CHR '','')" "\<not> is_digit (CHR '':'')"
    by (simp_all add: is_digit_def)
  ultimately show ?thesis using JNum by auto
qed (auto simp: json_string_def)

definition ends_number :: "string \<Rightarrow> bool" where
  "ends_number rest \<longleftrightarrow> (case rest of [] \<Rightarrow> True | c # _ \<Rightarrow> \<not> is_digit c)"

definition reads_back :: "json \<Rightarrow> bool" where
  "reads_back v \<longleftrightarrow>
     (\<forall>n rest. fuel v \<le> n \<longrightarrow> ends_number rest \<longrightarrow> read_value n (json_text v @ rest) = Some (v, rest))"

lemma no_digits [simp]:
  "\<not> is_digit (CHR '','')" "\<not> is_digit (CHR '']'')" "\<not> is_digit (CHR ''}'')" "\<not> is_digit (CHR ''n'')"
  "\<not> is_digit quote" "\<not> is_digit (CHR ''['')" "\<not> is_digit (CHR ''{'')" "\<not> is_digit (CHR 0x0A)"
  by (simp_all add: is_digit_def)

lemma span_digits:
  "list_all is_digit ds \<Longrightarrow> ends_number rest \<Longrightarrow> takeWhile is_digit (ds @ rest) = ds \<and> dropWhile is_digit (ds @ rest) = rest"
  by (induction ds) (auto simp: ends_number_def split: list.splits)

lemma read_elems_text:
  assumes "\<forall>v\<in>set vs. reads_back v" and "vs \<noteq> []" and "sum_list (map (\<lambda>v. Suc (fuel v)) vs) \<le> n"
  shows "read_elems n (join (map json_text vs) @ CHR '']'' # rest) = Some (vs, rest)"
  using assms
proof (induction vs arbitrary: n)
  case Nil
  then show ?case by simp
next
  case (Cons v vs)
  then obtain m where n: "n = Suc m" "fuel v \<le> m" "sum_list (map (\<lambda>v. Suc (fuel v)) vs) \<le> m"
    by (cases n) auto
  have again: "read_value m (json_text v @ r) = Some (v, r)" if "ends_number r" for r
    using Cons.prems(1) n(2) that by (simp add: reads_back_def)
  show ?case
  proof (cases vs)
    case Nil
    then show ?thesis using again[of "CHR '']'' # rest"] n(1) by (simp add: ends_number_def)
  next
    case (Cons w ws)
    have "read_elems m (join (map json_text vs) @ CHR '']'' # rest) = Some (vs, rest)"
      using Cons.IH Cons.prems(1) n(3) Cons by simp
    then show ?thesis
      using again[of "CHR '','' # join (map json_text vs) @ CHR '']'' # rest"] n(1) Cons by (simp add: ends_number_def)
  qed
qed

definition member_text :: "string \<times> json \<Rightarrow> string" where
  "member_text = (\<lambda>(k, v). json_string k @ '':'' @ json_text v)"

lemma read_members_text:
  assumes "\<forall>(k, v)\<in>set kvs. utf8 k \<and> reads_back v" and "kvs \<noteq> []"
    and "sum_list (map (\<lambda>(k, v). Suc (fuel v)) kvs) \<le> n"
  shows "read_members n (join (map member_text kvs) @ CHR ''}'' # rest) = Some (kvs, rest)"
  using assms
proof (induction kvs arbitrary: n)
  case Nil
  then show ?case by simp
next
  case (Cons kv kvs)
  obtain k v where kv: "kv = (k, v)" by fastforce
  with Cons.prems obtain m where n: "n = Suc m" "fuel v \<le> m" "sum_list (map (\<lambda>(k, v). Suc (fuel v)) kvs) \<le> m"
    by (cases n) auto
  have key: "read_chars (json_chars k @ quote # r) = Some (k, r)" for r
    using Cons.prems(1) kv by (intro read_json_chars) simp
  have again: "read_value m (json_text v @ r) = Some (v, r)" if "ends_number r" for r
    using Cons.prems(1) kv n(2) that by (simp add: reads_back_def)
  show ?case
  proof (cases kvs)
    case Nil
    then show ?thesis using again[of "CHR ''}'' # rest"] n(1)
      by (simp add: ends_number_def kv member_text_def json_string_def key)
  next
    case (Cons x xs)
    have "read_members m (join (map member_text kvs) @ CHR ''}'' # rest) = Some (kvs, rest)"
      using Cons.IH Cons.prems(1) n(3) Cons by simp
    then show ?thesis
      using again[of "CHR '','' # join (map member_text kvs) @ CHR ''}'' # rest"] n(1) Cons
      by (simp add: ends_number_def kv member_text_def[of] json_string_def key)
  qed
qed

lemma join_start: "xs \<noteq> [] \<Longrightarrow> hd xs \<noteq> [] \<Longrightarrow> \<exists>t. join xs = hd xs @ t"
  by (cases xs rule: join.cases) auto

lemma read_value_text: "json_utf8 v \<Longrightarrow> reads_back v"
proof (induction v)
  case JNull
  then show ?case by (auto simp: reads_back_def dest: Suc_le_D)
next
  case (JNum k)
  show ?case unfolding reads_back_def
  proof (intro allI impI)
    fix n rest assume "fuel (JNum k) \<le> n" and rest: "ends_number rest"
    then obtain m where n: "n = Suc m" by (auto dest: Suc_le_D)
    obtain c t where ct: "decimal k = c # t" by (cases "decimal k") auto
    with decimal_digits[of k] have c: "is_digit c" by simp
    then have "c \<noteq> CHR ''n''" by auto
    moreover have "takeWhile is_digit (c # t @ rest) = c # t" "dropWhile is_digit (c # t @ rest) = rest"
      using span_digits[of "decimal k" rest] decimal_digits[of k] rest ct by simp_all
    moreover have "nat (digits_val (c # t)) = k" using decimal_digits[of k] ct by simp
    ultimately show "read_value n (json_text (JNum k) @ rest) = Some (JNum k, rest)"
      using c by (simp only: n json_text.simps ct append_Cons read_value.simps list.case if_False if_True)
  qed
next
  case (JStr s)
  then show ?case by (auto simp: reads_back_def json_string_def read_json_chars dest: Suc_le_D)
next
  case (JArr vs)
  then have again: "\<forall>v\<in>set vs. reads_back v" by (simp add: list_all_iff)
  show ?case unfolding reads_back_def
  proof (intro allI impI)
    fix n rest assume f: "fuel (JArr vs) \<le> n" and rest: "ends_number rest"
    then obtain m where n: "n = Suc m" and m: "sum_list (map (\<lambda>v. Suc (fuel v)) vs) \<le> m" by (cases n) auto
    show "read_value n (json_text (JArr vs) @ rest) = Some (JArr vs, rest)"
    proof (cases vs)
      case Nil
      then show ?thesis by (simp add: n)
    next
      case (Cons v ws)
      obtain c t where ct: "json_text v = c # t" "c \<noteq> CHR '']''" using json_text_start[of v] by auto
      then obtain t' where j: "join (map json_text vs) = c # t'"
        using join_start[of "map json_text vs"] Cons by auto
      have "vs \<noteq> []" using Cons by simp
      from read_elems_text[OF again this m, of rest] j ct(2) show ?thesis by (simp add: n)
    qed
  qed
next
  case (JObj kvs)
  then have again: "\<forall>(k, v)\<in>set kvs. utf8 k \<and> reads_back v" by (fastforce simp: list_all_iff)
  show ?case unfolding reads_back_def
  proof (intro allI impI)
    fix n rest assume f: "fuel (JObj kvs) \<le> n" and rest: "ends_number rest"
    then obtain m where n: "n = Suc m" and m: "sum_list (map (\<lambda>(k, v). Suc (fuel v)) kvs) \<le> m" by (cases n) auto
    have shape: "json_text (JObj kvs) = CHR ''{'' # join (map member_text kvs) @ ''}''" by (simp add: member_text_def)
    show "read_value n (json_text (JObj kvs) @ rest) = Some (JObj kvs, rest)"
    proof (cases kvs)
      case Nil
      then show ?thesis by (simp add: n)
    next
      case (Cons kv ws)
      obtain t where "member_text kv = quote # t" by (cases kv) (simp add: member_text_def json_string_def)
      then obtain t' where j: "join (map member_text kvs) = quote # t'"
        using join_start[of "map member_text kvs"] Cons by auto
      have "kvs \<noteq> []" using Cons by simp
      from read_members_text[OF again this m, of rest] j show ?thesis unfolding shape by (simp add: n)
    qed
  qed
qed

lemma sum_list_join: "sum_list (map (\<lambda>x. Suc (length x)) xs) \<le> Suc (length (join xs))"
  by (induction xs rule: join.induct) auto

lemma fuel_length: "fuel v \<le> length (json_text v)"
proof (induction v)
  case (JArr vs)
  have "sum_list (map (\<lambda>v. Suc (fuel v)) vs) \<le> sum_list (map (\<lambda>v. Suc (length (json_text v))) vs)"
    using JArr by (intro sum_list_mono) auto
  with sum_list_join[of "map json_text vs"] show ?case by (simp add: comp_def)
next
  case (JObj kvs)
  have "sum_list (map (\<lambda>(k, v). Suc (fuel v)) kvs) \<le> sum_list (map (\<lambda>kv. Suc (length (member_text kv))) kvs)"
    using JObj by (intro sum_list_mono) (fastforce simp: member_text_def json_string_def)
  with sum_list_join[of "map member_text kvs"] show ?case by (simp add: comp_def member_text_def)
qed (auto simp: json_string_def Suc_le_eq)

lemma read_json_Encode: "json_utf8 v \<Longrightarrow> read_json (json_Encode v) = Some v"
proof -
  assume "json_utf8 v"
  then have "reads_back v" by (rule read_value_text)
  moreover have "fuel v \<le> length (json_Encode v)" using fuel_length[of v] by (simp add: json_Encode_def)
  ultimately have "read_value (length (json_Encode v)) (json_text v @ [CHR 0x0A]) = Some (v, [CHR 0x0A])"
    unfolding reads_back_def by (simp only: ends_number_def list.case no_digits simp_thms)
  then show ?thesis by (simp only: read_json_def json_Encode_def option.case prod.case simp_thms if_True)
qed

end
