(* ===== verification/Endpoints.thy ===== *)
theory Endpoints
  imports DemoMain GoJson
begin

text \<open>
  What clients of the server receive as text: the bodies of the observability endpoints and the
  messages of the stream (\<open>cmd/mcp-ratchet-demo/main.go\<close>), with the JSON of statistics and events
  (\<open>domain/event.go\<close>, whose structs have no tags: a field is written under its Go name). Instants are
  written in a time zone, given by its offset from UTC at each instant.

  Shown: what is read from a body is what the handler answered, so no information is lost on the way
  to a client, as long as the strings are UTF-8.
\<close>

section \<open>Instants as text\<close>

text \<open>\<open>Z\<close>, or the sign, hours and minutes of the offset; Go divides towards zero.\<close>

definition zone_text :: "duration \<Rightarrow> string" where
  "zone_text off =
     (let secs = off div Second; mins = \<bar>secs\<bar> div 60
      in if secs = 0 then ''Z''
         else (if secs < 0 \<and> mins \<noteq> 0 then ''-'' else ''+'') @ appendInt (mins div 60) 2 @ '':'' @ appendInt (mins mod 60) 2)"

definition clock_text :: "time \<Rightarrow> string" where
  "clock_text t =
     (let s = t div Second mod 86400
      in appendInt (s div 3600) 2 @ '':'' @ appendInt (s div 60 mod 60) 2 @ '':'' @ appendInt (s mod 60) 2)"

text \<open>The fraction of a second without trailing zeros, nothing for a whole second.\<close>

definition nano_text :: "time \<Rightarrow> string" where
  "nano_text t =
     (if t mod Second = 0 then ''''
      else ''.'' @ rev (dropWhile (\<lambda>c. c = CHR ''0'') (rev (appendInt (t mod Second) 9))))"

definition RFC3339_in :: "(time \<Rightarrow> duration) \<Rightarrow> bool \<Rightarrow> time \<Rightarrow> string" where
  "RFC3339_in zone nanos t =
     (let l = t + zone t
      in Format_date l @ ''T'' @ clock_text l @ (if nanos then nano_text l else '''') @ zone_text (zone t))"

text \<open>\<open>time.Time.MarshalJSON\<close>: an error outside the years 0 to 9999, or for an offset of a day or more.\<close>

definition time_MarshalJSON :: "(time \<Rightarrow> duration) \<Rightarrow> time \<Rightarrow> json option" where
  "time_MarshalJSON zone t =
     (let (y, m, d) = civil_date (t + zone t)
      in if 0 \<le> y \<and> y \<le> 9999 \<and> \<bar>zone t div Second\<bar> div 3600 < 24 then Some (JStr (RFC3339_in zone True t)) else None)"

section \<open>The JSON of the domain types\<close>

text \<open>A nil map is written as null; in the model the nil metadata is the empty map.\<close>

fun meta_json :: "(time \<Rightarrow> duration) \<Rightarrow> meta_value \<Rightarrow> json" where
  "meta_json zone (MetaText s) = JStr s"
| "meta_json zone (MetaRFC3339 t) = JStr (RFC3339_in zone False t)"

definition event_json :: "(time \<Rightarrow> duration) \<Rightarrow> Event \<Rightarrow> json option" where
  "event_json zone e =
     (case time_MarshalJSON zone (Timestamp e) of
        None \<Rightarrow> None
      | Some ts \<Rightarrow> Some (JObj
          [(''ID'', JStr (EvID e)), (''Type'', JStr (EvType e)), (''SessionID'', JStr (EvSession e)),
           (''ToolName'', JStr (EvTool e)), (''Token'', JStr (EvToken e)), (''Timestamp'', ts),
           (''Metadata'', if dom (Metadata e) = {} then JNull else json_map (meta_json zone) (Metadata e))]))"

definition stats_json :: "EventStats \<Rightarrow> json" where
  "stats_json st = JObj
     [(''TotalEvents'', JNum (TotalEvents st)), (''EventsByType'', json_map JNum (EventsByType st)),
      (''EventsByTool'', json_map JNum (EventsByTool st)), (''ActiveSessions'', JNum (ActiveSessions st)),
      (''TokensIssued'', JNum (TokensIssued st)), (''TokensConsumed'', JNum (TokensConsumed st))]"

fun ws_json :: "(time \<Rightarrow> duration) \<Rightarrow> ws_message \<Rightarrow> json option" where
  "ws_json zone (Connected sid) = Some (JObj [(''session_id'', JStr sid), (''type'', JStr ''connected'')])"
| "ws_json zone (EventMessage e) = event_json zone e"

section \<open>Bodies\<close>

text \<open>
  Status and body of a reply. \<open>http.Error\<close> ends its text with a newline; when the encoding fails
  nothing is written and the status is 200.
\<close>

definition reply_body :: "('a \<Rightarrow> json option) \<Rightarrow> 'a reply \<Rightarrow> nat \<times> string" where
  "reply_body enc r =
     (case r of
        HTTPError code msg \<Rightarrow> (code, msg @ [CHR 0x0A])
      | Unavailable msg \<Rightarrow> (503, json_Encode (JObj [(''error'', JStr msg)]))
      | OK x \<Rightarrow> (200, case enc x of None \<Rightarrow> '''' | Some j \<Rightarrow> json_Encode j))"

definition stats_body :: "EventStats reply \<Rightarrow> nat \<times> string" where
  "stats_body = reply_body (\<lambda>st. Some (stats_json st))"

definition events_body :: "(time \<Rightarrow> duration) \<Rightarrow> Event list reply \<Rightarrow> nat \<times> string" where
  "events_body zone = reply_body (\<lambda>es. map_option JArr (those (map (event_json zone) es)))"

text \<open>The text of a message of the stream; a value that cannot be encoded is an empty message.\<close>

definition ws_text :: "(time \<Rightarrow> duration) \<Rightarrow> ws_message \<Rightarrow> string" where
  "ws_text zone msg = (case ws_json zone msg of None \<Rightarrow> '''' | Some j \<Rightarrow> json_Encode j)"

section \<open>Text is ASCII\<close>

definition ascii :: "string \<Rightarrow> bool" where
  "ascii s \<longleftrightarrow> list_all (\<lambda>c. byte c < 128) s"

lemma ascii_simps [simp]:
  "ascii []" "ascii (c # s) \<longleftrightarrow> byte c < 128 \<and> ascii s" "ascii (s @ t) \<longleftrightarrow> ascii s \<and> ascii t"
  "ascii (rev s) = ascii s"
  by (auto simp: ascii_def list_all_iff)

lemma ascii_utf8: "ascii s \<Longrightarrow> utf8 s"
  by (induction s) (simp_all add: utf8.simps(2))

lemma ascii_decimal: "ascii (decimal n)"
  using decimal_digits[of n] by (auto simp: ascii_def list_all_iff is_digit_def)

lemma ascii_appendInt: "ascii (appendInt x n)"
  by (simp add: appendInt_def Let_def ascii_decimal) (simp add: ascii_def list_all_iff)

lemma ascii_dropWhile: "ascii s \<Longrightarrow> ascii (dropWhile P s)"
  by (induction s) auto

lemma utf8_time: "utf8 (RFC3339_in zone nanos t)"
  by (intro ascii_utf8) (auto simp: RFC3339_in_def Format_date_def date_text_def clock_text_def nano_text_def
      zone_text_def Let_def ascii_appendInt intro!: ascii_dropWhile split: prod.splits)

section \<open>Reading it back\<close>

definition event_utf8 :: "Event \<Rightarrow> bool" where
  "event_utf8 e \<longleftrightarrow>
     utf8 (EvID e) \<and> utf8 (EvType e) \<and> utf8 (EvSession e) \<and> utf8 (EvTool e) \<and> utf8 (EvToken e) \<and>
     finite (dom (Metadata e)) \<and>
     (\<forall>k v. Metadata e k = Some v \<longrightarrow> utf8 k \<and> (case v of MetaText s \<Rightarrow> utf8 s | MetaRFC3339 t \<Rightarrow> True))"

definition stats_utf8 :: "EventStats \<Rightarrow> bool" where
  "stats_utf8 st \<longleftrightarrow>
     finite (dom (EventsByType st)) \<and> finite (dom (EventsByTool st)) \<and>
     (\<forall>k\<in>dom (EventsByType st) \<union> dom (EventsByTool st). utf8 k)"

lemma utf8_json_map:
  assumes "finite (dom m)" and "\<And>k v. m k = Some v \<Longrightarrow> utf8 k \<and> json_utf8 (f v)"
  shows "json_utf8 (json_map f m)"
  using assms by (auto simp: json_map_def list_all_iff)

text \<open>The names of the fields are ASCII.\<close>

lemma utf8_names:
  "utf8 ''ID''" "utf8 ''Type''" "utf8 ''SessionID''" "utf8 ''ToolName''" "utf8 ''Token''" "utf8 ''Timestamp''"
  "utf8 ''Metadata''" "utf8 ''TotalEvents''" "utf8 ''EventsByType''" "utf8 ''EventsByTool''"
  "utf8 ''ActiveSessions''" "utf8 ''TokensIssued''" "utf8 ''TokensConsumed''" "utf8 ''type''" "utf8 ''connected''"
  "utf8 ''session_id''" "utf8 ''error''"
  by (rule ascii_utf8, simp)+

lemma time_json_utf8: "time_MarshalJSON zone t = Some j \<Longrightarrow> json_utf8 j"
  by (auto simp: time_MarshalJSON_def utf8_time split: if_splits prod.splits)

lemma event_json_utf8:
  assumes "event_utf8 e" and "event_json zone e = Some j"
  shows "json_utf8 j"
proof -
  have "json_utf8 (json_map (meta_json zone) (Metadata e))"
  proof (rule utf8_json_map)
    show "finite (dom (Metadata e))" using assms(1) by (simp add: event_utf8_def)
    fix k v assume "Metadata e k = Some v"
    with assms(1) have "utf8 k \<and> (case v of MetaText s \<Rightarrow> utf8 s | MetaRFC3339 t \<Rightarrow> True)"
      unfolding event_utf8_def by blast
    then show "utf8 k \<and> json_utf8 (meta_json zone v)" by (cases v) (simp_all add: utf8_time)
  qed
  with assms show ?thesis
    by (auto simp: event_json_def event_utf8_def utf8_names dest: time_json_utf8 split: option.splits)
qed

lemma stats_json_utf8: "stats_utf8 st \<Longrightarrow> json_utf8 (stats_json st)"
  unfolding stats_json_def by (auto simp: stats_utf8_def utf8_names intro!: utf8_json_map)

lemma those_map: "those (map f xs) = Some ys \<longleftrightarrow> map f xs = map Some ys"
proof (induction xs arbitrary: ys)
  case Nil
  then show ?case by auto
next
  case (Cons x xs)
  then show ?case by (cases ys) (auto split: option.splits)
qed

text \<open>The fields of an object.\<close>

definition field :: "string \<Rightarrow> json \<Rightarrow> json option" where
  "field k j = (case j of JObj kvs \<Rightarrow> map_of kvs k | _ \<Rightarrow> None)"

lemma event_fields:
  assumes "event_json zone e = Some j"
  shows "field ''ID'' j = Some (JStr (EvID e)) \<and> field ''Type'' j = Some (JStr (EvType e)) \<and>
    field ''SessionID'' j = Some (JStr (EvSession e)) \<and> field ''ToolName'' j = Some (JStr (EvTool e)) \<and>
    field ''Token'' j = Some (JStr (EvToken e)) \<and> field ''Timestamp'' j = Some (JStr (RFC3339_in zone True (Timestamp e)))"
  using assms by (auto simp: event_json_def field_def time_MarshalJSON_def split: option.splits if_splits prod.splits)

text \<open>
  C34: A client of the events endpoint can read back what the handler answered: if the page is answered
  with OK and its events can be encoded, the body is one JSON array with one object for each event
  of the page in its order, which carries the ID, type, session, tool and token of that event and
  its time, when these strings are UTF-8.
\<close>

theorem events_body_read_back:
  assumes "events_handler svc q w = OK es" and "\<And>e. e \<in> set es \<Longrightarrow> event_utf8 e"
    and "\<And>e. e \<in> set es \<Longrightarrow> event_json zone e \<noteq> None"
  shows "\<exists>js. events_body zone (events_handler svc q w) = (200, json_Encode (JArr js)) \<and>
    read_json (json_Encode (JArr js)) = Some (JArr js) \<and>
    list_all2 (\<lambda>j e. field ''ID'' j = Some (JStr (EvID e)) \<and> field ''Type'' j = Some (JStr (EvType e)) \<and>
      field ''SessionID'' j = Some (JStr (EvSession e)) \<and> field ''ToolName'' j = Some (JStr (EvTool e)) \<and>
      field ''Token'' j = Some (JStr (EvToken e)) \<and>
      field ''Timestamp'' j = Some (JStr (RFC3339_in zone True (Timestamp e)))) js es"
proof -
  let ?js = "map (\<lambda>e. the (event_json zone e)) es"
  have enc: "event_json zone e = Some (the (event_json zone e))" if "e \<in> set es" for e using assms(3)[OF that] by auto
  then have "those (map (event_json zone) es) = Some ?js" unfolding those_map by simp
  then have "events_body zone (events_handler svc q w) = (200, json_Encode (JArr ?js))"
    by (simp add: events_body_def reply_body_def assms(1))
  moreover have "json_utf8 (JArr ?js)" using event_json_utf8[OF assms(2) enc] by (simp add: list_all_iff)
  then have "read_json (json_Encode (JArr ?js)) = Some (JArr ?js)" by (rule read_json_Encode)
  moreover have "list_all2 (\<lambda>j e. field ''ID'' j = Some (JStr (EvID e)) \<and> field ''Type'' j = Some (JStr (EvType e)) \<and>
      field ''SessionID'' j = Some (JStr (EvSession e)) \<and> field ''ToolName'' j = Some (JStr (EvTool e)) \<and>
      field ''Token'' j = Some (JStr (EvToken e)) \<and>
      field ''Timestamp'' j = Some (JStr (RFC3339_in zone True (Timestamp e)))) ?js es"
    using event_fields[OF enc] by (simp add: list_all2_conv_all_nth)
  ultimately show ?thesis by blast
qed

text \<open>The statistics can be read back too.\<close>

lemma stats_body_read_back:
  assumes "stats_utf8 st"
  shows "stats_body (OK st) = (200, json_Encode (stats_json st)) \<and>
    read_json (snd (stats_body (OK st))) = Some (stats_json st)"
  using read_json_Encode[OF stats_json_utf8[OF assms]] by (simp add: stats_body_def reply_body_def)

text \<open>So can what the streaming client prints.\<close>

lemma ws_text_read_back:
  assumes "case msg of Connected sid \<Rightarrow> utf8 sid | EventMessage e \<Rightarrow> event_utf8 e" and "ws_json zone msg = Some j"
  shows "read_json (ws_text zone msg) = Some j"
proof -
  have "json_utf8 j" using assms by (cases msg) (auto simp: utf8_names dest: event_json_utf8)
  then show ?thesis using assms(2) by (simp add: ws_text_def read_json_Encode)
qed

definition body_event :: Event where
  "body_event = \<lparr>EvID = ''1'', EvType = ''token_consumed'', EvSession = ''s'', EvTool = ''a<b'', EvToken = [CHR 0x22],
     Timestamp = 62135596800 * Second, Metadata = [''consumed_by'' \<mapsto> MetaText ''use'']\<rparr>"

definition body_json :: json where
  "body_json = JObj
     [(''ID'', JStr ''1''), (''Type'', JStr ''token_consumed''), (''SessionID'', JStr ''s''), (''ToolName'', JStr ''a<b''),
      (''Token'', JStr [CHR 0x22]), (''Timestamp'', JStr ''1970-01-01T00:00:00Z''),
      (''Metadata'', JObj [(''consumed_by'', JStr ''use'')])]"

lemma body_event_json: "event_json (\<lambda>_. 0) body_event = Some body_json"
proof -
  have "json_map (meta_json (\<lambda>_. 0)) (Metadata body_event) = JObj [(''consumed_by'', JStr ''use'')]"
    by (simp add: json_map_def body_event_def)
  moreover have "time_MarshalJSON (\<lambda>_. 0) (Timestamp body_event) = Some (JStr ''1970-01-01T00:00:00Z'')" by code_simp
  moreover have "dom (Metadata body_event) \<noteq> {}" by (simp add: body_event_def)
  ultimately show ?thesis by (simp add: event_json_def) (simp add: body_event_def body_json_def)
qed

text \<open>Its text, as the server writes it: quotes and HTML characters are escaped.\<close>

lemma body_event_text:
  "json_Encode body_json =
     ''{'' @ quote # ''ID'' @ quote # '':'' @ quote # ''1'' @ quote # '','' @ quote # ''Type'' @ quote # '':'' @
     quote # ''token_consumed'' @ quote # '','' @ quote # ''SessionID'' @ quote # '':'' @ quote # ''s'' @ quote # '','' @
     quote # ''ToolName'' @ quote # '':'' @ quote # ''a'' @ backslash # ''u003cb'' @ quote # '','' @
     quote # ''Token'' @ quote # '':'' @ quote # backslash # quote # quote # '','' @
     quote # ''Timestamp'' @ quote # '':'' @ quote # ''1970-01-01T00:00:00Z'' @ quote # '','' @
     quote # ''Metadata'' @ quote # '':{'' @ quote # ''consumed_by'' @ quote # '':'' @ quote # ''use'' @ quote # ''}}'' @ [CHR 0x0A]"
  by code_simp

lemma body_event_utf8: "event_utf8 body_event"
  unfolding event_utf8_def by (auto simp: body_event_def intro!: ascii_utf8)

definition body_query :: "string \<Rightarrow> string" where
  "body_query k = (if k = ''session_id'' then ''s'' else '''')"

theorem events_body_read_back_witness:
  "\<exists>js. events_body (\<lambda>_. 0) (events_handler (ex_demo_svc ()) body_query
      (fresh_world (\<lambda>_. 0) (\<lambda>_. '''') ex_entropy
        ((NewMemoryEventStore 0)\<lparr>events := [ex_event ''2'' ''t'', body_event]\<rparr>, newEventBroadcaster))) =
     (200, json_Encode (JArr js)) \<and>
   read_json (json_Encode (JArr js)) = Some (JArr js) \<and>
   list_all2 (\<lambda>j e. field ''ID'' j = Some (JStr (EvID e))) js [body_event]"
proof -
  let ?w = "fresh_world (\<lambda>_. 0) (\<lambda>_. '''') ex_entropy
        ((NewMemoryEventStore 0)\<lparr>events := [ex_event ''2'' ''t'', body_event]\<rparr>, newEventBroadcaster)"
  have flt: "request_filter body_query =
      \<lparr>EventTypes = [], ToolNames = [], StartTime = 0, EndTime = 0, Limit = 100\<rparr>"
    "offset_param (body_query ''offset'') = 0"
    by (simp_all add: request_filter_def body_query_def list_param_def limit_param_def offset_param_def)
  have g: "get_events_loop ''s'' (Some (request_filter body_query)) [] [ex_event ''2'' ''t'', body_event] = [body_event]"
    by (simp add: flt(1) ex_event_def body_event_def matchesFilter_def)
  have sid: "body_query ''session_id'' = ''s''" by (simp add: body_query_def)
  have "eventStore (ex_demo_svc ()) = Some (demo_event_store True)"
    by (simp add: ex_demo_svc_def NewRatchetServiceWithObservability_def)
  then have "GetObservabilityEvents (ex_demo_svc ()) ''s'' (Some (request_filter body_query)) ?w = Inr [body_event]"
    by (simp add: GetObservabilityEvents_def demo_event_store_def NewBroadcastingEventStore_def
        BroadcastingEventStore_GetEvents_def memory_event_store_def MemoryEventStore_GetEvents_def fresh_world_def
        del: get_events_loop.simps) (rule g)
  then have h: "events_handler (ex_demo_svc ()) body_query ?w = OK [body_event]"
    by (simp add: events_handler_def sid flt(2) apply_offset_def)
  from events_body_read_back[OF h, of "\<lambda>_. 0"] body_event_utf8 body_event_json show ?thesis
    by (auto elim: list_all2_mono)
qed

end
