(* ===== verification/ServerEnd.thy ===== *)
theory ServerEnd
  imports DemoRuns
begin

text \<open>
  How the demo server's \<open>run\<close> ends, as steps of its goroutines: the one that calls \<open>ListenAndServe\<close> and
  sends the result on the channel \<open>errServe\<close>, which holds one value, and the main one, whose \<open>select\<close>
  waits for a signal or for that result. The signal, the results of \<open>ListenAndServe\<close> and of \<open>Shutdown\<close>
  are the environment's; \<open>closed\<close> is \<open>errors.Is\<close> against \<open>http.ErrServerClosed\<close>. \<open>run_end\<close> is what the
  steps come to.
\<close>

section \<open>Goroutines\<close>

datatype serving = Listening | Listened "error option" | Sent
datatype main_pos = Selecting | ShuttingDown | Awaiting | Returned "error option"

record server_end =
  signalled :: bool
  serving_at :: serving
  errServe :: "error option list"
  main_at :: main_pos

definition server_up :: server_end where
  "server_up = \<lparr>signalled = False, serving_at = Listening, errServe = [], main_at = Selecting\<rparr>"

inductive end_step :: "(error \<Rightarrow> bool) \<Rightarrow> server_end \<Rightarrow> server_end \<Rightarrow> bool" for closed where
  signal: "\<not> signalled s \<Longrightarrow> end_step closed s (s\<lparr>signalled := True\<rparr>)"
| listened: "serving_at s = Listening \<Longrightarrow> end_step closed s (s\<lparr>serving_at := Listened e\<rparr>)"
| send: "serving_at s = Listened e \<Longrightarrow> length (errServe s) < 1 \<Longrightarrow>
    end_step closed s (s\<lparr>serving_at := Sent, errServe := errServe s @ [e]\<rparr>)"
| select_signal: "main_at s = Selecting \<Longrightarrow> signalled s \<Longrightarrow> end_step closed s (s\<lparr>main_at := ShuttingDown\<rparr>)"
| select_served: "main_at s = Selecting \<Longrightarrow> errServe s = e # q \<Longrightarrow>
    end_step closed s (s\<lparr>main_at := Returned (serve_error closed e), errServe := q\<rparr>)"
| shutdown_failed: "main_at s = ShuttingDown \<Longrightarrow>
    end_step closed s (s\<lparr>main_at := Returned (Some (WrapError ''server shutdown failed'' err))\<rparr>)"
| shutdown_done: "main_at s = ShuttingDown \<Longrightarrow> end_step closed s (s\<lparr>main_at := Awaiting\<rparr>)"
| awaited: "main_at s = Awaiting \<Longrightarrow> errServe s = e # q \<Longrightarrow>
    end_step closed s (s\<lparr>main_at := Returned (serve_error closed e), errServe := q\<rparr>)"

inductive end_reach :: "(error \<Rightarrow> bool) \<Rightarrow> server_end \<Rightarrow> bool" for closed where
  start: "end_reach closed server_up"
| more: "end_reach closed s \<Longrightarrow> end_step closed s s' \<Longrightarrow> end_reach closed s'"

text \<open>The channel holds the result from the send to the receive, which is the end of \<open>run\<close>.\<close>

definition end_ok :: "(error \<Rightarrow> bool) \<Rightarrow> server_end \<Rightarrow> bool" where
  "end_ok closed s \<longleftrightarrow>
     (serving_at s \<noteq> Sent \<longrightarrow> errServe s = []) \<and>
     (serving_at s = Sent \<longrightarrow> errServe s \<noteq> [] \<or> (\<exists>r. main_at s = Returned r)) \<and>
     (\<forall>r. main_at s = Returned r \<longrightarrow> (\<exists>ev. r = run_end closed ev)) \<and>
     (main_at s \<in> {ShuttingDown, Awaiting} \<longrightarrow> signalled s)"

lemma end_ok_step:
  assumes "end_ok closed s" and "end_step closed s s'"
  shows "end_ok closed s'"
  using assms(2)
proof cases
  case (shutdown_failed err)
  have "\<exists>ev. Some (WrapError ''server shutdown failed'' err) = run_end closed ev" by (rule exI[of _ "Signalled (Some err) None"]) simp
  with shutdown_failed assms(1) show ?thesis unfolding end_ok_def by auto
next
  case (select_served e q)
  have "\<exists>ev. serve_error closed e = run_end closed ev" by (rule exI[of _ "Served e"]) simp
  with select_served assms(1) show ?thesis unfolding end_ok_def by auto
next
  case (awaited e q)
  have "\<exists>ev. serve_error closed e = run_end closed ev" by (rule exI[of _ "Signalled None e"]) simp
  with awaited assms(1) show ?thesis unfolding end_ok_def by auto
qed (use assms(1) in \<open>auto simp: end_ok_def\<close>)

lemma end_reach_ok: "end_reach closed s \<Longrightarrow> end_ok closed s"
proof (induction rule: end_reach.induct)
  case start
  show ?case by (simp add: end_ok_def server_up_def)
next
  case (more s s')
  then show ?case by (blast intro: end_ok_step)
qed

section \<open>What is shown\<close>

text \<open>
  The result of \<open>run\<close> is that of \<open>run_end\<close> for what the environment did, and the goroutine that serves is
  never stuck on its channel, not even when \<open>run\<close> has returned without receiving from it.
\<close>

theorem run_ends_as_described:
  assumes "end_reach closed s"
  shows "(\<forall>r. main_at s = Returned r \<longrightarrow> (\<exists>ev. r = run_end closed ev)) \<and>
    (\<forall>e. serving_at s = Listened e \<longrightarrow> end_step closed s (s\<lparr>serving_at := Sent, errServe := [e]\<rparr>))"
proof -
  have ok: "end_ok closed s" using assms by (rule end_reach_ok)
  have "end_step closed s (s\<lparr>serving_at := Sent, errServe := [e]\<rparr>)" if "serving_at s = Listened e" for e
    using end_step.send[of s e closed] that ok by (simp add: end_ok_def)
  with ok show ?thesis by (simp add: end_ok_def)
qed

text \<open>A bound on the steps that are left; the server is idle while nothing but a signal can come.\<close>

definition steps_left :: "server_end \<Rightarrow> nat" where
  "steps_left s =
     (if signalled s then 0 else 1) +
     (case serving_at s of Listening \<Rightarrow> 2 | Listened e \<Rightarrow> 1 | Sent \<Rightarrow> 0) +
     (case main_at s of Selecting \<Rightarrow> 3 | ShuttingDown \<Rightarrow> 2 | Awaiting \<Rightarrow> 1 | Returned r \<Rightarrow> 0)"

lemma end_step_left: "end_step closed s s' \<Longrightarrow> steps_left s' < steps_left s"
  by (cases rule: end_step.cases) (auto simp: steps_left_def)

lemma end_step_next:
  assumes "end_ok closed s" and "\<And>r. main_at s \<noteq> Returned r"
  shows "\<exists>s'. end_step closed s s'"
proof (cases "serving_at s")
  case Listening
  then show ?thesis by (blast intro: end_step.listened)
next
  case (Listened e)
  with assms(1) show ?thesis using end_step.send[of s e closed] by (auto simp: end_ok_def)
next
  case Sent
  with assms obtain e q where "errServe s = e # q" by (cases "errServe s") (auto simp: end_ok_def)
  with assms(2) show ?thesis
    by (cases "main_at s") (auto intro: end_step.select_served end_step.awaited end_step.shutdown_done)
qed

text \<open>
  C25: The end of \<open>run\<close> never hangs on its channel: once \<open>ListenAndServe\<close> and \<open>Shutdown\<close> return, from every
  reachable state every execution makes at most six steps, and one that cannot go on has ended with
  \<open>run\<close> returned, whether a signal or a failure of the server came first.
\<close>

theorem run_returns:
  assumes "end_reach closed (f 0)" and "\<And>i. i < n \<Longrightarrow> end_step closed (f i) (f (Suc i))"
  shows "n \<le> 6 \<and> ((\<nexists>s'. end_step closed (f n) s') \<longrightarrow> (\<exists>r. main_at (f n) = Returned r))"
proof -
  have "end_reach closed (f k) \<and> steps_left (f k) + k \<le> steps_left (f 0)" if "k \<le> n" for k
    using that
  proof (induction k)
    case (Suc k)
    then have "end_step closed (f k) (f (Suc k))" using assms(2) by simp
    with Suc end_step_left[OF this] show ?case by (auto intro: end_reach.more)
  qed (use assms(1) in simp)
  from this[of n] have reach: "end_reach closed (f n)" and "n \<le> steps_left (f 0)" by simp_all
  moreover have "steps_left (f 0) \<le> 6"
    by (auto simp: steps_left_def split: serving.split main_pos.split)
  ultimately show ?thesis using end_step_next[OF end_reach_ok[OF reach]] by (metis order_trans)
qed

text \<open>A signal comes just as the server fails, and the failure is received first.\<close>

theorem run_returns_witness:
  "\<exists>f. f 0 = server_up \<and> (\<forall>i<4. end_step (\<lambda>_. False) (f i) (f (Suc i))) \<and>
     main_at (f 4) = Returned (Some (WrapError ''server error'' (NewError ''in use''))) \<and>
     (\<exists>r. main_at (f 4) = Returned r)"
proof -
  let ?e = "Some (NewError ''in use'')"
  let ?s1 = "server_up\<lparr>serving_at := Listened ?e\<rparr>"
  let ?s2 = "?s1\<lparr>signalled := True\<rparr>"
  let ?s3 = "?s2\<lparr>serving_at := Sent, errServe := errServe ?s2 @ [?e]\<rparr>"
  let ?s4 = "?s3\<lparr>main_at := Returned (serve_error (\<lambda>_. False) ?e), errServe := []\<rparr>"
  let ?f = "\<lambda>i :: nat. if i = 0 then server_up else if i = 1 then ?s1 else if i = 2 then ?s2 else if i = 3 then ?s3 else ?s4"
  have steps: "end_step (\<lambda>_. False) server_up ?s1" "end_step (\<lambda>_. False) ?s1 ?s2" "end_step (\<lambda>_. False) ?s2 ?s3"
    "end_step (\<lambda>_. False) ?s3 ?s4"
    by (intro end_step.intros; simp add: server_up_def)+
  have step: "end_step (\<lambda>_. False) (?f i) (?f (Suc i))" if "i < 4" for i :: nat
  proof -
    from that have "i = 0 \<or> i = 1 \<or> i = 2 \<or> i = 3" by auto
    with steps show ?thesis by (elim disjE) simp_all
  qed
  have "steps_left ?s4 = 0" by (simp add: steps_left_def)
  then have stuck: "\<nexists>s'. end_step (\<lambda>_. False) (?f 4) s'" using end_step_left[of "\<lambda>_. False" ?s4] by force
  have "end_reach (\<lambda>_. False) (?f 0)" by (simp add: end_reach.start)
  from run_returns[OF this step] stuck have "\<exists>r. main_at (?f 4) = Returned r" by blast
  with step show ?thesis by (intro exI[of _ ?f]) (auto simp: serve_error_def)
qed

theorem run_ends_as_described_witness:
  "\<exists>s ev. end_reach (\<lambda>_. False) s \<and> main_at s = Returned (run_end (\<lambda>_. False) ev) \<and> signalled s"
proof -
  let ?s1 = "server_up\<lparr>signalled := True\<rparr>"
  let ?s2 = "?s1\<lparr>main_at := ShuttingDown\<rparr>"
  let ?s3 = "?s2\<lparr>main_at := Returned (Some (WrapError ''server shutdown failed'' (NewError ''late'')))\<rparr>"
  have "end_reach (\<lambda>_. False) ?s1" by (intro end_reach.more[OF end_reach.start] end_step.signal) (simp add: server_up_def)
  then have "end_reach (\<lambda>_. False) ?s2"
    by (rule end_reach.more) (intro end_step.select_signal; simp add: server_up_def)
  then have "end_reach (\<lambda>_. False) ?s3" by (rule end_reach.more) (intro end_step.shutdown_failed; simp)
  with run_ends_as_described[OF this] show ?thesis by (intro exI[of _ ?s3]) auto
qed

end
