(* ===== verification/Spec2Isabelle.thy ===== *)
theory Spec2Isabelle
  imports SessionIsolation RunEvents SessionRaces StreamRaces Endpoints ServerEnd
begin

text \<open>
  A verification development for mcp-ratchet: a library that makes MCP tools callable only in an
  order that rules prescribe. A rule says that a tool needs a prerequisite tool; a successful call
  of a tool issues a token that expires; a call of a restricted tool is let through when one of its
  prerequisites has been called and a token of it is still valid; a one-time-use rule spends that
  token. The repository holds the library (\<open>pkg/ratchet\<close>) and a demo server
  (\<open>cmd/mcp-ratchet-demo\<close>, \<open>internal\<close>).

  \<^bold>\<open>Parts and theories.\<close>

  \<^item> \<open>Prelude\<close>, \<open>GoStd\<close>, \<open>GoDuration\<close>, \<open>GoTime\<close>, \<open>GoCmd\<close>, \<open>GoJson\<close>: Go slices, maps, errors
    (\<open>fmt.Errorf\<close> with \<open>%w\<close>, \<open>errors.Is\<close>), instants and durations, \<open>time.ParseDuration\<close>, \<open>AddDate\<close>, the
    calendar, \<open>Atoi\<close>; package \<open>flag\<close>, the patterns of \<open>http.ServeMux\<close> and when their registration panics; \<open>encoding/json\<close> with a reader of
    JSON and the round trip of the two. A Go
    function with results \<open>(T, error)\<close> is \<open>error + T\<close>, one with the result \<open>error\<close> is
    \<open>error option\<close>, a nil dereference or a closed channel closed again is \<open>Panic\<close> or \<open>None\<close>.
  \<^item> \<open>Domain\<close> (\<open>pkg/ratchet/domain\<close>): names, rules, tokens, sessions, events. A session's token map
    is a Go map, so the heap of these maps is explicit and copies of a session share one.
  \<^item> \<open>Ports\<close> (\<open>ports/secondary\<close>): the interfaces as records of methods over a private state, and a
    locale for each with the laws its clients use: \<open>token_store\<close>, \<open>session_store\<close>, \<open>event_store\<close>,
    \<open>random_generator\<close>, \<open>config_loader\<close>.
  \<^item> \<open>MemoryTokenStore\<close>, \<open>MemorySessionStore\<close>, \<open>MemoryEventStore\<close>, \<open>EventStores\<close>, \<open>CryptoRandom\<close>,
    \<open>YamlLoader\<close> (\<open>adapters\<close>): one theory per adapter, each ends by interpreting its locale.
    Functional behaviour of the stores, the query, statistics and in-place pruning loops against
    references, broadcasting as a refinement, tokens as a lossless encoding of the random bytes,
    the depth-first search for circles against \<open>acyclic\<close>.
  \<^item> \<open>RatchetService\<close> (\<open>services/ratchet_service.go\<close>): every method of the service as a function of
    the service, its arguments and a \<open>world\<close> (heap, clock readings, UUIDs, states of the ports).
    \<open>ServiceLaws\<close>: which parts of the world each method reads and writes, and the locale
    \<open>ratchet_service\<close>, a service over any token and session store that keep their contracts.
  \<^item> \<open>PrimaryPort\<close> (\<open>ports/primary/ratchet_service.go\<close>): the interface of the service as a record of
    methods with a receiver, the locale \<open>primary_port\<close> of what its callers rely on, interpreted on
    the service.
  \<^item> \<open>Wrapper\<close> (\<open>mcp/wrapper.go\<close>): the handler \<open>WrapWithRatchet\<close> returns, over any primary port and
    with the tool's own handler as a parameter; lemmas for every port, then its instance with the
    service. \<open>WrapperLaws\<close>: one wrapped call is one step of the abstract machine.
  \<^item> \<open>RatchetSpec\<close>: the abstract specification, a machine of calls, times and tokens, with its
    invariants (order and freshness, one-time use, dead circles). \<open>MemoryService\<close>, \<open>WrappedRuns\<close>,
    \<open>Guarantees\<close>: the locale on the code's own stores; runs of the program refine runs of the
    machine, so the machine's guarantees hold of the program; liveness when rules have no circle.
  \<^item> \<open>ServiceProperties\<close>: what each method of the service answers and changes, on every branch.
    \<open>SessionIsolation\<close>: no operation affects another session. \<open>RunEvents\<close>: the events a run leaves in
    the log while the pruning goroutine works, and what the statistics say about it.
  \<^item> \<open>Interleaving\<close>: wrapped calls that overlap, as sequences of atomic phases. Order and freshness
    survive; one-time use and the history do not. \<open>SerialRuns\<close>: schedules
    without overlap refine the abstract machine, phase by phase, so there all of it survives.
    \<open>SessionRaces\<close>: the same calls with the creation of the session and the accesses of the token map that
    all copies of the session share; the session is created once; without a race on the map nothing
    else changes; calls made one at a time never race and refine the abstract machine from the first
    call on; overlapping calls can race.
  \<^item> \<open>Greeting\<close>, \<open>DemoServer\<close>, \<open>DemoRuns\<close> (\<open>internal\<close>, \<open>cmd/mcp-ratchet-demo\<close>): the demo tools, the
    broadcaster, the configuration and wiring of \<open>run\<close>, the observability endpoints with their
    64-bit page arithmetic, streaming one operation at a time, and runs of the configured server.
  \<^item> \<open>StreamRaces\<close>: streaming with publishers and connections that interleave, a step relation with
    the read/write lock and the calls of \<open>WriteJSON\<close>, which may overlap, fail or panic: what is sent, to
    whom, how often; that a broadcast ends; what concurrent writers break.
  \<^item> \<open>DemoMain\<close>: \<open>main\<close> and \<open>run\<close> from the command line to the routes that are registered, the MCP
    adapter (\<open>internal/adapter/primary/mcp/server.go\<close>), the client \<open>cmd/ws-test\<close> and what it prints of
    the interleaved streams.
    \<open>ServerEnd\<close>: the goroutines and the channel at the end of \<open>run\<close>, which returns in at most six steps.
    \<open>Endpoints\<close>: the bodies and messages clients receive, as JSON text, and that they can be read back.

  \<^bold>\<open>How the parts meet.\<close> The service calls the ports only through their records, and its lemmas use
  only the locales' laws. \<open>memory_service\<close> is the service that \<open>main.go\<close> builds; interpreting
  \<open>ratchet_service\<close> on it turns these lemmas into facts about the program. Events are written
  through the same world but no answer depends on them.

  \<^bold>\<open>Time, randomness, order of maps.\<close> The \<open>i\<close>-th reading of the clock and the \<open>i\<close>-th answer of the
  random source are given by functions of the world, so a theorem holds for all of them; where
  needed the clock does not run backwards (\<open>mono\<close>) and the source does not repeat itself
  (\<open>never_repeats\<close>). The order in which Go ranges over a map is a parameter (\<open>shuffle\<close>) or does not
  matter. Instants and counters are unbounded; the page arithmetic of the events endpoint and the
  durations read from a configuration have their 64 bits. All loops of the code are total
  functions here. Fuel is used only by the reference reader of JSON, which is not code of the
  repository: the length of a text bounds it and is shown to be enough (\<open>fuel_length\<close>).

  \<^bold>\<open>Parameters.\<close> The YAML decoder, opening and reading files, \<open>crypto/rand\<close>, UUIDs, the WebSocket
  upgrade, dialer and connection, the constructors of the MCP SDK, the outcome of \<open>ListenAndServe\<close> and
  \<open>Shutdown\<close>, the time zone, which names beyond ASCII are identifiers, and the handler of a tool (assumed not to touch the ratchet's stores,
  \<open>leaves_ratchet\<close>, where a theorem needs it; the demo's tools are shown to keep this).

  \<^bold>\<open>Not modelled.\<close> What happens inside the HTTP server and the MCP SDK beyond the registration of
  routes and the choice of a tool by name; response headers, the contents of log lines, writing
  timeouts (a call of \<open>WriteJSON\<close> is taken to return, where that matters). Contexts are not modelled: no code of the library reads one. \<open>pkg/ratchet/doc.go\<close> is a comment. The stores lock each
  method, so a method is one step; a data race on the token map ends a run (\<open>SessionRaces\<close>), what the
  program does after one has no meaning here, and the backing arrays of histories and token lists
  are values. The interleaved models leave out the events, but for \<open>session_created\<close>. Other custom
  event stores than those of the repository are covered by the port's records. The pruning goroutine
  is interleaved with the operations of the event store (\<open>MemoryEventStore\<close>) and with the requests of
  a run (\<open>RunEvents\<close>), not with the streams.
\<close>

end
